(* ===== verification/Prelude.thy ===== *)
theory Prelude
  imports Main "HOL-Library.Word"
begin

text \<open>
  Shared vocabulary of the development: the machine integer types of the Rust
  sources, the result of a Rust function that may fail or panic, and the slice
  and vector operations of \<^verbatim>\<open>core\<close> and \<^verbatim>\<open>alloc\<close> that the modelled
  components call. The lemmas below are the ones several components use; the
  collections \<open>rust_simps\<close> (unfoldings of library helpers) and \<open>slice_simps\<close>
  (length and indexing facts of slices) are passed to \<open>simp\<close> and \<open>auto\<close> by name.
\<close>

unbundle bit_operations_syntax

named_theorems rust_simps
named_theorems slice_simps

section \<open>Machine integers and results\<close>

type_synonym u8 = "8 word"
type_synonym u16 = "16 word"
type_synonym u32 = "32 word"
type_synonym u64 = "64 word"
type_synonym bytes = "u8 list"

lemma unat_bounds:
  "unat (a :: u8) < 256" "unat (b :: u16) < 65536" "unat (c :: u32) < 4294967296"
  "unat (d :: u64) < 18446744073709551616"
  using unsigned_less [of a, where 'a = nat] unsigned_less [of b, where 'a = nat]
    unsigned_less [of c, where 'a = nat] unsigned_less [of d, where 'a = nat] by simp_all

text \<open>
  A Rust \<^verbatim>\<open>Result\<close> together with the third outcome a call can have: an index
  or slice out of range, an overflow or an explicit \<^verbatim>\<open>panic!\<close> ends the kernel.
\<close>

datatype ('a, 'e) result = Ok 'a | Err 'e | Panic

fun bind_result :: "('a, 'e) result \<Rightarrow> ('a \<Rightarrow> ('b, 'e) result) \<Rightarrow> ('b, 'e) result" where
  "bind_result (Ok a) f = f a"
| "bind_result (Err e) f = Err e"
| "bind_result Panic f = Panic"

fun map_err :: "('e \<Rightarrow> 'd) \<Rightarrow> ('a, 'e) result \<Rightarrow> ('a, 'd) result" where
  "map_err g (Ok a) = Ok a"
| "map_err g (Err e) = Err (g e)"
| "map_err g Panic = Panic"

fun ok_or :: "'e \<Rightarrow> 'a option \<Rightarrow> ('a, 'e) result" where
  "ok_or e None = Err e"
| "ok_or e (Some a) = Ok a"

lemma bind_result_eq_Ok [simp]:
  "bind_result m f = Ok b \<longleftrightarrow> (\<exists>a. m = Ok a \<and> f a = Ok b)"
  by (cases m) auto

lemma bind_resultE:
  "bind_result m f = Ok b \<Longrightarrow> (\<And>a. m = Ok a \<Longrightarrow> f a = Ok b \<Longrightarrow> P) \<Longrightarrow> P"
  by auto

lemma if_ErrE:
  "(if c then Err e else m) = Ok b \<Longrightarrow> (\<not> c \<Longrightarrow> m = Ok b \<Longrightarrow> P) \<Longrightarrow> P"
  by (auto split: if_splits)

lemma bind_result_assoc: "bind_result (bind_result r f) g = bind_result r (\<lambda>x. bind_result (f x) g)"
  by (cases r) simp_all

lemma bind_result_Ok_id [simp]: "bind_result m Ok = m"
  by (cases m) auto

lemma bind_result_eq_Panic:
  "bind_result m f = Panic \<longleftrightarrow> m = Panic \<or> (\<exists>a. m = Ok a \<and> f a = Panic)"
  by (cases m) auto

lemma map_err_eq_Ok [simp]: "map_err g m = Ok a \<longleftrightarrow> m = Ok a"
  by (cases m) auto

lemma map_err_eq_Panic [simp]: "map_err g m = Panic \<longleftrightarrow> m = Panic"
  by (cases m) auto

lemma ok_or_eq_Ok [simp]: "ok_or e x = Ok a \<longleftrightarrow> x = Some a"
  by (cases x) auto

lemma ok_or_neq_Panic [simp]: "ok_or e x \<noteq> Panic"
  by (cases x) auto

lemma bind_result_cong [fundef_cong]:
  "m = m' \<Longrightarrow> (\<And>a. m' = Ok a \<Longrightarrow> f a = f' a) \<Longrightarrow> bind_result m f = bind_result m' f'"
  by (cases m') auto

text \<open>A loop whose body may fail: the first failure ends it.\<close>

fun foldl_result :: "('s \<Rightarrow> 'x \<Rightarrow> ('s, 'e) result) \<Rightarrow> 's \<Rightarrow> 'x list \<Rightarrow> ('s, 'e) result" where
  "foldl_result f s [] = Ok s"
| "foldl_result f s (x # xs) = bind_result (f s x) (\<lambda>s'. foldl_result f s' xs)"

lemma foldl_result_inv:
  assumes "foldl_result f s xs = Ok s'" and "P s"
    and "\<And>s x s'. P s \<Longrightarrow> x \<in> set xs \<Longrightarrow> f s x = Ok s' \<Longrightarrow> P s'"
  shows "P s'"
  using assms
proof (induction xs arbitrary: s)
  case (Cons x xs)
  from Cons.prems(1) obtain t where t: "f s x = Ok t" "foldl_result f t xs = Ok s'"
    by auto
  have "P t"
    by (rule Cons.prems(3) [OF Cons.prems(2) _ t(1)]) simp
  from t(2) this show ?case
    by (rule Cons.IH) (rule Cons.prems(3); simp)
qed simp

lemma foldl_result_all:
  "foldl_result (\<lambda>_ x. f x) () xs = Ok () \<Longrightarrow> x \<in> set xs \<Longrightarrow> f x = Ok ()"
proof (induction xs)
  case (Cons y ys)
  then show ?case by (cases "f y") auto
qed simp

lemma foldl_result_const: "(\<And>x. x \<in> set xs \<Longrightarrow> f x = Ok ()) \<Longrightarrow> foldl_result (\<lambda>_ x. f x) () xs = Ok ()"
  by (induction xs) auto

lemma foldl_result_no_panic:
  assumes "P s" and "\<And>s x s'. P s \<Longrightarrow> x \<in> set xs \<Longrightarrow> f s x = Ok s' \<Longrightarrow> P s'"
    and "\<And>s x. P s \<Longrightarrow> x \<in> set xs \<Longrightarrow> f s x \<noteq> Panic"
  shows "foldl_result f s xs \<noteq> Panic"
  using assms
proof (induction xs arbitrary: s)
  case (Cons x xs)
  have "foldl_result f t xs \<noteq> Panic" if "f s x = Ok t" for t
    by (rule Cons.IH) (use Cons.prems that in \<open>auto\<close>)
  moreover have "f s x \<noteq> Panic" using Cons.prems by simp
  ultimately show ?case by (auto simp: bind_result_eq_Panic)
qed simp

text \<open>
  A \<^verbatim>\<open>usize\<close> that cannot reach \<open>2 ^ 64\<close> is a natural number; a subtraction
  below zero is an overflow, which panics. Saturating steps of a small counter
  stop at the ends of its range.
\<close>

definition usize_sub :: "nat \<Rightarrow> nat \<Rightarrow> (nat, 'e) result" where
  "usize_sub a b = (if b \<le> a then Ok (a - b) else Panic)"

definition saturating_inc :: "'a::len word \<Rightarrow> 'a word" where
  "saturating_inc r = (if r = - 1 then r else r + 1)"

definition saturating_dec :: "'a::len word \<Rightarrow> 'a word" where
  "saturating_dec r = (if r = 0 then 0 else r - 1)"

definition usize_MAX :: nat where "usize_MAX = 2 ^ 64 - 1"

section \<open>Slices and vectors\<close>

text \<open>\<^verbatim>\<open>slice.get(i)\<close>.\<close>

definition vec_get :: "'a list \<Rightarrow> nat \<Rightarrow> 'a option" where
  "vec_get xs i = (if i < length xs then Some (xs ! i) else None)"

lemma vec_get_Some [simp]: "vec_get xs i = Some x \<longleftrightarrow> i < length xs \<and> xs ! i = x"
  by (auto simp: vec_get_def)

lemma vec_get_None [simp]: "vec_get xs i = None \<longleftrightarrow> length xs \<le> i"
  by (auto simp: vec_get_def)

lemma vec_get_in_set: "vec_get xs i = Some x \<Longrightarrow> x \<in> set xs"
  by auto

text \<open>\<^verbatim>\<open>iter().position(p)\<close>.\<close>

fun position :: "('a \<Rightarrow> bool) \<Rightarrow> 'a list \<Rightarrow> nat option" where
  "position p [] = None"
| "position p (x # xs) = (if p x then Some 0 else map_option Suc (position p xs))"

lemma position_Some:
  "position p xs = Some i \<Longrightarrow> i < length xs \<and> p (xs ! i) \<and> (\<forall>j < i. \<not> p (xs ! j))"
proof (induction xs arbitrary: i)
  case (Cons x xs)
  show ?case
  proof (cases "p x")
    case False
    with Cons.prems obtain k where k: "position p xs = Some k" "i = Suc k"
      by auto
    from Cons.IH [OF k(1)] False k(2) show ?thesis
      by (auto simp: less_Suc_eq_0_disj)
  qed (use Cons.prems in auto)
qed simp

lemma position_None: "position p xs = None \<longleftrightarrow> (\<forall>x \<in> set xs. \<not> p x)"
  by (induction xs) auto

lemma position_less: "position p xs = Some i \<Longrightarrow> i < length xs"
  using position_Some by blast

lemma position_append:
  "position p (xs @ ys) =
     (case position p xs of Some i \<Rightarrow> Some i | None \<Rightarrow> map_option (\<lambda>j. length xs + j) (position p ys))"
  by (induction xs) (cases "position p ys"; auto split: option.splits)+

text \<open>\<^verbatim>\<open>iter().find(p)\<close> is \<^const>\<open>List.find\<close>.\<close>

lemma position_first: "p x \<Longrightarrow> \<forall>y \<in> set ys. \<not> p y \<Longrightarrow> position p (ys @ x # zs) = Some (length ys)"
  by (induction ys) auto

lemma find_split:
  "List.find P xs = Some x \<Longrightarrow> \<exists>ys zs. xs = ys @ x # zs \<and> P x \<and> (\<forall>y \<in> set ys. \<not> P y)"
proof (induction xs)
  case (Cons y ys)
  show ?case
  proof (cases "P y")
    case True
    then show ?thesis using Cons.prems by (intro exI [of _ "[]"] exI [of _ ys]) simp
  next
    case False
    then obtain as bs where "ys = as @ x # bs" "P x" "\<forall>z \<in> set as. \<not> P z" using Cons by auto
    then show ?thesis using False by (intro exI [of _ "y # as"] exI [of _ bs]) simp
  qed
qed simp

lemma find_append: "List.find p (xs @ ys) = (case List.find p xs of None \<Rightarrow> List.find p ys | Some x \<Rightarrow> Some x)"
  by (induction xs) auto

lemma find_Some_in_set: "List.find p xs = Some x \<Longrightarrow> x \<in> set xs \<and> p x"
  by (auto simp: find_Some_iff)

text \<open>
  \<^verbatim>\<open>iter().max_by_key(key)\<close>: the last element with the greatest key.
\<close>

fun max_by_key :: "('a \<Rightarrow> nat) \<Rightarrow> 'a list \<Rightarrow> 'a option" where
  "max_by_key k [] = None"
| "max_by_key k (x # xs) =
     (case max_by_key k xs of None \<Rightarrow> Some x | Some y \<Rightarrow> if k x \<le> k y then Some y else Some x)"

lemma max_by_key_None [simp]: "max_by_key k xs = None \<longleftrightarrow> xs = []"
  by (cases xs) (auto split: option.splits)

lemma max_by_key_Some:
  "max_by_key k xs = Some m \<Longrightarrow> m \<in> set xs \<and> (\<forall>x \<in> set xs. k x \<le> k m)"
proof (induction xs arbitrary: m)
  case (Cons x xs)
  then show ?case
    by (cases "max_by_key k xs") (fastforce split: if_splits)+
qed simp

lemma max_by_key_ex: "xs \<noteq> [] \<Longrightarrow> \<exists>m. max_by_key k xs = Some m"
  by (cases "max_by_key k xs") auto

text \<open>\<^verbatim>\<open>xs[a..b]\<close> where \<open>a \<le> b \<le> length xs\<close> is known.\<close>

definition slice :: "nat \<Rightarrow> nat \<Rightarrow> 'a list \<Rightarrow> 'a list" where
  "slice a b xs = take (b - a) (drop a xs)"

lemma length_slice [simp, slice_simps]: "b \<le> length xs \<Longrightarrow> length (slice a b xs) = b - a"
  by (auto simp: slice_def)

lemma nth_slice [slice_simps]: "i < b - a \<Longrightarrow> b \<le> length xs \<Longrightarrow> slice a b xs ! i = xs ! (a + i)"
  by (auto simp: slice_def)

lemma slice_same [simp]: "slice a a xs = []"
  by (simp add: slice_def)

text \<open>\<^verbatim>\<open>dst[at..at + src.len()].copy_from_slice(src)\<close> where the range is inside \<open>dst\<close>.\<close>

definition splice :: "nat \<Rightarrow> 'a list \<Rightarrow> 'a list \<Rightarrow> 'a list" where
  "splice at src dst = take at dst @ src @ drop (at + length src) dst"

lemma length_splice [simp, slice_simps]:
  "at + length src \<le> length dst \<Longrightarrow> length (splice at src dst) = length dst"
  by (simp add: splice_def)

lemma nth_splice [slice_simps]:
  assumes "at + length src \<le> length dst" and "i < length dst"
  shows "splice at src dst ! i =
    (if at \<le> i \<and> i < at + length src then src ! (i - at) else dst ! i)"
  using assms by (auto simp: splice_def nth_append min_def)

lemma splice_Nil [simp]: "splice at [] dst = dst"
  by (simp add: splice_def)

text \<open>
  \<^verbatim>\<open>&xs[a..b]\<close> and \<^verbatim>\<open>dst[a..b].copy_from_slice(src)\<close> with the panics of a range
  out of bounds and of lengths that differ.
\<close>

definition get_range :: "nat \<Rightarrow> nat \<Rightarrow> 'a list \<Rightarrow> ('a list, 'e) result" where
  "get_range a b xs = (if a \<le> b \<and> b \<le> length xs then Ok (slice a b xs) else Panic)"

definition put_range :: "nat \<Rightarrow> nat \<Rightarrow> 'a list \<Rightarrow> 'a list \<Rightarrow> ('a list, 'e) result" where
  "put_range a b src dst =
     (if a \<le> b \<and> b \<le> length dst \<and> length src = b - a then Ok (splice a src dst) else Panic)"

lemma slice_slice_prefix: "c + 4 \<le> n \<Longrightarrow> slice c (c + 4) (take n xs) = slice c (c + 4) xs"
  by (simp add: slice_def drop_take min_def)

lemma slice_prefix: "n \<le> m \<Longrightarrow> slice c (c + m) xs = ys \<Longrightarrow> slice c (c + n) xs = take n ys"
  by (auto simp: slice_def min_def)

lemma slice_eqI:
  assumes "length xs = length ys" and "c + m \<le> length ys" and "\<And>i. c \<le> i \<Longrightarrow> i < c + m \<Longrightarrow> xs ! i = ys ! i"
  shows "slice c (c + m) xs = slice c (c + m) ys"
  by (rule nth_equalityI) (use assms in \<open>auto simp: slice_simps\<close>)

text \<open>
  \<^verbatim>\<open>div_ceil\<close> and the round-up to a multiple of four, on values that do not
  overflow.
\<close>

definition div_ceil :: "nat \<Rightarrow> nat \<Rightarrow> nat" where
  "div_ceil a b = (if a mod b = 0 then a div b else a div b + 1)"

lemma div_ceil_le_iff:
  assumes "0 < b"
  shows "div_ceil a b \<le> n \<longleftrightarrow> a \<le> n * b"
proof -
  have e: "a = a div b * b + a mod b" by simp
  have m: "a mod b < b" using assms by simp
  show ?thesis
  proof (cases "a mod b = 0")
    case True
    then have "a = a div b * b" by auto
    then show ?thesis
      using assms by (simp add: div_ceil_def True) (metis mult_le_cancel2)
  next
    case False
    have "a div b + 1 \<le> n \<longleftrightarrow> a \<le> n * b"
    proof
      assume "a div b + 1 \<le> n"
      then have "(a div b + 1) * b \<le> n * b" by (rule mult_le_mono1)
      moreover have "a \<le> (a div b + 1) * b"
        using e m by (metis add.commute add_mult_distrib less_imp_le mult_1 nat_add_left_cancel_le)
      ultimately show "a \<le> n * b" by (rule order_trans [rotated])
    next
      assume "a \<le> n * b"
      show "a div b + 1 \<le> n"
      proof (rule ccontr)
        assume "\<not> a div b + 1 \<le> n"
        then have "n * b \<le> a div b * b" by (intro mult_le_mono1) simp
        with \<open>a \<le> n * b\<close> e have "a mod b = 0" by linarith
        with False show False by simp
      qed
    qed
    with False show ?thesis by (simp add: div_ceil_def)
  qed
qed

lemma div_ceil_mult_ge: "0 < b \<Longrightarrow> a \<le> div_ceil a b * b"
  using div_ceil_le_iff [of b a "div_ceil a b"] by simp

end
