(* ===== verification/Rust_Text.thy ===== *)
theory Rust_Text
  imports Prelude
begin

text \<open>
  The operations of Rust's \<^verbatim>\<open>str\<close> that the kernel's text parsers use. A string
  is the list of the bytes of its UTF-8 encoding; \<^verbatim>\<open>char::is_whitespace\<close> is the
  Unicode property, so a white space character is one to three bytes long
  (\<open>ws_len\<close>). None of the byte sequences of \<open>ws_len\<close> occurs inside another UTF-8
  encoded character, so the byte-wise scans below stop at the character
  boundaries Rust's iterators stop at.
\<close>

section \<open>White space\<close>

definition is_ascii_whitespace :: "char \<Rightarrow> bool" where
  "is_ascii_whitespace c \<longleftrightarrow>
     c = CHR 0x09 \<or> c = CHR 0x0A \<or> c = CHR 0x0C \<or> c = CHR 0x0D \<or> c = CHR 0x20"

text \<open>The length of the white space character a string starts with, 0 for none.\<close>

fun ws_len :: "string \<Rightarrow> nat" where
  "ws_len [] = 0"
| "ws_len (c # s) =
     (if is_ascii_whitespace c \<or> c = CHR 0x0B then 1
      else if c = CHR 0xC2 then
        (case s of d # _ \<Rightarrow> if d = CHR 0x85 \<or> d = CHR 0xA0 then 2 else 0 | [] \<Rightarrow> 0)
      else if c = CHR 0xE1 then
        (case s of d # e # _ \<Rightarrow> if d = CHR 0x9A \<and> e = CHR 0x80 then 3 else 0 | _ \<Rightarrow> 0)
      else if c = CHR 0xE2 then
        (case s of
           d # e # _ \<Rightarrow>
             if d = CHR 0x80 \<and>
                 ((0x80 \<le> (of_char e :: nat) \<and> (of_char e :: nat) \<le> 0x8A) \<or>
                  e = CHR 0xA8 \<or> e = CHR 0xA9 \<or> e = CHR 0xAF) then 3
             else if d = CHR 0x81 \<and> e = CHR 0x9F then 3
             else 0
         | _ \<Rightarrow> 0)
      else if c = CHR 0xE3 then
        (case s of d # e # _ \<Rightarrow> if d = CHR 0x80 \<and> e = CHR 0x80 then 3 else 0 | _ \<Rightarrow> 0)
      else 0)"

lemma ws_len_le_length: "ws_len s \<le> length s"
  by (cases s) (auto split: list.splits)

lemma drop_ws_shorter: "0 < ws_len s \<Longrightarrow> length (drop (ws_len s) s) < length s"
  using ws_len_le_length [of s] by simp

declare ws_len.simps(2) [simp del]

text \<open>\<^verbatim>\<open>trim_start\<close>, \<^verbatim>\<open>trim_end\<close>, \<^verbatim>\<open>trim\<close>.\<close>

function trim_start :: "string \<Rightarrow> string" where
  "trim_start s = (if ws_len s = 0 then s else trim_start (drop (ws_len s) s))"
  by pat_completeness auto
termination
  by (relation "measure length") (use drop_ws_shorter in auto)

declare trim_start.simps [simp del]

lemma trim_start_Nil [simp]: "trim_start [] = []"
  by (simp add: trim_start.simps)

lemma length_trim_start: "length (trim_start s) \<le> length s"
proof (induction s rule: trim_start.induct)
  case (1 s)
  then show ?case
    by (subst trim_start.simps) (auto intro: order_trans [OF "1.IH"])
qed

lemma ws_len_trim_start: "ws_len (trim_start s) = 0"
proof (induction s rule: trim_start.induct)
  case (1 s)
  then show ?case by (subst trim_start.simps) auto
qed

fun trim_end :: "string \<Rightarrow> string" where
  "trim_end [] = []"
| "trim_end (c # s) = (if trim_start (c # s) = [] then [] else c # trim_end s)"

definition trim :: "string \<Rightarrow> string" where
  "trim s = trim_end (trim_start s)"

lemma length_trim_end: "length (trim_end s) \<le> length s"
  by (induction s) auto

lemma length_trim: "length (trim s) \<le> length s"
  using length_trim_end [of "trim_start s"] length_trim_start [of s] by (simp add: trim_def)

section \<open>Words\<close>

text \<open>The part before the first white space character, and the rest from it on.\<close>

fun take_word :: "string \<Rightarrow> string" where
  "take_word [] = []"
| "take_word (c # s) = (if ws_len (c # s) = 0 then c # take_word s else [])"

fun drop_word :: "string \<Rightarrow> string" where
  "drop_word [] = []"
| "drop_word (c # s) = (if ws_len (c # s) = 0 then drop_word s else c # s)"

lemma take_drop_word: "take_word s @ drop_word s = s"
  by (induction s) auto

lemma length_drop_word: "length (drop_word s) \<le> length s"
  by (induction s) auto

text \<open>\<^verbatim>\<open>split_whitespace\<close>.\<close>

function split_whitespace :: "string \<Rightarrow> string list" where
  "split_whitespace s =
     (let t = trim_start s in
      if t = [] then [] else take_word t # split_whitespace (drop_word t))"
  by pat_completeness auto
termination
proof (relation "measure length", goal_cases)
  case 1
  then show ?case by simp
next
  case (2 s t)
  then have ne: "t \<noteq> []" and w: "ws_len t = 0" and le: "length t \<le> length s"
    by (simp_all add: ws_len_trim_start length_trim_start)
  from ne w have "length (drop_word t) < length t"
    by (cases t) (auto simp: less_Suc_eq_le length_drop_word)
  with le show ?case by simp
qed

declare split_whitespace.simps [simp del]

text \<open>\<^verbatim>\<open>split_once(char::is_whitespace)\<close>.\<close>

definition split_once_ws :: "string \<Rightarrow> (string \<times> string) option" where
  "split_once_ws s =
     (let r = drop_word s in if r = [] then None else Some (take_word s, drop (ws_len r) r))"

section \<open>Separators, prefixes and suffixes\<close>

text \<open>\<^verbatim>\<open>split(p)\<close> for a predicate on ASCII characters.\<close>

fun split_by :: "(char \<Rightarrow> bool) \<Rightarrow> string \<Rightarrow> string list" where
  "split_by p [] = [[]]"
| "split_by p (c # s) =
     (if p c then [] # split_by p s
      else (case split_by p s of [] \<Rightarrow> [[c]] | w # ws \<Rightarrow> (c # w) # ws))"

abbreviation split_char :: "char \<Rightarrow> string \<Rightarrow> string list" where
  "split_char c \<equiv> split_by (\<lambda>d. d = c)"

lemma split_by_neq_Nil [simp]: "split_by p s \<noteq> []"
  by (cases s) (auto split: list.splits)

lemma split_by_no_sep: "\<forall>c \<in> set s. \<not> p c \<Longrightarrow> split_by p s = [s]"
  by (induction s) auto

lemma split_by_append_sep:
  "p c \<Longrightarrow> split_by p (a @ c # b) = split_by p a @ split_by p b"
  by (induction a) (auto split: list.splits)

text \<open>\<^verbatim>\<open>split_once(c)\<close>.\<close>

fun split_once_char :: "char \<Rightarrow> string \<Rightarrow> (string \<times> string) option" where
  "split_once_char c [] = None"
| "split_once_char c (d # s) =
     (if d = c then Some ([], s) else map_option (\<lambda>(a, b). (d # a, b)) (split_once_char c s))"

definition strip_prefix :: "string \<Rightarrow> string \<Rightarrow> string option" where
  "strip_prefix p s = (if take (length p) s = p then Some (drop (length p) s) else None)"

definition strip_suffix :: "string \<Rightarrow> string \<Rightarrow> string option" where
  "strip_suffix p s =
     (if length p \<le> length s \<and> drop (length s - length p) s = p
      then Some (take (length s - length p) s) else None)"

lemma strip_prefix_Some: "strip_prefix p s = Some r \<longleftrightarrow> s = p @ r"
  by (auto simp: strip_prefix_def) (metis append_take_drop_id)

text \<open>\<^verbatim>\<open>split_once(pat)\<close> for a string pattern.\<close>

fun split_once_str :: "string \<Rightarrow> string \<Rightarrow> (string \<times> string) option" where
  "split_once_str p [] = (if p = [] then Some ([], []) else None)"
| "split_once_str p (d # s) =
     (case strip_prefix p (d # s) of
        Some r \<Rightarrow> Some ([], r)
      | None \<Rightarrow> map_option (\<lambda>(a, b). (d # a, b)) (split_once_str p s))"

text \<open>\<^verbatim>\<open>trim_start_matches(c)\<close> and \<^verbatim>\<open>trim_end_matches(c)\<close>.\<close>

definition trim_start_char :: "char \<Rightarrow> string \<Rightarrow> string" where
  "trim_start_char c s = dropWhile (\<lambda>d. d = c) s"

definition trim_end_char :: "char \<Rightarrow> string \<Rightarrow> string" where
  "trim_end_char c s = rev (dropWhile (\<lambda>d. d = c) (rev s))"

text \<open>\<^verbatim>\<open>starts_with(c)\<close>.\<close>

definition starts_with_char :: "char \<Rightarrow> string \<Rightarrow> bool" where
  "starts_with_char c s = (case s of [] \<Rightarrow> False | d # _ \<Rightarrow> d = c)"

text \<open>
  \<^verbatim>\<open>lines()\<close>: the pieces up to and including each newline, without the newline
  and, before it, one carriage return; nothing for the empty piece at the end.
\<close>

fun split_inclusive_nl :: "string \<Rightarrow> string list" where
  "split_inclusive_nl [] = []"
| "split_inclusive_nl (c # s) =
     (if c = CHR 0x0A then [c] # split_inclusive_nl s
      else (case split_inclusive_nl s of [] \<Rightarrow> [[c]] | w # ws \<Rightarrow> (c # w) # ws))"

definition strip_eol :: "string \<Rightarrow> string" where
  "strip_eol l =
     (case strip_suffix [CHR 0x0A] l of
        None \<Rightarrow> l
      | Some m \<Rightarrow> (case strip_suffix [CHR 0x0D] m of None \<Rightarrow> m | Some k \<Rightarrow> k))"

definition str_lines :: "string \<Rightarrow> string list" where
  "str_lines s = map strip_eol (split_inclusive_nl s)"

text \<open>
  \<^verbatim>\<open>is_char_boundary\<close>: slicing a \<^verbatim>\<open>str\<close> inside a multi-byte character panics.
\<close>

definition is_char_boundary :: "string \<Rightarrow> nat \<Rightarrow> bool" where
  "is_char_boundary s i \<longleftrightarrow>
     i = 0 \<or> i = length s \<or>
     (i < length s \<and> \<not> (0x80 \<le> (of_char (s ! i) :: nat) \<and> (of_char (s ! i) :: nat) < 0xC0))"

definition str_slice :: "nat \<Rightarrow> nat \<Rightarrow> string \<Rightarrow> (string, 'e) result" where
  "str_slice a b s =
     (if a \<le> b \<and> is_char_boundary s a \<and> is_char_boundary s b then Ok (slice a b s) else Panic)"

text \<open>
  \<^verbatim>\<open>core::str::from_utf8\<close> succeeds: every character is one to four bytes in its
  shortest form, no surrogate and none above U+10FFFF.
\<close>

definition utf8_cont :: "char \<Rightarrow> bool" where
  "utf8_cont c \<longleftrightarrow> 0x80 \<le> (of_char c :: nat) \<and> (of_char c :: nat) < 0xC0"

fun utf8_len :: "string \<Rightarrow> nat" where
  "utf8_len [] = 0"
| "utf8_len (c # s) =
     (let n = (of_char c :: nat) in
      if n < 0x80 then 1
      else if 0xC2 \<le> n \<and> n < 0xE0 then (case s of d # _ \<Rightarrow> if utf8_cont d then 2 else 0 | _ \<Rightarrow> 0)
      else if 0xE0 \<le> n \<and> n < 0xF0 then
        (case s of d # e # _ \<Rightarrow>
           let m = (of_char d :: nat) in
           if utf8_cont d \<and> utf8_cont e \<and> (n = 0xE0 \<longrightarrow> 0xA0 \<le> m) \<and> (n = 0xED \<longrightarrow> m < 0xA0) then 3 else 0
         | _ \<Rightarrow> 0)
      else if 0xF0 \<le> n \<and> n < 0xF5 then
        (case s of d # e # f # _ \<Rightarrow>
           let m = (of_char d :: nat) in
           if utf8_cont d \<and> utf8_cont e \<and> utf8_cont f \<and> (n = 0xF0 \<longrightarrow> 0x90 \<le> m) \<and> (n = 0xF4 \<longrightarrow> m < 0x90)
           then 4 else 0
         | _ \<Rightarrow> 0)
      else 0)"

lemma utf8_len_le: "utf8_len s \<le> length s"
  by (cases s) (auto simp: Let_def split: list.splits)

declare utf8_len.simps(2) [simp del]

function is_utf8 :: "string \<Rightarrow> bool" where
  "is_utf8 s =
     (if s = [] then True else if utf8_len s = 0 then False else is_utf8 (drop (utf8_len s) s))"
  by pat_completeness auto
termination
  by (relation "measure length") auto

declare is_utf8.simps [simp del]

section \<open>Numbers in text\<close>

fun show_nat :: "nat \<Rightarrow> string" where
  "show_nat n =
     (if n < 10 then [char_of (48 + n)] else show_nat (n div 10) @ [char_of (48 + n mod 10)])"

declare show_nat.simps [simp del]

text \<open>The value of a hexadecimal digit (\<^verbatim>\<open>char::to_digit(16)\<close>).\<close>

definition hex_digit :: "char \<Rightarrow> nat option" where
  "hex_digit c =
     (let n = of_char c in
      if 48 \<le> n \<and> n \<le> 57 then Some (n - 48)
      else if 97 \<le> n \<and> n \<le> 102 then Some (n - 87)
      else if 65 \<le> n \<and> n \<le> 70 then Some (n - 55)
      else None)"

lemma hex_digit_less: "hex_digit c = Some d \<Longrightarrow> d < 16"
  by (auto simp: hex_digit_def Let_def split: if_splits)

section \<open>Joining words\<close>

text \<open>
  A list of non-empty words joined with a separator splits into the words
  again. Shared by the rights lists and the group lists.
\<close>

definition join_step :: "char \<Rightarrow> string \<Rightarrow> string \<Rightarrow> string" where
  "join_step c out w = (if out = [] then w else out @ c # w)"

lemma split_join_words:
  assumes "p c" and "\<forall>w \<in> set ws. w \<noteq> [] \<and> (\<forall>d \<in> set w. \<not> p d)"
  shows "filter (\<lambda>w. w \<noteq> []) (split_by p (foldl (join_step c) [] ws)) = ws"
  using assms(2)
proof (induction ws rule: rev_induct)
  case (snoc w ws)
  let ?out = "foldl (join_step c) [] ws"
  from snoc have IH: "filter (\<lambda>w. w \<noteq> []) (split_by p ?out) = ws"
    and w: "w \<noteq> []" "split_by p w = [w]"
    by (auto intro: split_by_no_sep)
  show ?case
  proof (cases "?out = []")
    case True
    with IH have "ws = []" by simp
    with w show ?thesis by (simp add: join_step_def)
  next
    case False
    then have "foldl (join_step c) [] (ws @ [w]) = ?out @ c # w"
      by (simp add: join_step_def [of c ?out w])
    then show ?thesis
      using IH w by (simp add: split_by_append_sep [of p c, OF assms(1)])
  qed
qed simp

section \<open>ASCII text\<close>

text \<open>What the pieces of a text are made of, and that pieces of ASCII text are ASCII.\<close>

definition ascii_text :: "string \<Rightarrow> bool" where
  "ascii_text s \<longleftrightarrow> (\<forall>c \<in> set s. (of_char c :: nat) < 128)"

lemma ascii_subset: "ascii_text s \<Longrightarrow> set t \<subseteq> set s \<Longrightarrow> ascii_text t"
  by (auto simp: ascii_text_def)

lemma set_split_by: "w \<in> set (split_by p s) \<Longrightarrow> set w \<subseteq> set s"
  by (induction s arbitrary: w) (fastforce split: if_splits list.splits)+

lemma set_trim_start: "set (trim_start s) \<subseteq> set s"
proof (induction s rule: trim_start.induct)
  case (1 s)
  then show ?case
    by (subst trim_start.simps) (use set_drop_subset [of "ws_len s" s] in auto)
qed

lemma set_trim_end: "set (trim_end s) \<subseteq> set s"
  by (induction s) auto

lemma set_trim: "set (trim s) \<subseteq> set s"
  using set_trim_end set_trim_start by (fastforce simp: trim_def)

lemma set_take_word: "set (take_word s) \<subseteq> set s"
  and set_drop_word: "set (drop_word s) \<subseteq> set s"
  by (induction s) auto

lemma set_split_whitespace: "w \<in> set (split_whitespace s) \<Longrightarrow> set w \<subseteq> set s"
proof (induction s rule: split_whitespace.induct)
  case (1 s)
  let ?t = "trim_start s"
  have "set (take_word ?t) \<subseteq> set s" "set (drop_word ?t) \<subseteq> set s"
    using set_take_word [of ?t] set_drop_word [of ?t] set_trim_start [of s] by auto
  with 1 show ?case
    by (subst (asm) (2) split_whitespace.simps) (auto simp: Let_def split: if_splits)
qed

lemma ascii_split_whitespace: "ascii_text s \<Longrightarrow> w \<in> set (split_whitespace s) \<Longrightarrow> ascii_text w"
  by (rule ascii_subset) (auto dest: set_split_whitespace)

lemma ascii_str_lines:
  assumes "ascii_text t" and "l \<in> set (str_lines t)"
  shows "ascii_text l"
proof -
  have "set w \<subseteq> set t" if "w \<in> set (split_inclusive_nl t)" for w
    using that by (induction t arbitrary: w) (fastforce split: if_splits list.splits)+
  moreover have "set (strip_eol w) \<subseteq> set w" for w
    by (auto simp: strip_eol_def strip_suffix_def split: option.splits if_splits dest!: in_set_takeD)
  ultimately show ?thesis
    using assms by (fastforce simp: str_lines_def intro: ascii_subset)
qed

text \<open>\<^verbatim>\<open>as_bytes\<close>.\<close>

definition bytes_of :: "string \<Rightarrow> bytes" where
  "bytes_of s = map of_char s"

end
