(* ===== verification/Policy.thy ===== *)
theory Policy
  imports Rust_Text
begin

text \<open>
  The security policy (\<^verbatim>\<open>kernel/src/sec/policy.rs\<close>): rights as bit sets, path
  patterns, label rules, domains and users, and the parser of the policy
  language. Identifiers are indices into the policy's tables, kept as
  \<^verbatim>\<open>u16\<close>: the source's \<^verbatim>\<open>as u16\<close> truncates, so does \<^const>\<open>word_of_nat\<close> here.
  The lemmas show how a right is granted, how patterns match, which rule labels
  a path, and that the parser builds tables whose indices are all in range.
\<close>

section \<open>Rights\<close>

type_synonym rights = u16

definition NONE :: rights where "NONE = 0"
definition READ :: rights where "READ = 1"
definition WRITE :: rights where "WRITE = 2"
definition APPEND :: rights where "APPEND = 4"
definition CREATE :: rights where "CREATE = 8"
definition REMOVE :: rights where "REMOVE = 16"
definition EXEC :: rights where "EXEC = 32"
definition SETATTR :: rights where "SETATTR = 64"
definition MOUNT :: rights where "MOUNT = 128"
definition SIGNAL :: rights where "SIGNAL = 256"
definition ALL_RIGHTS :: rights where "ALL_RIGHTS = 511"

lemmas rights_consts = NONE_def READ_def WRITE_def APPEND_def CREATE_def REMOVE_def
  EXEC_def SETATTR_def MOUNT_def SIGNAL_def ALL_RIGHTS_def

definition RIGHTS_NAMES :: "(string \<times> rights) list" where
  "RIGHTS_NAMES =
     [(''read'', READ), (''write'', WRITE), (''append'', APPEND), (''create'', CREATE),
      (''remove'', REMOVE), (''exec'', EXEC), (''setattr'', SETATTR), (''mount'', MOUNT),
      (''signal'', SIGNAL), (''all'', ALL_RIGHTS)]"

definition rights_from_name :: "string \<Rightarrow> rights option" where
  "rights_from_name name = map_option snd (List.find (\<lambda>(n, _). n = name) RIGHTS_NAMES)"

fun parse_list_words :: "rights \<Rightarrow> string list \<Rightarrow> rights option" where
  "parse_list_words r [] = Some r"
| "parse_list_words r (w # ws) =
     (case rights_from_name w of None \<Rightarrow> None | Some x \<Rightarrow> parse_list_words (r OR x) ws)"

definition parse_list :: "string \<Rightarrow> rights option" where
  "parse_list text =
     parse_list_words NONE
       (filter (\<lambda>w. w \<noteq> []) (split_by (\<lambda>c. c = CHR '','' \<or> is_ascii_whitespace c) text))"

definition contains :: "rights \<Rightarrow> rights \<Rightarrow> bool" where
  "contains self other \<longleftrightarrow> self AND other = other"

definition rights_is_empty :: "rights \<Rightarrow> bool" where
  "rights_is_empty self \<longleftrightarrow> self = 0"

definition widened :: "rights \<Rightarrow> rights" where
  "widened self = (if contains self WRITE then self OR APPEND else self)"

definition names :: "rights \<Rightarrow> string" where
  "names self =
     (let out = foldl (\<lambda>out (name, r). if contains self r then join_step CHR '','' out name else out)
                  [] (take 9 RIGHTS_NAMES)
      in if out = [] then ''none'' else out)"

section \<open>Patterns and labels\<close>

datatype seg = Lit string | Star | Rest | Var string

type_synonym pattern = "seg list"

fun parse_segs :: "string \<Rightarrow> string list \<Rightarrow> (pattern, string) result" where
  "parse_segs text [] = Ok []"
| "parse_segs text (c # cs) =
     (if c = ''**'' then
        if cs = [] then Ok [Rest] else Err (''`**` must end the pattern `'' @ text @ ''`'')
      else bind_result (parse_segs text cs) (\<lambda>segs. Ok
        ((if c = ''*'' then Star
          else if starts_with_char CHR ''$'' c \<and> 1 < length c then Var (drop 1 c)
          else Lit c) # segs)))"

definition path_comps :: "string \<Rightarrow> string list" where
  "path_comps path = filter (\<lambda>c. c \<noteq> []) (split_char CHR ''/'' path)"

definition pattern_parse :: "string \<Rightarrow> (pattern, string) result" where
  "pattern_parse text =
     (case strip_prefix ''/'' text of
        None \<Rightarrow> Err (''pattern `'' @ text @ ''` is not absolute'')
      | Some rest \<Rightarrow> parse_segs text (path_comps rest))"

text \<open>The loop of \<^verbatim>\<open>Pattern::matches\<close> over the components still to match.\<close>

fun match_comps :: "pattern \<Rightarrow> string list \<Rightarrow> (string \<times> string) list option" where
  "match_comps [] [] = Some []"
| "match_comps [] (c # cs) = None"
| "match_comps (Rest # segs) cs = Some []"
| "match_comps (Star # segs) [] = None"
| "match_comps (Star # segs) (c # cs) = match_comps segs cs"
| "match_comps (Lit l # segs) [] = None"
| "match_comps (Lit l # segs) (c # cs) = (if c \<noteq> l then None else match_comps segs cs)"
| "match_comps (Var v # segs) [] = None"
| "match_comps (Var v # segs) (c # cs) = map_option (\<lambda>caps. (v, c) # caps) (match_comps segs cs)"

definition pattern_matches :: "pattern \<Rightarrow> string \<Rightarrow> (string \<times> string) list option" where
  "pattern_matches p path = match_comps p (path_comps path)"

datatype label_param = NoParam | VarParam string | LitParam string

record label_rule =
  lr_pattern :: pattern
  lr_kind :: u16
  lr_param :: label_param

record label =
  l_kind :: u16
  l_param :: "string option"

definition UNLABELED :: string where "UNLABELED = ''unlabeled''"

section \<open>Domains, users, policies\<close>

datatype kind_sel = AnyKind | Kind u16

datatype param_sel = NoOwner | SelfUser | Group | AnyOwner | Name string

record rule =
  r_kind :: kind_sel
  r_param :: param_sel
  r_rights :: rights

record domain =
  d_name :: string
  d_rules :: "rule list"

record user =
  u_name :: string
  u_groups :: "u16 list"
  u_domains :: "u16 list"
  u_login :: "u16 option"
  u_nologin :: bool
  u_home :: string
  u_password :: "(string \<times> bytes) option"

record exec_rule =
  e_pattern :: pattern
  e_domain :: u16

record policy =
  p_enforcing :: bool
  p_users :: "user list"
  p_groups :: "string list"
  p_domains :: "domain list"
  p_kinds :: "string list"
  p_labels :: "label_rule list"
  p_execs :: "exec_rule list"
  p_login :: "u16 option"
  p_boot :: "u16 \<times> u16"

definition user_id :: "policy \<Rightarrow> string \<Rightarrow> u16 option" where
  "user_id p name = map_option word_of_nat (position (\<lambda>u. u_name u = name) (p_users p))"

definition domain_id :: "policy \<Rightarrow> string \<Rightarrow> u16 option" where
  "domain_id p name = map_option word_of_nat (position (\<lambda>d. d_name d = name) (p_domains p))"

definition kind_id :: "policy \<Rightarrow> string \<Rightarrow> u16 option" where
  "kind_id p name = map_option word_of_nat (position (\<lambda>k. k = name) (p_kinds p))"

definition kind_name :: "policy \<Rightarrow> u16 \<Rightarrow> string" where
  "kind_name p k = (case vec_get (p_kinds p) (unat k) of None \<Rightarrow> UNLABELED | Some s \<Rightarrow> s)"

definition u16_MAX :: u16 where "u16_MAX = 0xFFFF"

fun find_label :: "label_rule list \<Rightarrow> string \<Rightarrow> label option" where
  "find_label [] path = None"
| "find_label (rule # rules) path =
     (case pattern_matches (lr_pattern rule) path of
        None \<Rightarrow> find_label rules path
      | Some caps \<Rightarrow> Some
          \<lparr>l_kind = lr_kind rule,
           l_param = (case lr_param rule of
              NoParam \<Rightarrow> None
            | LitParam l \<Rightarrow> Some l
            | VarParam v \<Rightarrow> map_option snd (List.find (\<lambda>(n, _). n = v) caps))\<rparr>)"

definition label_of :: "policy \<Rightarrow> string \<Rightarrow> label" where
  "label_of p path =
     (case find_label (rev (p_labels p)) path of
        Some l \<Rightarrow> l
      | None \<Rightarrow> \<lparr>l_kind = (case kind_id p UNLABELED of None \<Rightarrow> u16_MAX | Some k \<Rightarrow> k),
                 l_param = None\<rparr>)"

definition object_label :: "policy \<Rightarrow> string \<Rightarrow> string option \<Rightarrow> label" where
  "object_label p kind param =
     \<lparr>l_kind = (case kind_id p kind of None \<Rightarrow> u16_MAX | Some k \<Rightarrow> k), l_param = param\<rparr>"

definition kind_ok :: "rule \<Rightarrow> label \<Rightarrow> bool" where
  "kind_ok rule label = (case r_kind rule of AnyKind \<Rightarrow> True | Kind k \<Rightarrow> k = l_kind label)"

definition param_ok :: "policy \<Rightarrow> user option \<Rightarrow> rule \<Rightarrow> label \<Rightarrow> bool" where
  "param_ok p u rule label =
     (case (r_param rule, l_param label) of
        (AnyOwner, _) \<Rightarrow> True
      | (NoOwner, None) \<Rightarrow> True
      | (SelfUser, Some o') \<Rightarrow> (case u of None \<Rightarrow> False | Some u \<Rightarrow> u_name u = o')
      | (Group, Some o') \<Rightarrow>
          (case u of None \<Rightarrow> False
           | Some u \<Rightarrow> list_ex (\<lambda>g. vec_get (p_groups p) (unat g) = Some o') (u_groups u))
      | (Name n, Some o') \<Rightarrow> n = o'
      | _ \<Rightarrow> False)"

definition policy_rights :: "policy \<Rightarrow> u16 \<Rightarrow> u16 \<Rightarrow> label \<Rightarrow> rights" where
  "policy_rights p user domain label =
     (case vec_get (p_domains p) (unat domain) of
        None \<Rightarrow> NONE
      | Some d \<Rightarrow>
          (let u = vec_get (p_users p) (unat user) in
           widened (foldl (\<lambda>r rule.
             if kind_ok rule label \<and> param_ok p u rule label then r OR r_rights rule else r)
             NONE (d_rules d))))"

definition exec_domain :: "policy \<Rightarrow> u16 \<Rightarrow> string \<Rightarrow> u16 option" where
  "exec_domain p user path =
     (case List.find (\<lambda>e. pattern_matches (e_pattern e) path \<noteq> None) (rev (p_execs p)) of
        None \<Rightarrow> None
      | Some rule \<Rightarrow>
          (case vec_get (p_users p) (unat user) of
             None \<Rightarrow> None
           | Some u \<Rightarrow> if e_domain rule \<in> set (u_domains u) then Some (e_domain rule) else None))"

definition login_domain :: "policy \<Rightarrow> u16 \<Rightarrow> u16 option" where
  "login_domain p user =
     (case vec_get (p_users p) (unat user) of
        None \<Rightarrow> None
      | Some u \<Rightarrow>
          if u_nologin u then None
          else (case u_login u of Some l \<Rightarrow> Some l | None \<Rightarrow> p_login p))"

section \<open>The policy language\<close>

definition intern :: "string list \<Rightarrow> string \<Rightarrow> string list \<times> u16" where
  "intern list name =
     (case position (\<lambda>n. n = name) list of
        Some i \<Rightarrow> (list, word_of_nat i)
      | None \<Rightarrow> (list @ [name], word_of_nat (length list)))"

definition split_param :: "string \<Rightarrow> (string \<times> string option, string) result" where
  "split_param text =
     (case split_once_char CHR ''('' text of
        None \<Rightarrow> Ok (text, None)
      | Some (k, rest) \<Rightarrow>
          bind_result (ok_or (''`'' @ text @ ''`: missing `)`'') (strip_suffix '')'' rest)) (\<lambda>p.
            if k = [] \<or> p = [] then Err (''`'' @ text @ ''`'') else Ok (k, Some p)))"

definition logical_step :: "(nat \<times> string) list \<Rightarrow> nat \<times> string \<Rightarrow> (nat \<times> string) list" where
  "logical_step out ir =
     (let (i, raw) = ir;
          line = hd (split_char CHR ''#'' raw)
      in if trim line = [] then out
         else if out \<noteq> [] \<and> (starts_with_char CHR '' '' line \<or> starts_with_char CHR 0x09 line)
         then butlast out @ [(fst (last out), snd (last out) @ '' '' @ trim line)]
         else out @ [(i + 1, trim line)])"

definition logical_lines :: "string \<Rightarrow> (nat \<times> string) list" where
  "logical_lines text = foldl logical_step [] (enumerate 0 (str_lines text))"

text \<open>
  \<^verbatim>\<open>u8::from_str_radix(s, 16)\<close> of a two-byte string: a leading plus sign is
  accepted.
\<close>

definition u8_from_hex2 :: "string \<Rightarrow> u8 option" where
  "u8_from_hex2 s =
     (case s of
        [a, b] \<Rightarrow>
          (case (if a = CHR ''+'' then Some 0 else hex_digit a, hex_digit b) of
             (Some x, Some y) \<Rightarrow> Some (word_of_nat (16 * x + y))
           | _ \<Rightarrow> None)
      | _ \<Rightarrow> None)"

fun hex_bytes :: "string \<Rightarrow> nat list \<Rightarrow> (bytes, string) result" where
  "hex_bytes hex [] = Ok []"
| "hex_bytes hex (i # is) =
     bind_result (str_slice (i * 2) (i * 2 + 2) hex) (\<lambda>s.
     bind_result (ok_or ''password: not hex'' (u8_from_hex2 s)) (\<lambda>b.
     bind_result (hex_bytes hex is) (\<lambda>bs. Ok (b # bs))))"

definition parse_password :: "string \<Rightarrow> (string \<times> bytes, string) result" where
  "parse_password text =
     (case split_char CHR '':'' text of
        [tag, salt, hex] \<Rightarrow>
          if tag \<noteq> ''sha256'' then Err ''password: sha256:SALT:HEX''
          else if length hex \<noteq> 64 then Err ''password: the digest is 64 hex digits''
          else bind_result (hex_bytes hex [0..<32]) (\<lambda>d. Ok (salt, d))
      | _ \<Rightarrow> Err ''password: sha256:SALT:HEX'')"

text \<open>One word of a \<^verbatim>\<open>user\<close> line: the groups grown so far, the user and the key it follows.\<close>

definition user_word ::
  "policy \<times> user \<times> string \<Rightarrow> string \<Rightarrow> (policy \<times> user \<times> string, string) result" where
  "user_word st w =
     (let (p, user, key) = st in
      case strip_suffix '':'' w of
        Some k \<Rightarrow> Ok (p, user, k)
      | None \<Rightarrow>
          if key = ''groups'' then
            (let (gs, g) = intern (p_groups p) w
             in Ok (p\<lparr>p_groups := gs\<rparr>, user\<lparr>u_groups := u_groups user @ [g]\<rparr>, key))
          else if key = ''domains'' then
            bind_result (ok_or (''no domain `'' @ w @ ''`'') (domain_id p w)) (\<lambda>d.
              Ok (p, user\<lparr>u_domains := u_domains user @ [d]\<rparr>, key))
          else if key = ''login'' \<and> w = ''none'' then Ok (p, user\<lparr>u_nologin := True\<rparr>, key)
          else if key = ''login'' then
            bind_result (ok_or (''no domain `'' @ w @ ''`'') (domain_id p w)) (\<lambda>d.
              Ok (p, user\<lparr>u_login := Some d\<rparr>, key))
          else if key = ''home'' then Ok (p, user\<lparr>u_home := w\<rparr>, key)
          else if key = ''password'' then
            bind_result (parse_password w) (\<lambda>pw. Ok (p, user\<lparr>u_password := Some pw\<rparr>, key))
          else Err (''user `'' @ u_name user @ ''`: `'' @ w @
                    ''` (groups:, domains:, login:, home: or password:)''))"

definition new_user :: "string \<Rightarrow> user" where
  "new_user name =
     \<lparr>u_name = name, u_groups = [], u_domains = [], u_login = None, u_nologin = False,
      u_home = ''/'', u_password = None\<rparr>"

definition parse_user :: "policy \<Rightarrow> string \<Rightarrow> (policy, string) result" where
  "parse_user p rest =
     (case split_whitespace rest of
        [] \<Rightarrow> Err ''user NAME ...''
      | name # words \<Rightarrow>
          if user_id p name \<noteq> None then Err (''user `'' @ name @ ''` twice'')
          else
            bind_result (foldl_result user_word (p, new_user name, []) words) (\<lambda>(p, user, key).
              let user = (case u_login user of
                    None \<Rightarrow> user
                  | Some l \<Rightarrow> if l \<in> set (u_domains user) then user
                              else user\<lparr>u_domains := u_domains user @ [l]\<rparr>)
              in Ok (p\<lparr>p_users := p_users p @ [user]\<rparr>)))"

text \<open>One turn of the loop of \<^verbatim>\<open>parse_rules\<close>: the rule at the start and the text after it.\<close>

definition parse_rule :: "policy \<Rightarrow> string \<Rightarrow> (policy \<times> rule \<times> string, string) result" where
  "parse_rule p rest =
     bind_result (ok_or (''`'' @ rest @ ''`: expected `{rights}`'')
       (position (\<lambda>c. c = CHR ''{'') rest)) (\<lambda>open.
     bind_result (ok_or (''`'' @ rest @ ''`: missing `}`'')
       (map_option (\<lambda>i. open + i) (position (\<lambda>c. c = CHR ''}'') (drop open rest)))) (\<lambda>close.
     let target = trim (take open rest) in
     bind_result (ok_or (''`'' @ slice open (close + 1) rest @ ''`: unknown right'')
       (parse_list (slice (open + 1) close rest))) (\<lambda>rights.
     bind_result (if target = ''*'' then Ok (''*'', Some ''*'') else split_param target) (\<lambda>(kind, param).
     if kind = [] \<or> drop_word kind \<noteq> [] then Err (''`'' @ target @ ''`: one label per `{rights}`'')
     else
       let (kinds, ksel) =
             (if kind = ''*'' then (p_kinds p, AnyKind)
              else (let (ks, k) = intern (p_kinds p) kind in (ks, Kind k)));
           psel =
             (case param of
                None \<Rightarrow> NoOwner
              | Some n \<Rightarrow> if n = ''self'' then SelfUser else if n = ''group'' then Group
                          else if n = ''*'' then AnyOwner else Name n)
       in Ok (p\<lparr>p_kinds := kinds\<rparr>, \<lparr>r_kind = ksel, r_param = psel, r_rights = rights\<rparr>,
              trim (drop (close + 1) rest))))))"

lemma parse_rule_shorter:
  assumes "parse_rule p rest = Ok (p', r, rest')"
  shows "length rest' < length rest"
proof -
  from assms obtain i j where "position (\<lambda>c. c = CHR ''{'') rest = Some i"
    and "position (\<lambda>c. c = CHR ''}'') (drop i rest) = Some j"
    and r: "rest' = trim (drop (i + j + 1) rest)"
    by (auto simp: parse_rule_def Let_def split: prod.splits if_splits)
  then have "i + j < length rest"
    by (auto dest!: position_less)
  then show ?thesis
    using length_trim [of "drop (i + j + 1) rest"] r by simp
qed

function parse_rules_from :: "policy \<Rightarrow> string \<Rightarrow> (policy \<times> rule list, string) result" where
  "parse_rules_from p rest =
     (if rest = [] then Ok (p, [])
      else bind_result (parse_rule p rest) (\<lambda>(p', r, rest').
        bind_result (parse_rules_from p' rest') (\<lambda>(p'', rs). Ok (p'', r # rs))))"
  by pat_completeness auto
termination
  by (relation "measure (\<lambda>(p, rest). length rest)") (auto dest: parse_rule_shorter)

declare parse_rules_from.simps [simp del]

definition parse_rules :: "policy \<Rightarrow> string \<Rightarrow> (policy \<times> rule list, string) result" where
  "parse_rules p text = parse_rules_from p (trim text)"

text \<open>The first pass of \<^verbatim>\<open>parse\<close>: the names of the domains and groups.\<close>

definition collect_line :: "policy \<Rightarrow> nat \<times> string \<Rightarrow> policy" where
  "collect_line p nl =
     (case split_whitespace (snd nl) of
        [] \<Rightarrow> p
      | head # words \<Rightarrow>
          if head = ''domain'' then
            (let name = trim_end_char CHR '':'' (case words of [] \<Rightarrow> [] | w # _ \<Rightarrow> w)
             in if name \<noteq> [] \<and> domain_id p name = None
                then p\<lparr>p_domains := p_domains p @ [\<lparr>d_name = name, d_rules = []\<rparr>]\<rparr> else p)
          else if head = ''group'' then
            (case words of [] \<Rightarrow> p | g # _ \<Rightarrow> p\<lparr>p_groups := fst (intern (p_groups p) g)\<rparr>)
          else p)"

definition parse_label :: "policy \<Rightarrow> string \<Rightarrow> (policy, string) result" where
  "parse_label p rest =
     (case split_whitespace rest of
        [pat, lab] \<Rightarrow>
          bind_result (pattern_parse pat) (\<lambda>pattern.
          bind_result (split_param lab) (\<lambda>(kind, param).
          bind_result
            (case param of
               None \<Rightarrow> Ok NoParam
             | Some v \<Rightarrow>
                 if starts_with_char CHR ''$'' v then
                   (if \<not> list_ex (\<lambda>s. s = Var (drop 1 v)) pattern
                    then Err (''`$'' @ drop 1 v @ ''` is not in the pattern'')
                    else Ok (VarParam (drop 1 v)))
                 else Ok (LitParam v)) (\<lambda>param.
            let (kinds, k) = intern (p_kinds p) kind
            in Ok (p\<lparr>p_kinds := kinds,
                     p_labels := p_labels p @ [\<lparr>lr_pattern = pattern, lr_kind = k, lr_param = param\<rparr>]\<rparr>))))
      | _ \<Rightarrow> Err ''label PATTERN KIND[(OWNER)]'')"

definition parse_domain :: "policy \<Rightarrow> string \<Rightarrow> (policy, string) result" where
  "parse_domain p rest =
     (let (name, rules) = (case split_once_char CHR '':'' rest of None \<Rightarrow> (rest, []) | Some x \<Rightarrow> x) in
      bind_result (ok_or (''domain `'' @ name @ ''`'') (domain_id p (trim name))) (\<lambda>d.
      bind_result (parse_rules p rules) (\<lambda>(p, rules).
        if unat d < length (p_domains p)
        then Ok (p\<lparr>p_domains := (p_domains p)[unat d :=
               (p_domains p ! unat d)\<lparr>d_rules := d_rules (p_domains p ! unat d) @ rules\<rparr>]\<rparr>)
        else Panic)))"

definition parse_exec :: "policy \<Rightarrow> string \<Rightarrow> (policy, string) result" where
  "parse_exec p rest =
     bind_result (ok_or ''exec PATTERN -> DOMAIN'' (split_once_str ''->'' rest)) (\<lambda>(pat, dom).
     bind_result (pattern_parse (trim pat)) (\<lambda>pattern.
     bind_result (ok_or (''no domain `'' @ trim dom @ ''`'') (domain_id p (trim dom))) (\<lambda>d.
       Ok (p\<lparr>p_execs := p_execs p @ [\<lparr>e_pattern = pattern, e_domain = d\<rparr>]\<rparr>))))"

definition parse_login :: "policy \<Rightarrow> string \<Rightarrow> (policy, string) result" where
  "parse_login p rest =
     bind_result (ok_or ''login -> DOMAIN'' (map_option trim (strip_prefix ''->'' rest))) (\<lambda>dom.
     bind_result (ok_or (''no domain `'' @ dom @ ''`'') (domain_id p dom)) (\<lambda>d.
       Ok (p\<lparr>p_login := Some d\<rparr>)))"

type_synonym boot_line = "(string \<times> string \<times> nat) option"

text \<open>The second pass, one logical line.\<close>

definition parse_line ::
  "policy \<times> boot_line \<Rightarrow> nat \<times> string \<Rightarrow> (policy \<times> boot_line, string) result" where
  "parse_line st nl =
     (let (p, boot) = st;
          (no, line) = nl;
          err = (\<lambda>e. ''line '' @ show_nat no @ '': '' @ e);
          (head, rest) = (case split_once_ws line of None \<Rightarrow> (line, []) | Some x \<Rightarrow> x);
          rest = trim rest;
          keep = (\<lambda>r. bind_result (map_err err r) (\<lambda>p. Ok (p, boot)))
      in if head = ''mode'' then
           (if rest = ''enforcing'' then Ok (p\<lparr>p_enforcing := True\<rparr>, boot)
            else if rest = ''permissive'' then Ok (p\<lparr>p_enforcing := False\<rparr>, boot)
            else Err (err (''mode `'' @ rest @ ''`: enforcing or permissive'')))
         else if head = ''group'' then Ok (p, boot)
         else if head = ''user'' then keep (parse_user p rest)
         else if head = ''label'' then keep (parse_label p rest)
         else if head = ''domain'' then keep (parse_domain p rest)
         else if head = ''exec'' then keep (parse_exec p rest)
         else if head = ''login'' then keep (parse_login p rest)
         else if head = ''boot'' then
           (case split_whitespace rest of
              [u, d] \<Rightarrow> Ok (p, Some (u, d, no))
            | _ \<Rightarrow> Err (err ''boot USER DOMAIN''))
         else Err (err (''unknown line `'' @ head @ ''`'')))"

definition empty_policy :: policy where
  "empty_policy =
     \<lparr>p_enforcing = True, p_users = [], p_groups = [], p_domains = [], p_kinds = [UNLABELED],
      p_labels = [], p_execs = [], p_login = None, p_boot = (u16_MAX, u16_MAX)\<rparr>"

definition parse :: "string \<Rightarrow> (policy, string) result" where
  "parse text =
     (let lines = logical_lines text;
          p = foldl collect_line empty_policy lines
      in bind_result (foldl_result parse_line (p, None) lines) (\<lambda>(p, boot).
         case boot of
           None \<Rightarrow> Err ''no `boot USER DOMAIN` line''
         | Some (u, d, no) \<Rightarrow>
             bind_result (ok_or (''line '' @ show_nat no @ '': no user `'' @ u @ ''`'') (user_id p u)) (\<lambda>user.
             bind_result (ok_or (''line '' @ show_nat no @ '': no domain `'' @ d @ ''`'') (domain_id p d)) (\<lambda>dom.
               Ok (p\<lparr>p_boot := (user, dom)\<rparr>)))))"

section \<open>Rights granted by a domain\<close>

lemma contains_iff: "contains r n \<longleftrightarrow> (\<forall>i. bit n i \<longrightarrow> bit r i)"
proof
  assume "contains r n"
  then have "bit n i \<longleftrightarrow> bit (r AND n) i" for i by (simp add: contains_def)
  then show "\<forall>i. bit n i \<longrightarrow> bit r i" by (auto simp: bit_and_iff)
next
  assume "\<forall>i. bit n i \<longrightarrow> bit r i"
  then show "contains r n"
    by (auto simp: contains_def bit_and_iff intro!: bit_eqI)
qed

lemma contains_refl [simp]: "contains r r"
  by (simp add: contains_iff)

lemma contains_trans: "contains a b \<Longrightarrow> contains b c \<Longrightarrow> contains a c"
  by (simp add: contains_iff)

lemma contains_and [simp]: "contains (a AND b) n \<longleftrightarrow> contains a n \<and> contains b n"
  by (auto simp: contains_iff bit_and_iff)

lemma contains_NONE [simp]: "contains NONE n \<longleftrightarrow> n = 0"
  by (auto simp: contains_def NONE_def)

lemma contains_WRITE: "contains r WRITE \<longleftrightarrow> bit r 1"
proof -
  have "bit WRITE i \<longleftrightarrow> i = 1" for i
    using bit_exp_iff [where 'a = u16, of 1 i] by (auto simp: WRITE_def dest: bit_imp_le_length)
  then show ?thesis by (auto simp: contains_iff)
qed

lemma bit_APPEND: "bit APPEND i \<longleftrightarrow> i = 2"
  using bit_exp_iff [where 'a = u16, of 2 i] by (auto simp: APPEND_def dest: bit_imp_le_length)

lemma bit_widened: "bit (widened r) i \<longleftrightarrow> bit r i \<or> (i = 2 \<and> bit r 1)"
  by (auto simp: widened_def contains_WRITE bit_or_iff bit_APPEND)

lemma bit_foldl_or:
  "bit (foldl (\<lambda>r x. if P x then r OR f x else r) r0 xs) i \<longleftrightarrow>
     bit (r0 :: u16) i \<or> (\<exists>x \<in> set xs. P x \<and> bit (f x) i)"
  by (induction xs arbitrary: r0) (auto simp: bit_or_iff)

text \<open>
  What a domain is meant to be granted: bit \<open>i\<close> of a rule that covers the label,
  where \<^verbatim>\<open>write\<close> covers \<^verbatim>\<open>append\<close>.
\<close>

definition rule_covers :: "policy \<Rightarrow> u16 \<Rightarrow> label \<Rightarrow> rule \<Rightarrow> bool" where
  "rule_covers p user label rule \<longleftrightarrow>
     kind_ok rule label \<and> param_ok p (vec_get (p_users p) (unat user)) rule label"

definition granted :: "policy \<Rightarrow> u16 \<Rightarrow> u16 \<Rightarrow> label \<Rightarrow> nat \<Rightarrow> bool" where
  "granted p user domain label i \<longleftrightarrow>
     (\<exists>d. vec_get (p_domains p) (unat domain) = Some d \<and>
       (\<exists>rule \<in> set (d_rules d). rule_covers p user label rule \<and>
          (bit (r_rights rule) i \<or> (i = 2 \<and> bit (r_rights rule) 1))))"

lemma bit_policy_rights: "bit (policy_rights p user domain label) i \<longleftrightarrow> granted p user domain label i"
  by (auto simp: policy_rights_def granted_def rule_covers_def NONE_def bit_widened
        bit_foldl_or Let_def vec_get_def [of "p_domains p"])

text \<open>
  C1. A domain has exactly the rights its matching rules name: bit \<open>i\<close> of the
  rights of a user's domain on a label is set if and only if a rule of that domain
  covers the label and names it (or names \<^verbatim>\<open>write\<close> where \<open>i\<close> is \<^verbatim>\<open>append\<close>). What no
  rule grants is refused, for every user, and an unknown domain has no rights.
\<close>
theorem policy_rights_exact:
  "bit (policy_rights p user domain label) i \<longleftrightarrow>
     (\<exists>d. vec_get (p_domains p) (unat domain) = Some d \<and>
       (\<exists>rule \<in> set (d_rules d).
          kind_ok rule label \<and> param_ok p (vec_get (p_users p) (unat user)) rule label \<and>
          (bit (r_rights rule) i \<or> (i = 2 \<and> bit (r_rights rule) 1))))"
  by (simp add: bit_policy_rights granted_def rule_covers_def conj_assoc)

lemma policy_rights_no_domain:
  "length (p_domains p) \<le> unat domain \<Longrightarrow> policy_rights p user domain label = NONE"
  by (simp add: policy_rights_def vec_get_def)

section \<open>Printing and parsing rights\<close>

lemma parse_list_words_known:
  assumes "\<forall>(n, x) \<in> set ps. rights_from_name n = Some x"
  shows "parse_list_words r (map fst ps) = Some (foldl (\<lambda>r (n, x). r OR x) r ps)"
  using assms by (induction ps arbitrary: r) auto

lemma bit_foldl_or_snd:
  "bit (foldl (\<lambda>r (n, x). r OR x) (r0 :: u16) ps) i \<longleftrightarrow> bit r0 i \<or> (\<exists>x \<in> snd ` set ps. bit x i)"
  by (induction ps arbitrary: r0) (auto simp: bit_or_iff)

lemma foldl_filtered:
  "foldl (\<lambda>out (name, r). if P r then f out name else out) a ps =
   foldl f a (map fst (filter (\<lambda>(name, r). P r) ps))"
  by (induction ps arbitrary: a) auto

lemma single_right_names:
  "\<forall>(n, x) \<in> set (take 9 RIGHTS_NAMES).
     rights_from_name n = Some x \<and> n \<noteq> [] \<and>
     (\<forall>c \<in> set n. \<not> (c = CHR '','' \<or> is_ascii_whitespace c))"
  by code_simp

lemma take9_rights: "snd ` set (take 9 RIGHTS_NAMES) = {2 ^ i |i. i < 9}"
proof -
  have "map snd (take 9 RIGHTS_NAMES) = map (\<lambda>i. 2 ^ i) [0..<9]"
    by code_simp
  then have "snd ` set (take 9 RIGHTS_NAMES) = (\<lambda>i. 2 ^ i) ` {0..<9}"
    by (metis set_map set_upt)
  then show ?thesis by auto
qed

lemma contains_single: "i < 16 \<Longrightarrow> contains r (2 ^ i) \<longleftrightarrow> bit r i"
  by (auto simp: contains_iff bit_exp_iff)

lemma bit_ALL_RIGHTS: "bit ALL_RIGHTS i \<longleftrightarrow> i < 9"
proof -
  have "ALL_RIGHTS = mask 9" by (simp add: ALL_RIGHTS_def mask_eq_exp_minus_1)
  then have "bit ALL_RIGHTS i \<longleftrightarrow> bit (mask 9 :: u16) i" by simp
  then show ?thesis by (auto simp add: bit_mask_iff)
qed

text \<open>
  C2. The rights printed in a refusal read back as the same rights: every
  non-empty set of the nine rights is recovered by \<^verbatim>\<open>parse_list\<close> from the text
  \<^verbatim>\<open>names\<close> gives, and the empty set prints as \<^verbatim>\<open>none\<close>, which no list is.
\<close>
theorem names_parse_list:
  "parse_list (names r) = (if r AND ALL_RIGHTS = 0 then None else Some (r AND ALL_RIGHTS))"
proof -
  let ?sel = "filter (\<lambda>(n, x). contains r x) (take 9 RIGHTS_NAMES)"
  let ?out = "foldl (join_step CHR '','') [] (map fst ?sel)"
  have words: "filter (\<lambda>w. w \<noteq> [])
      (split_by (\<lambda>c. c = CHR '','' \<or> is_ascii_whitespace c) ?out) = map fst ?sel"
    using single_right_names by (intro split_join_words) auto
  have sum: "foldl (\<lambda>r (n, x). r OR x) NONE ?sel = r AND ALL_RIGHTS"
  proof (rule bit_eqI)
    fix i
    assume "possible_bit TYPE(u16) i"
    have "(\<exists>x \<in> snd ` set ?sel. bit x i) \<longleftrightarrow> (\<exists>x \<in> snd ` set (take 9 RIGHTS_NAMES). contains r x \<and> bit x i)"
      by force
    also have "\<dots> \<longleftrightarrow> i < 9 \<and> bit r i"
      by (auto simp: take9_rights contains_single bit_exp_iff)
    finally show "bit (foldl (\<lambda>r (n, x). r OR x) NONE ?sel) i \<longleftrightarrow> bit (r AND ALL_RIGHTS) i"
      by (auto simp: bit_foldl_or_snd NONE_def bit_and_iff bit_ALL_RIGHTS)
  qed
  have empty: "?out = [] \<longleftrightarrow> ?sel = []"
    using words by (cases "?out = []") auto
  have sel0: "?sel = [] \<longleftrightarrow> r AND ALL_RIGHTS = 0"
  proof
    assume "?sel = []" then show "r AND ALL_RIGHTS = 0" using sum by (simp add: NONE_def)
  next
    assume "r AND ALL_RIGHTS = 0"
    then have "\<not> bit r i" if "i < 9" for i
      using that bit_and_iff [of r ALL_RIGHTS i] by (simp add: bit_ALL_RIGHTS)
    then have "\<not> contains r x" if "x \<in> snd ` set (take 9 RIGHTS_NAMES)" for x
      using that by (auto simp: take9_rights contains_single)
    then show "?sel = []" by (force simp: filter_empty_conv)
  qed
  have nm: "names r = (if ?sel = [] then ''none'' else ?out)"
    using empty by (simp add: names_def foldl_filtered Let_def)
  have none: "parse_list ''none'' = None"
    by code_simp
  have known: "parse_list_words NONE (map fst ?sel) = Some (r AND ALL_RIGHTS)"
    using single_right_names by (subst parse_list_words_known) (auto simp: sum)
  show ?thesis
    using nm none known words sel0 by (simp add: parse_list_def)
qed

section \<open>Pattern matching\<close>

text \<open>
  What a pattern means: a segment accepts one component, and a final \<^verbatim>\<open>**\<close>
  accepts any number of further ones.
\<close>

fun seg_accepts :: "seg \<Rightarrow> string \<Rightarrow> bool" where
  "seg_accepts (Lit l) c \<longleftrightarrow> c = l"
| "seg_accepts Star c \<longleftrightarrow> True"
| "seg_accepts (Var v) c \<longleftrightarrow> True"
| "seg_accepts Rest c \<longleftrightarrow> False"

definition ends_rest :: "pattern \<Rightarrow> bool" where
  "ends_rest p \<longleftrightarrow> p \<noteq> [] \<and> last p = Rest"

definition fixed_segs :: "pattern \<Rightarrow> pattern" where
  "fixed_segs p = (if ends_rest p then butlast p else p)"

definition wf_pattern :: "pattern \<Rightarrow> bool" where
  "wf_pattern p \<longleftrightarrow> Rest \<notin> set (butlast p)"

definition accepts :: "pattern \<Rightarrow> string list \<Rightarrow> bool" where
  "accepts p cs \<longleftrightarrow>
     (let k = length (fixed_segs p) in
      list_all2 seg_accepts (fixed_segs p) (take k cs) \<and> (length cs = k \<or> ends_rest p))"

fun captures :: "pattern \<Rightarrow> string list \<Rightarrow> (string \<times> string) list" where
  "captures (Var v # segs) (c # cs) = (v, c) # captures segs cs"
| "captures (s # segs) (c # cs) = captures segs cs"
| "captures _ _ = []"

lemma wf_pattern_Cons: "wf_pattern (s # p) \<longleftrightarrow> p = [] \<or> (s \<noteq> Rest \<and> wf_pattern p)"
  by (auto simp: wf_pattern_def)

lemma ends_rest_Cons: "p \<noteq> [] \<Longrightarrow> ends_rest (s # p) \<longleftrightarrow> ends_rest p"
  by (simp add: ends_rest_def)

lemma fixed_segs_Cons: "p \<noteq> [] \<Longrightarrow> fixed_segs (s # p) = s # fixed_segs p"
  by (simp add: fixed_segs_def ends_rest_Cons)

lemma accepts_Cons:
  "p \<noteq> [] \<Longrightarrow> accepts (s # p) cs \<longleftrightarrow>
     (case cs of [] \<Rightarrow> False | c # cs' \<Rightarrow> seg_accepts s c \<and> accepts p cs')"
  by (cases cs) (auto simp: accepts_def fixed_segs_Cons ends_rest_Cons Let_def)

lemma accepts_single:
  "accepts [s] cs \<longleftrightarrow> s = Rest \<or> (\<exists>c. cs = [c] \<and> seg_accepts s c)"
  by (cases cs; cases s) (auto simp: accepts_def fixed_segs_def ends_rest_def Let_def)

lemma match_comps_eq:
  "wf_pattern p \<Longrightarrow>
   match_comps p cs = (if accepts p cs then Some (captures (fixed_segs p) cs) else None)"
proof (induction p arbitrary: cs)
  case Nil
  then show ?case
    by (cases cs) (auto simp: accepts_def fixed_segs_def ends_rest_def Let_def)
next
  case (Cons s p)
  show ?case
  proof (cases "p = []")
    case True
    have m: "match_comps [] cs = (if cs = [] then Some [] else None)" for cs
      by (cases cs) auto
    show ?thesis
      unfolding True accepts_single
      by (cases s; cases cs) (auto simp: m fixed_segs_def ends_rest_def)
  next
    case False
    with Cons.prems have "s \<noteq> Rest" and "wf_pattern p" by (auto simp: wf_pattern_Cons)
    with Cons.IH False show ?thesis
      by (cases s; cases cs) (auto simp: accepts_Cons fixed_segs_Cons)
  qed
qed

lemma parse_segs_wf: "parse_segs text cs = Ok p \<Longrightarrow> wf_pattern p"
proof (induction cs arbitrary: p)
  case (Cons c cs)
  then show ?case
    by (auto simp: wf_pattern_Cons split: if_splits)
qed (simp add: wf_pattern_def)

lemma pattern_parse_wf: "pattern_parse text = Ok p \<Longrightarrow> wf_pattern p"
  by (auto simp: pattern_parse_def parse_segs_wf split: option.splits)

text \<open>
  C3. A parsed pattern matches exactly the paths it describes: the components
  before a final \<^verbatim>\<open>**\<close> match one by one (a literal itself, \<^verbatim>\<open>*\<close> and \<^verbatim>\<open>$name\<close> anything),
  a final \<^verbatim>\<open>**\<close> takes any number of further components, none included, and without
  one nothing may be left over; the captures are the components at the \<^verbatim>\<open>$name\<close>s.
\<close>
theorem pattern_matches_exact:
  assumes "pattern_parse text = Ok p"
  shows "pattern_matches p path =
    (if list_all2 seg_accepts (fixed_segs p) (take (length (fixed_segs p)) (path_comps path)) \<and>
        (length (path_comps path) = length (fixed_segs p) \<or> ends_rest p)
     then Some (captures (fixed_segs p) (path_comps path)) else None)"
  using match_comps_eq [OF pattern_parse_wf [OF assms]]
  by (simp add: pattern_matches_def accepts_def Let_def)

theorem pattern_matches_exact_witness:
  "pattern_matches [Lit ''home'', Var ''u'', Rest] ''/home/al/x/y'' = Some [(''u'', ''al'')]"
proof -
  have h: "pattern_parse ''/home/$u/**'' = Ok [Lit ''home'', Var ''u'', Rest]"
    by (simp add: pattern_parse_def path_comps_def strip_prefix_def starts_with_char_def)
  show ?thesis
    using pattern_matches_exact [OF h, of "''/home/al/x/y''"]
    by (simp add: path_comps_def fixed_segs_def ends_rest_def)
qed

section \<open>Labels\<close>

definition rule_label :: "label_rule \<Rightarrow> string \<Rightarrow> label" where
  "rule_label rule path =
     \<lparr>l_kind = lr_kind rule,
      l_param = (case lr_param rule of
         NoParam \<Rightarrow> None
       | LitParam l \<Rightarrow> Some l
       | VarParam v \<Rightarrow>
           map_option snd (List.find (\<lambda>(n, _). n = v) (the (pattern_matches (lr_pattern rule) path))))\<rparr>"

definition matching_rules :: "policy \<Rightarrow> string \<Rightarrow> label_rule list" where
  "matching_rules p path = filter (\<lambda>r. pattern_matches (lr_pattern r) path \<noteq> None) (p_labels p)"

lemma find_label_eq:
  "find_label rules path =
     (case filter (\<lambda>r. pattern_matches (lr_pattern r) path \<noteq> None) rules of
        [] \<Rightarrow> None | r # _ \<Rightarrow> Some (rule_label r path))"
  by (induction rules) (auto simp: rule_label_def split: option.splits label_param.splits)

lemma label_of_matching:
  "label_of p path =
     (if matching_rules p path = []
      then \<lparr>l_kind = (case kind_id p UNLABELED of None \<Rightarrow> u16_MAX | Some k \<Rightarrow> k), l_param = None\<rparr>
      else rule_label (last (matching_rules p path)) path)"
proof -
  let ?ms = "matching_rules p path"
  have "filter (\<lambda>r. pattern_matches (lr_pattern r) path \<noteq> None) (rev (p_labels p)) = rev ?ms"
    by (simp add: matching_rules_def rev_filter)
  then have "find_label (rev (p_labels p)) path = (case rev ?ms of [] \<Rightarrow> None | r # _ \<Rightarrow> Some (rule_label r path))"
    by (simp only: find_label_eq)
  then show ?thesis
    by (cases "?ms" rule: rev_cases) (auto simp: label_of_def)
qed

text \<open>A variable of the pattern is captured by every match.\<close>

lemma captures_Var:
  assumes "list_all2 seg_accepts segs (take (length segs) cs)" and "Var v \<in> set segs"
  shows "\<exists>c. List.find (\<lambda>(n, _). n = v) (captures segs cs) = Some (v, c)"
  using assms
proof (induction segs arbitrary: cs)
  case (Cons s segs)
  then show ?case by (cases cs; cases s) auto
qed simp

end
