(* ===== verification/Policy_Wf.thy ===== *)
theory Policy_Wf
  imports Policy
begin

text \<open>
  What the parser of the policy language guarantees (\<^verbatim>\<open>kernel/src/sec/policy.rs\<close>):
  the policies it accepts are well formed, it does not panic on ASCII text, and
  the tables it builds are no larger than the text allows.
\<close>

section \<open>Well-formed policies\<close>

text \<open>
  Every index a policy holds points into its table, names are unique, the
  first kind is \<^verbatim>\<open>unlabeled\<close>, a label's variable is in its pattern and a user's
  login domain is one the user may enter.
\<close>

definition user_ok :: "nat \<Rightarrow> nat \<Rightarrow> user \<Rightarrow> bool" where
  "user_ok ng nd u \<longleftrightarrow>
     (\<forall>g \<in> set (u_groups u). unat g < ng) \<and>
     (\<forall>d \<in> set (u_domains u). unat d < nd) \<and>
     (\<forall>l. u_login u = Some l \<longrightarrow> unat l < nd)"

definition rule_ok :: "nat \<Rightarrow> rule \<Rightarrow> bool" where
  "rule_ok nk r \<longleftrightarrow> (\<forall>k. r_kind r = Kind k \<longrightarrow> unat k < nk)"

definition label_rule_ok :: "nat \<Rightarrow> label_rule \<Rightarrow> bool" where
  "label_rule_ok nk r \<longleftrightarrow>
     unat (lr_kind r) < nk \<and> wf_pattern (lr_pattern r) \<and>
     (\<forall>v. lr_param r = VarParam v \<longrightarrow> Var v \<in> set (lr_pattern r))"

definition wf_tables :: "policy \<Rightarrow> bool" where
  "wf_tables p \<longleftrightarrow>
     distinct (map u_name (p_users p)) \<and> distinct (p_groups p) \<and>
     distinct (map d_name (p_domains p)) \<and> distinct (p_kinds p) \<and>
     p_kinds p \<noteq> [] \<and> hd (p_kinds p) = UNLABELED"

definition wf_refs :: "policy \<Rightarrow> bool" where
  "wf_refs p \<longleftrightarrow>
     (\<forall>u \<in> set (p_users p). user_ok (length (p_groups p)) (length (p_domains p)) u \<and>
        (\<forall>l. u_login u = Some l \<longrightarrow> l \<in> set (u_domains u))) \<and>
     (\<forall>d \<in> set (p_domains p). \<forall>r \<in> set (d_rules d). rule_ok (length (p_kinds p)) r) \<and>
     (\<forall>r \<in> set (p_labels p). label_rule_ok (length (p_kinds p)) r) \<and>
     (\<forall>e \<in> set (p_execs p). wf_pattern (e_pattern e) \<and> unat (e_domain e) < length (p_domains p)) \<and>
     (\<forall>l. p_login p = Some l \<longrightarrow> unat l < length (p_domains p))"

definition wf_policy :: "policy \<Rightarrow> bool" where
  "wf_policy p \<longleftrightarrow> wf_tables p \<and> wf_refs p"

lemmas wf_defs = wf_policy_def wf_tables_def wf_refs_def

lemma unat_u16_of_nat: "unat (word_of_nat i :: u16) \<le> i"
  by (simp add: unat_of_nat)

lemma domain_id_less: "domain_id p name = Some d \<Longrightarrow> unat d < length (p_domains p)"
  by (auto simp: domain_id_def dest!: position_less intro: le_less_trans [OF unat_u16_of_nat])

lemma user_id_less: "user_id p name = Some u \<Longrightarrow> unat u < length (p_users p)"
  by (auto simp: user_id_def dest!: position_less intro: le_less_trans [OF unat_u16_of_nat])

lemma intern_grows:
  assumes "intern xs name = (ys, k)"
  shows "length xs \<le> length ys" and "unat k < length ys"
    and "distinct xs \<Longrightarrow> distinct ys" and "xs \<noteq> [] \<Longrightarrow> ys \<noteq> [] \<and> hd ys = hd xs"
proof -
  show "length xs \<le> length ys"
    using assms by (auto simp: intern_def split: option.splits)
  show "unat k < length ys"
    using assms
    by (auto simp: intern_def less_Suc_eq_le unat_u16_of_nat split: option.splits
        dest!: position_less intro: le_less_trans [OF unat_u16_of_nat])
  show "distinct xs \<Longrightarrow> distinct ys"
    using assms by (auto simp: intern_def position_None split: option.splits)
  show "xs \<noteq> [] \<Longrightarrow> ys \<noteq> [] \<and> hd ys = hd xs"
    using assms by (auto simp: intern_def split: option.splits)
qed

lemma user_ok_mono: "user_ok ng nd u \<Longrightarrow> ng \<le> ng' \<Longrightarrow> user_ok ng' nd u"
  by (auto simp: user_ok_def intro: less_le_trans)

lemma rule_ok_mono: "rule_ok nk r \<Longrightarrow> nk \<le> nk' \<Longrightarrow> rule_ok nk' r"
  by (auto simp: rule_ok_def intro: less_le_trans)

lemma label_rule_ok_mono: "label_rule_ok nk r \<Longrightarrow> nk \<le> nk' \<Longrightarrow> label_rule_ok nk' r"
  by (auto simp: label_rule_ok_def intro: less_le_trans)

text \<open>Interning a group or a kind keeps a policy well formed.\<close>

lemma wf_intern_group:
  assumes "wf_policy p" and "intern (p_groups p) g = (gs, k)"
  shows "wf_policy (p\<lparr>p_groups := gs\<rparr>)"
  using assms intern_grows [OF assms(2)]
  by (auto simp: wf_defs intro: user_ok_mono)

lemma wf_intern_kind:
  assumes "wf_policy p" and "intern (p_kinds p) n = (ks, k)"
  shows "wf_policy (p\<lparr>p_kinds := ks\<rparr>)"
  using assms intern_grows [OF assms(2)]
  by (auto simp: wf_defs) (blast intro: rule_ok_mono label_rule_ok_mono)+

text \<open>What each kind of line adds keeps a policy well formed.\<close>

lemma wf_add_user:
  "wf_policy p \<Longrightarrow> u_name u \<notin> u_name ` set (p_users p) \<Longrightarrow>
   user_ok (length (p_groups p)) (length (p_domains p)) u \<Longrightarrow>
   \<forall>l. u_login u = Some l \<longrightarrow> l \<in> set (u_domains u) \<Longrightarrow>
   wf_policy (p\<lparr>p_users := p_users p @ [u]\<rparr>)"
  by (simp add: wf_defs)

lemma wf_add_label:
  "wf_policy p \<Longrightarrow> label_rule_ok (length (p_kinds p)) r \<Longrightarrow>
   wf_policy (p\<lparr>p_labels := p_labels p @ [r]\<rparr>)"
  by (simp add: wf_defs)

lemma wf_add_exec:
  "wf_policy p \<Longrightarrow> wf_pattern (e_pattern e) \<Longrightarrow> unat (e_domain e) < length (p_domains p) \<Longrightarrow>
   wf_policy (p\<lparr>p_execs := p_execs p @ [e]\<rparr>)"
  by (simp add: wf_defs)

lemma wf_add_rules:
  assumes "wf_policy p" and "\<forall>r \<in> set rules. rule_ok (length (p_kinds p)) r"
  shows "wf_policy (p\<lparr>p_domains := (p_domains p)[i :=
    (p_domains p ! i)\<lparr>d_rules := d_rules (p_domains p ! i) @ rules\<rparr>]\<rparr>)"
proof (cases "i < length (p_domains p)")
  case True
  let ?d = "(p_domains p ! i)\<lparr>d_rules := d_rules (p_domains p ! i) @ rules\<rparr>"
  have m: "map d_name ((p_domains p)[i := ?d]) = map d_name (p_domains p)"
    using True by (simp add: map_update list_update_same_conv)
  have "\<forall>d \<in> set ((p_domains p)[i := ?d]). \<forall>r \<in> set (d_rules d). rule_ok (length (p_kinds p)) r"
  proof
    fix d assume "d \<in> set ((p_domains p)[i := ?d])"
    then have "d = ?d \<or> d \<in> set (p_domains p)"
      using set_update_subset_insert by fastforce
    moreover have "\<forall>d \<in> set (p_domains p). \<forall>r \<in> set (d_rules d). rule_ok (length (p_kinds p)) r"
      using assms(1) by (simp add: wf_defs)
    moreover from bspec [OF this nth_mem [OF True]]
    have "\<forall>r \<in> set (d_rules (p_domains p ! i)). rule_ok (length (p_kinds p)) r" .
    ultimately show "\<forall>r \<in> set (d_rules d). rule_ok (length (p_kinds p)) r"
      using assms(2) by auto
  qed
  with assms(1) m show ?thesis by (simp add: wf_defs)
next
  case False
  with assms(1) show ?thesis by (simp add: list_update_beyond)
qed

definition user_st_ok :: "string \<Rightarrow> string list \<Rightarrow> policy \<times> user \<times> string \<Rightarrow> bool" where
  "user_st_ok name ns st \<longleftrightarrow>
     (let (p, u, key) = st in
      wf_policy p \<and> map u_name (p_users p) = ns \<and> u_name u = name \<and>
      user_ok (length (p_groups p)) (length (p_domains p)) u)"

text \<open>The ways a word of a \<^verbatim>\<open>user\<close> line can be read.\<close>

lemma user_word_cases:
  assumes "user_word (p, u, key) w = Ok (p', u', key')"
  obtains (keep) "p' = p" "u_name u' = u_name u" "u_groups u' = u_groups u"
      "u_domains u' = u_domains u" "u_login u' = u_login u"
  | (group) g where "intern (p_groups p) w = (p_groups p', g)" "p' = p\<lparr>p_groups := p_groups p'\<rparr>"
      "u' = u\<lparr>u_groups := u_groups u @ [g]\<rparr>"
  | (dom) d where "domain_id p w = Some d" "p' = p" "u' = u\<lparr>u_domains := u_domains u @ [d]\<rparr>"
  | (login) d where "domain_id p w = Some d" "p' = p" "u' = u\<lparr>u_login := Some d\<rparr>"
proof (cases "strip_suffix '':'' w")
  case (Some k)
  with assms keep show thesis by (simp add: user_word_def)
next
  case None
  note w = assms [unfolded user_word_def, simplified None, simplified]
  show thesis
  proof (cases "key = ''groups''")
    case True
    obtain gs g where "intern (p_groups p) w = (gs, g)" by force
    with w True show thesis by (intro group) auto
  next
    case False
    with w show thesis
      by (auto split: if_splits intro: keep dom login)
  qed
qed

lemma user_word_ok:
  assumes "user_st_ok name ns st" and "user_word st w = Ok st'"
  shows "user_st_ok name ns st'"
proof -
  obtain p u key p' u' key' where st: "st = (p, u, key)" "st' = (p', u', key')"
    by (cases st, cases st')
  from assms(1) have wf: "wf_policy p" and ns: "map u_name (p_users p) = ns" "u_name u = name"
    and u: "user_ok (length (p_groups p)) (length (p_domains p)) u"
    by (auto simp: st user_st_ok_def)
  from assms(2) [unfolded st] show ?thesis
  proof (cases rule: user_word_cases)
    case keep
    with wf ns u show ?thesis by (simp add: st user_st_ok_def user_ok_def)
  next
    case (group g)
    note grows = intern_grows [OF group(1)]
    from group wf have "wf_policy p'" by (metis wf_intern_group)
    moreover have "user_ok (length (p_groups p')) (length (p_domains p)) u'"
      using user_ok_mono [OF u grows(1)] grows(2) by (simp add: group(3) user_ok_def)
    moreover have "p_users p' = p_users p" "p_domains p' = p_domains p"
      by (subst group(2), simp)+
    ultimately show ?thesis using ns by (simp add: st user_st_ok_def group(3))
  next
    case (dom d)
    with wf ns u domain_id_less [OF dom(1)] show ?thesis
      by (simp add: st user_st_ok_def user_ok_def)
  next
    case (login d)
    with wf ns u domain_id_less [OF login(1)] show ?thesis
      by (simp add: st user_st_ok_def user_ok_def)
  qed
qed

lemma parse_user_wf:
  assumes "wf_policy p" and "parse_user p rest = Ok p'"
  shows "wf_policy p'"
proof -
  obtain name words where ws: "split_whitespace rest = name # words"
    using assms(2) by (cases "split_whitespace rest") (auto simp: parse_user_def)
  have new: "user_id p name = None"
    using assms(2) by (cases "user_id p name") (simp_all add: parse_user_def ws)
  obtain q u key where run: "foldl_result user_word (p, new_user name, []) words = Ok (q, u, key)"
    using assms(2) by (auto simp add: parse_user_def ws new simp del: not_None_eq)
  define v where "v = (case u_login u of None \<Rightarrow> u
       | Some l \<Rightarrow> if l \<in> set (u_domains u) then u else u\<lparr>u_domains := u_domains u @ [l]\<rparr>)"
  have p': "p' = q\<lparr>p_users := p_users q @ [v]\<rparr>"
    using assms(2) by (simp add: parse_user_def ws new run v_def)
  have "user_st_ok name (map u_name (p_users p)) (p, new_user name, [])"
    using assms(1) by (simp add: user_st_ok_def new_user_def user_ok_def)
  with run have "user_st_ok name (map u_name (p_users p)) (q, u, key)"
    by (rule foldl_result_inv) (rule user_word_ok)
  then have q: "wf_policy q" "map u_name (p_users q) = map u_name (p_users p)" "u_name u = name"
    and u: "user_ok (length (p_groups q)) (length (p_domains q)) u"
    by (auto simp: user_st_ok_def)
  have "name \<notin> set (map u_name (p_users p))"
    using new by (auto simp: user_id_def position_None)
  moreover have "u_name v = u_name u"
    by (simp add: v_def split: option.split)
  ultimately have "u_name v \<notin> u_name ` set (p_users q)"
    by (simp add: q flip: set_map)
  moreover have "user_ok (length (p_groups q)) (length (p_domains q)) v"
    using u by (cases "u_login u") (simp_all add: v_def user_ok_def)
  moreover have "\<forall>l. u_login v = Some l \<longrightarrow> l \<in> set (u_domains v)"
    by (cases "u_login u") (simp_all add: v_def)
  ultimately show ?thesis
    unfolding p' using q(1) by (intro wf_add_user) simp_all
qed

lemma parse_rule_wf:
  assumes "wf_policy p" and "parse_rule p rest = Ok (p', r, rest')"
  shows "wf_policy p' \<and> rule_ok (length (p_kinds p')) r \<and> length (p_kinds p) \<le> length (p_kinds p') \<and>
    p_domains p' = p_domains p"
proof -
  from assms(2) obtain kind where
    "p' = p\<lparr>p_kinds := fst (intern (p_kinds p) kind)\<rparr> \<and> r_kind r = Kind (snd (intern (p_kinds p) kind)) \<or>
     p' = p \<and> r_kind r = AnyKind"
    unfolding parse_rule_def Let_def case_prod_unfold
    by (simp only: bind_result_eq_Ok) (force split: if_splits)
  then show ?thesis
  proof
    assume "p' = p\<lparr>p_kinds := fst (intern (p_kinds p) kind)\<rparr> \<and> r_kind r = Kind (snd (intern (p_kinds p) kind))"
    moreover obtain ks k where i: "intern (p_kinds p) kind = (ks, k)" by force
    ultimately show ?thesis
      using intern_grows [OF i] wf_intern_kind [OF assms(1) i] by (simp add: rule_ok_def)
  qed (use assms(1) in \<open>simp add: rule_ok_def\<close>)
qed

lemma parse_rules_from_wf:
  "wf_policy p \<Longrightarrow> parse_rules_from p rest = Ok (p', rs) \<Longrightarrow>
   wf_policy p' \<and> (\<forall>r \<in> set rs. rule_ok (length (p_kinds p')) r) \<and>
   length (p_kinds p) \<le> length (p_kinds p') \<and> p_domains p' = p_domains p"
proof (induction p rest arbitrary: p' rs rule: parse_rules_from.induct)
  case (1 p rest)
  show ?case
  proof (cases "rest = []")
    case True
    with "1.prems" show ?thesis by (simp add: parse_rules_from.simps)
  next
    case False
    with "1.prems"(2) obtain p1 r rest1 rs1 where
      r: "parse_rule p rest = Ok (p1, r, rest1)"
      and rs: "parse_rules_from p1 rest1 = Ok (p', rs1)" "rs = r # rs1"
      by (subst (asm) parse_rules_from.simps) auto
    from parse_rule_wf [OF "1.prems"(1) r] have p1: "wf_policy p1" "rule_ok (length (p_kinds p1)) r"
      "length (p_kinds p) \<le> length (p_kinds p1)" "p_domains p1 = p_domains p" by auto
    from "1.IH" [OF False r refl refl p1(1) rs(1)] p1 show ?thesis
      by (auto simp: rs(2) intro: rule_ok_mono)
  qed
qed

lemma parse_label_wf:
  assumes "wf_policy p" and "parse_label p rest = Ok p'"
  shows "wf_policy p'"
proof -
  from assms(2) obtain pat lab where ws: "split_whitespace rest = [pat, lab]"
    by (auto simp: parse_label_def split: list.splits)
  from assms(2) obtain pattern kind owner where
    pat: "pattern_parse pat = Ok pattern" and "split_param lab = Ok (kind, owner)"
    by (auto simp: parse_label_def ws)
  moreover obtain ks k where i: "intern (p_kinds p) kind = (ks, k)"
    by force
  ultimately obtain param where v: "\<forall>v. param = VarParam v \<longrightarrow> Var v \<in> set pattern"
    and p': "p' = p\<lparr>p_kinds := ks, p_labels := p_labels p @ [\<lparr>lr_pattern = pattern, lr_kind = k, lr_param = param\<rparr>]\<rparr>"
    using assms(2) by (cases owner) (auto simp: parse_label_def ws list_ex_iff split: if_splits)
  have "wf_policy (p\<lparr>p_kinds := ks\<rparr>)"
    by (rule wf_intern_kind [OF assms(1) i])
  then have "wf_policy (p\<lparr>p_kinds := ks\<rparr>\<lparr>p_labels := p_labels (p\<lparr>p_kinds := ks\<rparr>) @
      [\<lparr>lr_pattern = pattern, lr_kind = k, lr_param = param\<rparr>]\<rparr>)"
    by (rule wf_add_label)
       (use intern_grows(2) [OF i] pattern_parse_wf [OF pat] v in \<open>simp add: label_rule_ok_def\<close>)
  then show ?thesis by (simp add: p')
qed

lemma parse_domain_wf:
  assumes "wf_policy p" and "parse_domain p rest = Ok p'"
  shows "wf_policy p'"
proof -
  from assms(2) obtain rules rs d q where
    q: "parse_rules p rules = Ok (q, rs)"
    and p': "p' = q\<lparr>p_domains := (p_domains q)[unat (d :: u16) :=
        (p_domains q ! unat d)\<lparr>d_rules := d_rules (p_domains q ! unat d) @ rs\<rparr>]\<rparr>"
    by (auto simp: parse_domain_def split: option.splits prod.splits if_splits)
  from parse_rules_from_wf [OF assms(1) q [unfolded parse_rules_def]] show ?thesis
    unfolding p' by (intro wf_add_rules) auto
qed

lemma parse_exec_wf:
  assumes "wf_policy p" and "parse_exec p rest = Ok p'"
  shows "wf_policy p'"
  using assms by (auto simp: parse_exec_def intro!: wf_add_exec dest: pattern_parse_wf domain_id_less)

lemma parse_login_wf:
  assumes "wf_policy p" and "parse_login p rest = Ok p'"
  shows "wf_policy p'"
  using assms by (auto simp: parse_login_def wf_defs dest: domain_id_less)

lemma parse_line_wf:
  assumes "wf_policy (fst st)" and "parse_line st nl = Ok st'"
  shows "wf_policy (fst st')"
proof -
  obtain p boot no line where st: "st = (p, boot)" "nl = (no, line)"
    by (cases st, cases nl)
  have mode: "wf_policy (p\<lparr>p_enforcing := b\<rparr>)" for b
    using assms(1) by (simp add: st wf_defs)
  show ?thesis
    using assms mode unfolding st
    by (auto simp: parse_line_def Let_def split: prod.splits if_splits list.splits
        intro: parse_user_wf parse_label_wf parse_domain_wf parse_exec_wf parse_login_wf)
qed

lemma collect_line_wf: "wf_policy p \<Longrightarrow> wf_policy (collect_line p nl)"
proof -
  assume wf: "wf_policy p"
  have g: "wf_policy (p\<lparr>p_groups := fst (intern (p_groups p) g)\<rparr>)" for g
    by (cases "intern (p_groups p) g") (simp add: wf_intern_group [OF wf])
  have d: "wf_policy (p\<lparr>p_domains := p_domains p @ [\<lparr>d_name = name, d_rules = []\<rparr>]\<rparr>)"
    if "domain_id p name = None" for name
    using wf that by (auto simp: wf_defs domain_id_def position_None user_ok_def less_SucI)
  show ?thesis
    using wf g d by (simp add: collect_line_def Let_def split: list.split)
qed

lemma foldl_collect_wf: "wf_policy p \<Longrightarrow> wf_policy (foldl collect_line p ls)"
  by (induction ls arbitrary: p) (simp_all add: collect_line_wf)

lemma empty_policy_wf: "wf_policy empty_policy"
  by (simp add: wf_defs empty_policy_def)

section \<open>Parsed policies\<close>

lemma parse_Ok_run:
  assumes "parse text = Ok p"
  obtains q u d where "wf_policy q" and "p = q\<lparr>p_boot := (u, d)\<rparr>"
    and "unat u < length (p_users q)" and "unat d < length (p_domains q)"
proof -
  let ?p0 = "foldl collect_line empty_policy (logical_lines text)"
  obtain q boot where run: "foldl_result parse_line (?p0, None) (logical_lines text) = Ok (q, boot)"
    using assms by (auto simp: parse_def Let_def)
  have "wf_policy (fst (?p0, None))"
    by (simp add: foldl_collect_wf empty_policy_wf)
  with run have "wf_policy (fst (q, boot))"
    by (rule foldl_result_inv) (rule parse_line_wf)
  moreover obtain u d where "p = q\<lparr>p_boot := (u, d)\<rparr>" "unat u < length (p_users q)" "unat d < length (p_domains q)"
    using assms by (auto simp: parse_def Let_def run user_id_less domain_id_less split: option.splits)
  ultimately show ?thesis using that by simp
qed

lemma wf_policy_boot [simp]: "wf_policy (p\<lparr>p_boot := b\<rparr>) \<longleftrightarrow> wf_policy p"
  by (simp add: wf_defs)

lemma parse_wf_policy: "parse text = Ok p \<Longrightarrow> wf_policy p"
  by (auto elim!: parse_Ok_run)

text \<open>
  C4. A policy the parser accepts is well formed: names are unique, every
  group, domain and kind index of a user, rule, label and transition is in
  range, a user's login domain is one of its domains, every captured owner is
  in its pattern, and the boot user and domain exist.
\<close>
theorem parse_wf:
  assumes "parse text = Ok p"
  shows "wf_policy p \<and> unat (fst (p_boot p)) < length (p_users p) \<and>
         unat (snd (p_boot p)) < length (p_domains p)"
  using assms by (auto elim!: parse_Ok_run)

definition tiny_policy :: string where
  "tiny_policy = ''mode enforcing'' @ [CHR 0x0A] @ ''boot r a'' @ [CHR 0x0A] @ ''user r domains: a'' @ [CHR 0x0A] @
     ''label /h/$u/** home($u)'' @ [CHR 0x0A] @ ''domain a: home(self) {read}''"

definition tiny_parsed :: policy where
  "tiny_parsed =
     \<lparr>p_enforcing = True,
      p_users = [(new_user ''r'')\<lparr>u_domains := [0]\<rparr>], p_groups = [],
      p_domains = [\<lparr>d_name = ''a'', d_rules = [\<lparr>r_kind = Kind 1, r_param = SelfUser, r_rights = READ\<rparr>]\<rparr>],
      p_kinds = [UNLABELED, ''home''],
      p_labels = [\<lparr>lr_pattern = [Lit ''h'', Var ''u'', Rest], lr_kind = 1, lr_param = VarParam ''u''\<rparr>],
      p_execs = [], p_login = None, p_boot = (0, 0)\<rparr>"

lemma parse_tiny_policy: "parse tiny_policy = Ok tiny_parsed"
  by code_simp

theorem parse_wf_witness:
  "wf_policy tiny_parsed \<and> unat (fst (p_boot tiny_parsed)) < length (p_users tiny_parsed) \<and>
   unat (snd (p_boot tiny_parsed)) < length (p_domains tiny_parsed)"
  by (rule parse_wf [OF parse_tiny_policy])

lemma wf_kind_unlabeled: "wf_policy p \<Longrightarrow> kind_id p UNLABELED = Some 0"
  by (cases "p_kinds p") (auto simp: kind_id_def wf_defs)

lemma matching_last:
  assumes "matching_rules p path \<noteq> []"
  shows "last (matching_rules p path) \<in> set (p_labels p)"
    and "pattern_matches (lr_pattern (last (matching_rules p path))) path \<noteq> None"
  using last_in_set [OF assms] by (auto simp: matching_rules_def)

lemma rule_label_owned:
  assumes "label_rule_ok nk r" and "pattern_matches (lr_pattern r) path \<noteq> None"
  shows "l_param (rule_label r path) = None \<longleftrightarrow> lr_param r = NoParam"
proof (cases "lr_param r")
  case (VarParam v)
  let ?cs = "path_comps path" and ?segs = "fixed_segs (lr_pattern r)"
  from assms have acc: "accepts (lr_pattern r) ?cs"
    and m: "pattern_matches (lr_pattern r) path = Some (captures ?segs ?cs)"
    using match_comps_eq [of "lr_pattern r" ?cs]
    by (auto simp: pattern_matches_def label_rule_ok_def split: if_splits)
  have "Var v \<in> set (lr_pattern r)"
    using assms(1) VarParam by (simp add: label_rule_ok_def)
  then have "Var v \<in> set ?segs"
    by (cases "lr_pattern r" rule: rev_cases) (auto simp: fixed_segs_def ends_rest_def)
  with acc obtain c where "List.find (\<lambda>(n, _). n = v) (captures ?segs ?cs) = Some (v, c)"
    using captures_Var [of ?segs ?cs v] by (auto simp: accepts_def Let_def)
  with m VarParam show ?thesis by (simp add: rule_label_def)
qed (simp_all add: rule_label_def)

text \<open>
  C5. Under an accepted policy the last matching label rule names the label of
  a path, and the label is owned by nobody exactly when no rule matches or
  that rule names no owner: a captured owner is always the path's component.
\<close>
theorem label_of_last_rule:
  assumes "parse text = Ok p"
  shows "label_of p path =
       (if matching_rules p path = [] then \<lparr>l_kind = 0, l_param = None\<rparr>
        else rule_label (last (matching_rules p path)) path) \<and>
     (l_param (label_of p path) = None \<longleftrightarrow>
       matching_rules p path = [] \<or> lr_param (last (matching_rules p path)) = NoParam)"
proof -
  have wf: "wf_policy p" by (rule parse_wf_policy [OF assms])
  have "l_param (rule_label (last (matching_rules p path)) path) = None \<longleftrightarrow>
      lr_param (last (matching_rules p path)) = NoParam" if "matching_rules p path \<noteq> []"
    using wf matching_last [OF that] by (auto simp: wf_defs intro!: rule_label_owned)
  with wf show ?thesis
    by (auto simp: label_of_matching wf_kind_unlabeled)
qed

theorem label_of_last_rule_witness:
  "l_param (label_of tiny_parsed ''/h/al/x'') = Some ''al'' \<and>
   l_param (label_of tiny_parsed ''/etc'') = None"
proof -
  have "matching_rules tiny_parsed ''/h/al/x'' = p_labels tiny_parsed"
    and "matching_rules tiny_parsed ''/etc'' = []"
    by code_simp+
  then show ?thesis
    using label_of_last_rule [OF parse_tiny_policy, of "''/h/al/x''"]
      label_of_last_rule [OF parse_tiny_policy, of "''/etc''"]
    by (simp add: tiny_parsed_def rule_label_def pattern_matches_def path_comps_def strip_prefix_def)
qed

section \<open>Panics of the parser\<close>

lemma hex_bytes_no_panic:
  "ascii_text hex \<Longrightarrow> \<forall>i \<in> set is. i * 2 + 2 \<le> length hex \<Longrightarrow> hex_bytes hex is \<noteq> Panic"
proof (induction "is")
  case (Cons i "is")
  have b: "is_char_boundary hex k" if "k \<le> length hex" for k
    using Cons.prems(1) that nth_mem [of k hex]
    by (fastforce simp: is_char_boundary_def ascii_text_def)
  from Cons.prems(2) have "str_slice (i * 2) (i * 2 + 2) hex \<noteq> (Panic :: (string, string) result)"
    by (simp add: str_slice_def b)
  with Cons show ?case by (simp add: bind_result_eq_Panic)
qed simp

lemma parse_password_no_panic:
  assumes "ascii_text w"
  shows "parse_password w \<noteq> Panic"
proof -
  have "ascii_text hex" if "split_char CHR '':'' w = [tag, salt, hex]" for tag salt hex
    using that by (intro ascii_subset [OF assms] set_split_by [where p = "\<lambda>d. d = CHR '':''"]) simp
  then show ?thesis
    by (auto simp: parse_password_def bind_result_eq_Panic hex_bytes_no_panic split: list.split)
qed

lemma user_word_no_panic: "ascii_text w \<Longrightarrow> user_word st w \<noteq> Panic"
  by (cases st) (auto simp: user_word_def bind_result_eq_Panic parse_password_no_panic
      split: option.split prod.split)

lemma parse_user_no_panic:
  assumes "ascii_text rest"
  shows "parse_user p rest \<noteq> Panic"
proof (cases "split_whitespace rest")
  case (Cons name words)
  have "ascii_text w" if "w \<in> set words" for w
    using ascii_split_whitespace [OF assms] that Cons by auto
  then have "foldl_result user_word (p, new_user name, []) words \<noteq> Panic"
    by (intro foldl_result_no_panic [where P = "\<lambda>_. True"]) (auto simp: user_word_no_panic)
  then show ?thesis by (auto simp: parse_user_def Cons bind_result_eq_Panic Let_def)
qed (simp add: parse_user_def)

lemma pattern_parse_no_panic: "pattern_parse text \<noteq> Panic"
proof -
  have "parse_segs t cs \<noteq> Panic" for t cs
    by (induction cs) (auto simp: bind_result_eq_Panic)
  then show ?thesis by (auto simp: pattern_parse_def split: option.split)
qed

lemma split_param_no_panic: "split_param text \<noteq> Panic"
  by (auto simp: split_param_def bind_result_eq_Panic split: option.split)

lemma parse_label_no_panic: "parse_label p rest \<noteq> Panic"
  by (auto simp: parse_label_def bind_result_eq_Panic pattern_parse_no_panic split_param_no_panic
      split: list.split option.split prod.split)

lemma parse_rules_from_no_panic: "parse_rules_from p rest \<noteq> Panic"
proof (induction p rest rule: parse_rules_from.induct)
  case (1 p rest)
  have "parse_rule p rest \<noteq> Panic"
    by (auto simp: parse_rule_def bind_result_eq_Panic split_param_no_panic Let_def
        split: option.split prod.split)
  with "1.IH" show ?case
    by (subst parse_rules_from.simps) (auto simp: bind_result_eq_Panic)
qed

lemma parse_domain_no_panic:
  assumes "wf_policy p"
  shows "parse_domain p rest \<noteq> Panic"
proof -
  have "unat d < length (p_domains q)"
    if "domain_id p name = Some d" "parse_rules p rules = Ok (q, rs)" for name d rules q rs
    using parse_rules_from_wf [OF assms that(2) [unfolded parse_rules_def]] domain_id_less [OF that(1)]
    by simp
  then show ?thesis
    by (auto simp: parse_domain_def Let_def bind_result_eq_Panic parse_rules_def
        parse_rules_from_no_panic split: prod.split option.split)
qed

lemma parse_exec_no_panic: "parse_exec p rest \<noteq> Panic"
  by (auto simp: parse_exec_def bind_result_eq_Panic pattern_parse_no_panic split: option.split)

lemma parse_login_no_panic: "parse_login p rest \<noteq> Panic"
  by (auto simp: parse_login_def bind_result_eq_Panic split: option.split)

lemmas parse_no_panics = parse_user_no_panic parse_label_no_panic parse_domain_no_panic
  parse_exec_no_panic parse_login_no_panic

lemma parse_line_no_panic:
  assumes "wf_policy (fst st)" and "ascii_text (snd nl)"
  shows "parse_line st nl \<noteq> Panic"
proof -
  obtain p boot no line where st: "st = (p, boot)" "nl = (no, line)"
    by (cases st, cases nl)
  have "ascii_text (trim (snd (case split_once_ws line of None \<Rightarrow> (line, []) | Some x \<Rightarrow> x)))"
    (is "ascii_text (trim ?r)")
  proof (rule ascii_subset)
    show "ascii_text line" using assms(2) st by simp
    have "set ?r \<subseteq> set line"
      using set_drop_word [of line] set_drop_subset [of "ws_len (drop_word line)" "drop_word line"]
      by (auto simp: split_once_ws_def Let_def)
    then show "set (trim ?r) \<subseteq> set line"
      using set_trim by fastforce
  qed
  moreover have "wf_policy p" using assms(1) st by simp
  ultimately show ?thesis
    unfolding st parse_line_def Let_def prod.case
    by (simp add: case_prod_unfold bind_result_eq_Panic map_err_eq_Panic parse_no_panics split: list.split)
qed

lemma ascii_logical_step:
  assumes "\<forall>x \<in> set out. ascii_text (snd x)" and "ascii_text (snd ir)"
  shows "\<forall>x \<in> set (logical_step out ir). ascii_text (snd x)"
proof -
  let ?line = "trim (hd (split_char CHR ''#'' (snd ir)))"
  have "set (hd (split_char CHR ''#'' (snd ir))) \<subseteq> set (snd ir)"
    by (rule set_split_by) (rule list.set_sel, simp)
  then have l: "ascii_text ?line"
    by (intro ascii_subset [OF assms(2)]) (use set_trim in fastforce)
  moreover have "ascii_text (s @ '' '' @ ?line)" if "ascii_text s" for s
    using l that by (auto simp: ascii_text_def)
  moreover have "ascii_text (snd (last out))" if "out \<noteq> []"
    using assms(1) that by simp
  ultimately show ?thesis
    using assms(1) by (cases ir) (auto simp: logical_step_def Let_def dest: in_set_butlastD)
qed

lemma ascii_logical_lines:
  assumes "ascii_text t" and "x \<in> set (logical_lines t)"
  shows "ascii_text (snd x)"
proof -
  have run: "\<forall>x \<in> set (foldl logical_step out irs). ascii_text (snd x)"
    if "\<forall>x \<in> set out. ascii_text (snd x)" "\<forall>ir \<in> set irs. ascii_text (snd ir)" for out irs
    using that
  proof (induction irs arbitrary: out)
    case (Cons ir irs)
    have "\<forall>x \<in> set (logical_step out ir). ascii_text (snd x)"
      by (rule ascii_logical_step) (use Cons.prems in simp_all)
    then have "\<forall>x \<in> set (foldl logical_step (logical_step out ir) irs). ascii_text (snd x)"
      by (rule Cons.IH) (use Cons.prems in simp)
    then show ?case by simp
  qed simp
  have "\<forall>ir \<in> set (enumerate 0 (str_lines t)). ascii_text (snd ir)"
    using ascii_str_lines [OF assms(1)] by (auto simp: in_set_enumerate_eq)
  then show ?thesis
    using run [of "[]"] assms(2) by (simp add: logical_lines_def)
qed

text \<open>
  C6. Parsing a policy written in ASCII never panics: every error is returned
  to \<^verbatim>\<open>sec load\<close> as a message.
\<close>
theorem parse_ascii_no_panic:
  assumes "ascii_text t"
  shows "parse t \<noteq> Panic"
proof -
  let ?p0 = "foldl collect_line empty_policy (logical_lines t)"
  have "foldl_result parse_line (?p0, None) (logical_lines t) \<noteq> Panic"
    by (rule foldl_result_no_panic [where P = "\<lambda>st. wf_policy (fst st)"])
       (auto intro: parse_line_wf simp: foldl_collect_wf empty_policy_wf
          parse_line_no_panic ascii_logical_lines [OF assms])
  then show ?thesis
    by (auto simp: parse_def Let_def bind_result_eq_Panic split: option.split)
qed

theorem parse_ascii_no_panic_witness:
  "ascii_text tiny_policy \<and> parse tiny_policy \<noteq> Panic"
proof -
  have a: "ascii_text tiny_policy" by code_simp
  with parse_ascii_no_panic [OF a] show ?thesis by simp
qed


section \<open>Sizes\<close>

text \<open>
  A policy of \<open>n\<close> bytes has at most \<open>(n + 1) div 2\<close> logical lines, hence as many
  users and domains, and every password digest is 32 bytes long.
\<close>

lemma split_inclusive_nl_nonempty: "w \<in> set (split_inclusive_nl t) \<Longrightarrow> w \<noteq> []"
  by (induction t arbitrary: w) (auto split: if_splits list.splits)

lemma split_inclusive_nl_ends:
  "w \<in> set (butlast (split_inclusive_nl t)) \<Longrightarrow> last w = CHR 0x0A"
proof (induction t arbitrary: w)
  case (Cons c t)
  show ?case
  proof (cases "split_inclusive_nl t")
    case Nil
    with Cons.prems show ?thesis by (auto split: if_splits)
  next
    case (Cons v vs)
    then have "v \<noteq> []" using split_inclusive_nl_nonempty [of v t] by simp
    with Cons Cons.IH Cons.prems show ?thesis
      by (cases vs) (auto split: if_splits)
  qed
qed simp

lemma split_inclusive_nl_length: "sum_list (map length (split_inclusive_nl t)) = length t"
  by (induction t) (auto split: list.splits)

lemma strip_eol_nl: "last w = CHR 0x0A \<Longrightarrow> strip_eol w \<noteq> [] \<Longrightarrow> 2 \<le> length w"
  by (cases w rule: rev_cases; cases "butlast w" rule: rev_cases)
     (auto simp: strip_eol_def strip_suffix_def split: option.splits if_splits)

lemma count_lines:
  assumes "\<forall>w \<in> set (butlast ws). last w = CHR 0x0A"
  shows "2 * length (filter (\<lambda>w. strip_eol w \<noteq> []) ws) \<le> sum_list (map length ws) + 1"
  using assms
proof (induction ws)
  case (Cons w ws)
  show ?case
  proof (cases "ws = []")
    case True
    then show ?thesis
      by (cases w) (auto simp: strip_eol_def strip_suffix_def)
  next
    case False
    with Cons show ?thesis using strip_eol_nl [of w] by auto
  qed
qed simp

lemma length_logical_lines: "2 * length (logical_lines t) \<le> length t + 1"
proof -
  have step: "length (logical_step out ir) \<le> length out + (if snd ir = [] then 0 else 1)" for out ir
    by (cases ir) (auto simp: logical_step_def Let_def trim_def)
  have "length (foldl logical_step out irs) \<le> length out + length (filter (\<lambda>ir. snd ir \<noteq> []) irs)" for out irs
  proof (induction irs arbitrary: out)
    case (Cons ir irs)
    from Cons.IH [of "logical_step out ir"] step [of out ir] show ?case by auto
  qed simp
  from this [of "[]" "enumerate 0 (str_lines t)"]
  have "length (logical_lines t) \<le> length (filter (\<lambda>ir. snd ir \<noteq> []) (enumerate 0 (str_lines t)))"
    by (simp add: logical_lines_def)
  also have "\<dots> = length (filter (\<lambda>l. l \<noteq> []) (map snd (enumerate 0 (str_lines t))))"
    by (simp only: filter_map o_def length_map)
  also have "\<dots> = length (filter (\<lambda>w. strip_eol w \<noteq> []) (split_inclusive_nl t))"
    by (simp add: str_lines_def filter_map o_def)
  finally show ?thesis
    using count_lines [of "split_inclusive_nl t"] split_inclusive_nl_ends [of _ t]
    by (simp add: split_inclusive_nl_length)
qed

lemma hex_bytes_length: "hex_bytes hex is = Ok bs \<Longrightarrow> length bs = length is"
  by (induction "is" arbitrary: bs) auto

definition pw_ok :: "user \<Rightarrow> bool" where
  "pw_ok u \<longleftrightarrow> (\<forall>salt d. u_password u = Some (salt, d) \<longrightarrow> length d = 32)"

definition sizes_ok :: "policy \<Rightarrow> nat \<Rightarrow> nat \<Rightarrow> bool" where
  "sizes_ok p nu nd \<longleftrightarrow> length (p_users p) \<le> nu \<and> length (p_domains p) = nd \<and> (\<forall>u \<in> set (p_users p). pw_ok u)"

lemma parse_password_length: "parse_password w = Ok (salt, d) \<Longrightarrow> length d = 32"
  by (auto simp: parse_password_def dest!: hex_bytes_length split: list.splits if_splits)

lemma user_word_sizes:
  assumes "user_word (p, u, key) w = Ok (p', u', key')"
  shows "p_users p' = p_users p \<and> p_domains p' = p_domains p \<and> (pw_ok u \<longrightarrow> pw_ok u')"
proof -
  have "p_users p' = p_users p \<and> p_domains p' = p_domains p"
    by (rule user_word_cases [OF assms]) (metis policy.select_convs(2,4) policy.surjective policy.update_convs(3))+
  moreover have "u_password u' = u_password u \<or> (\<exists>pw. parse_password w = Ok pw \<and> u_password u' = Some pw)"
  proof (cases "strip_suffix '':'' w")
    case None
    note w = assms [unfolded user_word_def, simplified None, simplified]
    obtain gs g where i: "intern (p_groups p) w = (gs, g)" by force
    show ?thesis
      using w by (auto simp: i split: if_splits)
  qed (use assms in \<open>simp add: user_word_def\<close>)
  then have "pw_ok u \<longrightarrow> pw_ok u'"
    by (auto simp: pw_ok_def dest: parse_password_length)
  ultimately show ?thesis by blast
qed

lemma parse_user_sizes:
  assumes "parse_user p rest = Ok p'" and "sizes_ok p nu nd"
  shows "sizes_ok p' (Suc nu) nd"
proof -
  obtain name words where ws: "split_whitespace rest = name # words"
    using assms(1) by (cases "split_whitespace rest") (auto simp: parse_user_def)
  have new: "user_id p name = None"
    using assms(1) by (cases "user_id p name") (simp_all add: parse_user_def ws)
  obtain q u key where run: "foldl_result user_word (p, new_user name, []) words = Ok (q, u, key)"
    using assms(1) by (auto simp add: parse_user_def ws new simp del: not_None_eq)
  let ?P = "\<lambda>(q, u, _). p_users q = p_users p \<and> p_domains q = p_domains p \<and> pw_ok u"
  have "?P (q, u, key)"
  proof (rule foldl_result_inv [where P = ?P, OF run])
    show "?P (p, new_user name, [])" by (simp add: new_user_def pw_ok_def)
  next
    fix s w s' assume "?P s" "w \<in> set words" "user_word s w = Ok s'"
    then show "?P s'"
      by (cases s; cases s') (auto dest: user_word_sizes)
  qed
  then have q: "p_users q = p_users p" "p_domains q = p_domains p" "pw_ok u" by auto
  obtain v where "p' = q\<lparr>p_users := p_users q @ [v]\<rparr>" "u_password v = u_password u"
    using assms(1) by (cases "u_login u") (auto simp: parse_user_def ws new run)
  with q assms(2) show ?thesis by (auto simp: sizes_ok_def pw_ok_def)
qed

lemma parse_rules_from_sizes:
  "parse_rules_from p rest = Ok (p', rs) \<Longrightarrow> p_users p' = p_users p \<and> p_domains p' = p_domains p"
proof (induction p rest arbitrary: p' rs rule: parse_rules_from.induct)
  case (1 p rest)
  show ?case
  proof (cases "rest = []")
    case True
    with "1.prems" show ?thesis by (simp add: parse_rules_from.simps)
  next
    case False
    with "1.prems" obtain p1 r rest1 rs1 where
      r: "parse_rule p rest = Ok (p1, r, rest1)" and rs: "parse_rules_from p1 rest1 = Ok (p', rs1)"
      by (subst (asm) parse_rules_from.simps) auto
    have "p_users p1 = p_users p \<and> p_domains p1 = p_domains p"
      using r unfolding parse_rule_def Let_def case_prod_unfold
      by (simp only: bind_result_eq_Ok) (force split: if_splits)
    with "1.IH" [OF False r refl refl rs] show ?thesis by simp
  qed
qed

lemma parse_line_sizes:
  assumes "parse_line st nl = Ok st'" and "sizes_ok (fst st) nu nd"
  shows "sizes_ok (fst st') (Suc nu) nd"
proof -
  obtain p boot no line where st: "st = (p, boot)" "nl = (no, line)"
    by (cases st, cases nl)
  have p: "sizes_ok p nu nd" using assms(2) st by simp
  have same: "sizes_ok q (Suc nu) nd" if "p_users q = p_users p" "length (p_domains q) = length (p_domains p)" for q
    using p that by (simp add: sizes_ok_def)
  have "sizes_ok q (Suc nu) nd" if "parse_label p r = Ok q" for q r
    using that by (intro same)
      (auto simp: parse_label_def Let_def case_prod_unfold split: list.splits option.splits if_splits)
  moreover have "sizes_ok q (Suc nu) nd" if "parse_domain p r = Ok q" for q r
    using that by (intro same)
      (auto simp: parse_domain_def parse_rules_def split: option.splits prod.splits if_splits
        dest!: parse_rules_from_sizes)
  moreover have "sizes_ok q (Suc nu) nd" if "parse_exec p r = Ok q" for q r
    using that by (intro same) (auto simp: parse_exec_def)
  moreover have "sizes_ok q (Suc nu) nd" if "parse_login p r = Ok q" for q r
    using that by (intro same) (auto simp: parse_login_def)
  moreover have "sizes_ok q (Suc nu) nd" if "parse_user p r = Ok q" for q r
    by (rule parse_user_sizes [OF that p])
  moreover have "sizes_ok (p\<lparr>p_enforcing := b\<rparr>) (Suc nu) nd" "sizes_ok p (Suc nu) nd" for b
    by (intro same; simp)+
  ultimately show ?thesis
    using assms(1) unfolding st
    by (auto simp: parse_line_def Let_def split: prod.splits if_splits list.splits)
qed

lemma parse_sizes:
  assumes "parse t = Ok p"
  shows "2 * length (p_users p) \<le> length t + 1" and "2 * length (p_domains p) \<le> length t + 1"
    and "\<forall>u \<in> set (p_users p). pw_ok u"
proof -
  let ?ls = "logical_lines t"
  let ?p0 = "foldl collect_line empty_policy ?ls"
  have c: "p_users (foldl collect_line q ls) = p_users q \<and>
      length (p_domains (foldl collect_line q ls)) \<le> length (p_domains q) + length ls" for q ls
  proof (induction ls arbitrary: q)
    case (Cons l ls)
    have "p_users (collect_line q l) = p_users q \<and> length (p_domains (collect_line q l)) \<le> Suc (length (p_domains q))"
      by (simp add: collect_line_def Let_def split: list.split)
    with Cons.IH [of "collect_line q l"] show ?case by auto
  qed simp
  obtain q boot where run: "foldl_result parse_line (?p0, None) ?ls = Ok (q, boot)"
    using assms by (auto simp: parse_def Let_def)
  have grow: "sizes_ok (fst s') (nu + length ls) nd"
    if "foldl_result parse_line s ls = Ok s'" "sizes_ok (fst s) nu nd" for s s' ls nu nd
    using that
  proof (induction ls arbitrary: s nu)
    case (Cons l ls)
    then obtain s1 where s1: "parse_line s l = Ok s1" "foldl_result parse_line s1 ls = Ok s'" by auto
    from Cons.IH [OF s1(2) parse_line_sizes [OF s1(1) Cons.prems(2)]] show ?case by simp
  qed simp
  have "sizes_ok (fst (?p0, None :: boot_line)) 0 (length (p_domains ?p0))"
    using c [of empty_policy ?ls] by (simp add: sizes_ok_def empty_policy_def)
  from grow [OF run this] have s: "sizes_ok q (length ?ls) (length (p_domains ?p0))" by simp
  obtain b where "p = q\<lparr>p_boot := b\<rparr>"
    using assms by (auto simp: parse_def Let_def run split: option.splits)
  with s c [of empty_policy ?ls] length_logical_lines [of t]
  show "2 * length (p_users p) \<le> length t + 1" "2 * length (p_domains p) \<le> length t + 1"
    "\<forall>u \<in> set (p_users p). pw_ok u"
    by (auto simp: sizes_ok_def empty_policy_def)
qed

end
