(* ===== verification/Paths.thy ===== *)
theory Paths
  imports Rust_Text
begin

text \<open>
  Paths of the VFS (\<^verbatim>\<open>kernel/src/fs/vfs.rs\<close>): joining a path with the current
  directory and making it canonical in fixed buffers, and the bind mounts that
  rewrite a path to where its file is stored. The lemmas show that the buffer
  arithmetic computes the stack of components it stands for, that canonical paths
  are fixed points, and that a bound name and its source are one file.
\<close>

section \<open>Canonical paths\<close>

definition PATH_MAX :: nat where "PATH_MAX = 256"

definition normalize_path :: "string \<Rightarrow> string" where
  "normalize_path path = trim_start_char CHR ''/'' path"

text \<open>
  The scratch buffer of \<^verbatim>\<open>canonicalize_absolute\<close>: the bytes of the components
  kept so far, and where each starts and how long it is.
\<close>

record canon_buf =
  cb_scratch :: string
  cb_sn :: nat
  cb_starts :: "nat list"
  cb_lens :: "nat list"
  cb_depth :: nat

definition canon_empty :: canon_buf where
  "canon_empty =
     \<lparr>cb_scratch = replicate PATH_MAX (CHR 0x00), cb_sn = 0, cb_starts = replicate 64 0,
      cb_lens = replicate 64 0, cb_depth = 0\<rparr>"

text \<open>One component of the loop.\<close>

definition canon_comp :: "canon_buf \<Rightarrow> string \<Rightarrow> canon_buf option" where
  "canon_comp s part =
     (if part = [] \<or> part = ''.'' then Some s
      else if part = ''..'' then
        (if 0 < cb_depth s
         then Some (s\<lparr>cb_depth := cb_depth s - 1, cb_sn := cb_starts s ! (cb_depth s - 1)\<rparr>)
         else Some s)
      else if length (cb_starts s) \<le> cb_depth s then None
      else if length (cb_scratch s) < cb_sn s + length part then None
      else Some (s\<lparr>cb_starts := (cb_starts s)[cb_depth s := cb_sn s],
                   cb_lens := (cb_lens s)[cb_depth s := length part],
                   cb_scratch := splice (cb_sn s) part (cb_scratch s),
                   cb_sn := cb_sn s + length part,
                   cb_depth := cb_depth s + 1\<rparr>))"

fun canon_loop :: "canon_buf \<Rightarrow> string list \<Rightarrow> canon_buf option" where
  "canon_loop s [] = Some s"
| "canon_loop s (c # cs) = (case canon_comp s c of None \<Rightarrow> None | Some s' \<Rightarrow> canon_loop s' cs)"

text \<open>The result: what is written to \<open>out\<close>, a buffer of \<open>room\<close> bytes.\<close>

definition canonicalize_absolute :: "string \<Rightarrow> nat \<Rightarrow> string option" where
  "canonicalize_absolute path room =
     (case canon_loop canon_empty (split_char CHR ''/'' path) of
        None \<Rightarrow> None
      | Some s \<Rightarrow>
          if cb_depth s = 0 then (if room = 0 then None else Some ''/'')
          else if room < sum_list (map (\<lambda>i. 1 + cb_lens s ! i) [0 ..< cb_depth s]) then None
          else Some (concat (map (\<lambda>i. CHR ''/'' #
                 slice (cb_starts s ! i) (cb_starts s ! i + cb_lens s ! i) (cb_scratch s)) [0 ..< cb_depth s])))"

text \<open>\<^verbatim>\<open>push_str\<close> into the candidate buffer.\<close>

definition push_str :: "string option \<Rightarrow> string \<Rightarrow> string option" where
  "push_str raw s =
     (case raw of None \<Rightarrow> None
      | Some r \<Rightarrow> if length r + length s \<le> PATH_MAX then Some (r @ s) else None)"

definition resolve_against_cwd :: "string \<Rightarrow> string \<Rightarrow> nat \<Rightarrow> string option" where
  "resolve_against_cwd cwd path room =
     (if room = 0 then None
      else let cwd = (if cwd = [] then ''/'' else cwd) in
        if \<not> starts_with_char CHR ''/'' cwd then None
        else
          let raw = (if path = [] \<or> path = ''.'' then push_str (Some []) cwd
                     else if starts_with_char CHR ''/'' path then push_str (Some []) path
                     else if cwd = ''/'' then push_str (push_str (Some []) ''/'') path
                     else push_str (push_str (push_str (Some []) cwd) ''/'') path)
          in case raw of None \<Rightarrow> None | Some raw \<Rightarrow> canonicalize_absolute raw room)"

section \<open>Bind mounts\<close>

type_synonym binds = "(string \<times> string) list"

definition MAX_BIND_HOPS :: nat where "MAX_BIND_HOPS = 8"

definition bind_applies :: "string \<Rightarrow> string \<times> string \<Rightarrow> bool" where
  "bind_applies path b =
     (path = fst b \<or> (take (length (fst b)) path = fst b \<and> path ! length (fst b) = CHR ''/''))"

definition bind_rewrite :: "string \<Rightarrow> string \<times> string \<Rightarrow> string" where
  "bind_rewrite path b =
     (let rest = drop (length (fst b)) path;
          joined = (if snd b = [] then trim_start_char CHR ''/'' rest else rest)
      in snd b @ joined)"

definition longest_bind :: "binds \<Rightarrow> string \<Rightarrow> (string \<times> string) option" where
  "longest_bind bs path = max_by_key (\<lambda>b. length (fst b)) (filter (bind_applies path) bs)"

fun unbind_hops :: "nat \<Rightarrow> binds \<Rightarrow> string \<Rightarrow> string option" where
  "unbind_hops 0 bs path = None"
| "unbind_hops (Suc n) bs path =
     (case longest_bind bs path of
        None \<Rightarrow> Some path
      | Some b \<Rightarrow> unbind_hops n bs (bind_rewrite path b))"

definition unbind :: "binds \<Rightarrow> string \<Rightarrow> string option" where
  "unbind bs path = unbind_hops MAX_BIND_HOPS bs path"

definition canonical :: "binds \<Rightarrow> string \<Rightarrow> string option" where
  "canonical bs path = map_option (\<lambda>p. CHR ''/'' # p) (unbind bs (normalize_path path))"

definition bound_names :: "binds \<Rightarrow> string \<Rightarrow> string list" where
  "bound_names bs real =
     (let real = normalize_path real in
      List.map_filter (\<lambda>(target, source).
        let rest =
              (if source = [] then Some real
               else case strip_prefix source real of
                      None \<Rightarrow> None
                    | Some rest \<Rightarrow>
                        if rest \<noteq> [] \<and> \<not> starts_with_char CHR ''/'' rest then None
                        else Some (trim_start_char CHR ''/'' rest))
        in map_option (\<lambda>rest. if rest = [] then CHR ''/'' # target
                              else CHR ''/'' # target @ CHR ''/'' # rest) rest) bs)"

text \<open>\<^verbatim>\<open>bind\<close>; \<open>exists\<close> is whether \<^verbatim>\<open>stat\<close> finds the source.\<close>

definition vfs_bind :: "(string \<Rightarrow> bool) \<Rightarrow> binds \<Rightarrow> string \<Rightarrow> string \<Rightarrow> binds \<times> bool" where
  "vfs_bind exists bs source target =
     (let source = normalize_path source; target = normalize_path target in
      if target = [] \<or> \<not> exists source then (bs, False)
      else (filter (\<lambda>(t, _). t \<noteq> target) bs @ [(target, source)], True))"

definition remove_bind :: "binds \<Rightarrow> string \<Rightarrow> binds \<times> bool" where
  "remove_bind bs target =
     (let target = normalize_path target;
          bs' = filter (\<lambda>(t, _). t \<noteq> target) bs
      in (bs', length bs' \<noteq> length bs))"

section \<open>The components a path stands for\<close>

definition canon_step :: "string list \<Rightarrow> string \<Rightarrow> string list" where
  "canon_step st part =
     (if part = [] \<or> part = ''.'' then st else if part = ''..'' then butlast st else st @ [part])"

definition components :: "string \<Rightarrow> string list" where
  "components path = foldl canon_step [] (split_char CHR ''/'' path)"

definition render :: "string list \<Rightarrow> string" where
  "render cs = (if cs = [] then ''/'' else concat (map (\<lambda>c. CHR ''/'' # c) cs))"

text \<open>The buffer holds a stack of components.\<close>

definition total :: "string list \<Rightarrow> nat" where
  "total cs = sum_list (map length cs)"

lemma total_simps [simp]: "total [] = 0" "total (c # cs) = length c + total cs" "total (a @ b) = total a + total b"
  by (simp_all add: total_def)

definition holds :: "canon_buf \<Rightarrow> string list \<Rightarrow> bool" where
  "holds s cs \<longleftrightarrow>
     length (cb_scratch s) = PATH_MAX \<and> length (cb_starts s) = 64 \<and> length (cb_lens s) = 64 \<and>
     cb_depth s = length cs \<and> cb_sn s = total cs \<and> length cs \<le> 64 \<and> total cs \<le> PATH_MAX \<and>
     take (total cs) (cb_scratch s) = concat cs \<and>
     (\<forall>i < length cs. cb_starts s ! i = total (take i cs) \<and> cb_lens s ! i = length (cs ! i))"

lemma holds_empty: "holds canon_empty []"
  by (simp add: holds_def canon_empty_def)

lemma length_concat_total: "length (concat cs) = total cs"
  by (simp add: total_def length_concat)

lemma holds_push:
  assumes h: "holds s cs" and "cb_depth s < 64" and "cb_sn s + length c \<le> PATH_MAX"
  shows "holds (s\<lparr>cb_starts := (cb_starts s)[cb_depth s := cb_sn s],
      cb_lens := (cb_lens s)[cb_depth s := length c], cb_scratch := splice (cb_sn s) c (cb_scratch s),
      cb_sn := cb_sn s + length c, cb_depth := cb_depth s + 1\<rparr>) (cs @ [c])"
  using assms
  by (auto simp: holds_def splice_def nth_list_update nth_append less_Suc_eq length_concat_total)

lemma holds_pop:
  assumes "holds s (cs @ [c])"
  shows "holds (s\<lparr>cb_depth := cb_depth s - 1, cb_sn := cb_starts s ! (cb_depth s - 1)\<rparr>) cs"
proof -
  have "take (total cs) (cb_scratch s) = take (total cs) (take (total (cs @ [c])) (cb_scratch s))"
    by simp
  also have "\<dots> = take (total cs) (concat cs @ c)"
    using assms by (simp add: holds_def)
  also have "\<dots> = concat cs" by (simp add: length_concat_total)
  finally have "take (total cs) (cb_scratch s) = concat cs" .
  moreover have "\<forall>i < length (cs @ [c]). cb_starts s ! i = total (take i (cs @ [c])) \<and>
      cb_lens s ! i = length ((cs @ [c]) ! i)"
    using assms by (simp add: holds_def)
  then have "\<forall>i < length cs. cb_starts s ! i = total (take i cs) \<and> cb_lens s ! i = length (cs ! i)"
    and "cb_starts s ! length cs = total cs"
    by (simp_all add: nth_append)
  ultimately show ?thesis
    using assms by (simp add: holds_def)
qed

lemma holds_slice:
  assumes "holds s cs" and "i < length cs"
  shows "slice (cb_starts s ! i) (cb_starts s ! i + cb_lens s ! i) (cb_scratch s) = cs ! i"
proof -
  let ?a = "take i cs" and ?b = "drop (Suc i) cs"
  have cs: "cs = ?a @ cs ! i # ?b" by (rule id_take_nth_drop [OF assms(2)])
  have t: "total ?a + length (cs ! i) \<le> total cs"
    by (subst (2) cs) simp
  have "slice (total ?a) (total ?a + length (cs ! i)) (cb_scratch s) =
      slice (total ?a) (total ?a + length (cs ! i)) (take (total cs) (cb_scratch s))"
    using t by (simp add: slice_def take_drop)
  also have "\<dots> = slice (total ?a) (total ?a + length (cs ! i)) (concat ?a @ cs ! i @ concat ?b)"
    using assms(1) by (metis (no_types, lifting) holds_def cs concat_append concat.simps(2))
  also have "\<dots> = cs ! i"
    by (simp add: slice_def length_concat_total)
  finally show ?thesis
    using assms by (simp add: holds_def)
qed

text \<open>
  A path in the buffers: the components so far never outgrow the scratch buffer
  as long as the whole path does not.
\<close>

fun fits :: "string list \<Rightarrow> string list \<Rightarrow> bool" where
  "fits st [] = True"
| "fits st (c # cs) \<longleftrightarrow> length (canon_step st c) \<le> 64 \<and> fits (canon_step st c) cs"

lemma total_canon_step: "total (canon_step st c) \<le> total st + length c"
  by (cases st rule: rev_cases) (auto simp: canon_step_def)

lemma canon_comp_holds:
  assumes "holds s st" and "total st + length c \<le> PATH_MAX"
  shows "if length (canon_step st c) \<le> 64
    then \<exists>s'. canon_comp s c = Some s' \<and> holds s' (canon_step st c) else canon_comp s c = None"
proof -
  have d: "cb_depth s = length st" "length (cb_starts s) = 64" "length (cb_scratch s) = PATH_MAX"
    "cb_sn s = total st" "length st \<le> 64"
    using assms(1) by (auto simp: holds_def)
  consider "c = [] \<or> c = ''.''" | "c = ''..''" "st = []" | ds e where "c = ''..''" "st = ds @ [e]"
    | "c \<noteq> []" "c \<noteq> ''.''" "c \<noteq> ''..''"
    by (cases st rule: rev_cases) auto
  then show ?thesis
  proof cases
    case 3
    then show ?thesis
      using holds_pop [of s ds e] assms(1) d by (simp add: canon_comp_def canon_step_def)
  next
    case 4
    show ?thesis
    proof (cases "length st < 64")
      case True
      then show ?thesis
        using 4 d assms holds_push [of s st c] by (simp add: canon_comp_def canon_step_def)
    next
      case False
      with 4 d show ?thesis by (simp add: canon_comp_def canon_step_def)
    qed
  qed (use d assms in \<open>auto simp: canon_comp_def canon_step_def\<close>)
qed

lemma canon_loop_holds:
  assumes "holds s st" and "total st + total cs \<le> PATH_MAX"
  shows "if fits st cs then \<exists>s'. canon_loop s cs = Some s' \<and> holds s' (foldl canon_step st cs)
    else canon_loop s cs = None"
  using assms
proof (induction cs arbitrary: s st)
  case (Cons c cs)
  have le: "total st + length c \<le> PATH_MAX" using Cons.prems(2) by simp
  have le2: "total (canon_step st c) + total cs \<le> PATH_MAX"
    using Cons.prems(2) total_canon_step [of st c] by simp
  show ?case
  proof (cases "length (canon_step st c) \<le> 64")
    case True
    with canon_comp_holds [OF Cons.prems(1) le] obtain s' where
      s': "canon_comp s c = Some s'" "holds s' (canon_step st c)" by auto
    from Cons.IH [OF s'(2) le2] True s'(1) show ?thesis by simp
  next
    case False
    with canon_comp_holds [OF Cons.prems(1) le] show ?thesis by simp
  qed
qed simp

lemma total_split_by: "total (split_by p s) \<le> length s"
proof (induction s)
  case (Cons c s)
  then show ?case by (cases "split_by p s") auto
qed simp

lemma canonicalize_absolute_eq:
  assumes "length path \<le> PATH_MAX"
  shows "canonicalize_absolute path room =
    (if fits [] (split_char CHR ''/'' path) \<and> length (render (components path)) \<le> room
     then Some (render (components path)) else None)"
proof (cases "fits [] (split_char CHR ''/'' path)")
  case True
  have "total [] + total (split_char CHR ''/'' path) \<le> PATH_MAX"
    using assms total_split_by [of "\<lambda>d. d = CHR ''/''" path] by simp
  from canon_loop_holds [OF holds_empty this] True obtain s where
    s: "canon_loop canon_empty (split_char CHR ''/'' path) = Some s" "holds s (components path)"
    by (auto simp: components_def)
  let ?cs = "components path"
  have "cb_depth s = length ?cs" using s(2) by (simp add: holds_def)
  moreover have "map (\<lambda>i. CHR ''/'' # slice (cb_starts s ! i) (cb_starts s ! i + cb_lens s ! i) (cb_scratch s))
      [0 ..< length ?cs] = map (\<lambda>c. CHR ''/'' # c) ?cs"
    using holds_slice [OF s(2)] by (intro nth_equalityI) simp_all
  moreover have "map (\<lambda>i. 1 + cb_lens s ! i) [0 ..< length ?cs] = map length (map (\<lambda>c. CHR ''/'' # c) ?cs)"
    using s(2) by (intro nth_equalityI) (simp_all add: holds_def)
  ultimately show ?thesis
    using True s(1) by (simp add: canonicalize_absolute_def render_def length_concat not_le)
next
  case False
  have "total [] + total (split_char CHR ''/'' path) \<le> PATH_MAX"
    using assms total_split_by [of "\<lambda>d. d = CHR ''/''" path] by simp
  from canon_loop_holds [OF holds_empty this] False show ?thesis
    by (simp add: canonicalize_absolute_def)
qed

section \<open>Canonical paths are fixed points\<close>

definition proper :: "string \<Rightarrow> bool" where
  "proper c \<longleftrightarrow> c \<noteq> [] \<and> c \<noteq> ''.'' \<and> c \<noteq> ''..'' \<and> CHR ''/'' \<notin> set c"

lemma split_no_sep: "w \<in> set (split_by p s) \<Longrightarrow> c \<in> set w \<Longrightarrow> \<not> p c"
proof (induction s arbitrary: w)
  case (Cons d s)
  then show ?case by (cases "split_by p s") (fastforce split: if_splits)+
qed simp

lemma components_proper: "\<forall>c \<in> set (components path). proper c"
proof -
  have run: "\<forall>c \<in> set (foldl canon_step st cs). proper c"
    if "\<forall>c \<in> set st. proper c" "\<forall>c \<in> set cs. CHR ''/'' \<notin> set c" for st cs
    using that
  proof (induction cs arbitrary: st)
    case (Cons c cs)
    have "\<forall>d \<in> set (canon_step st c). proper d"
      using Cons.prems by (auto simp: canon_step_def proper_def dest: in_set_butlastD)
    with Cons show ?case by simp
  qed simp
  show ?thesis
    unfolding components_def by (rule run) (auto dest: split_no_sep [where p = "\<lambda>d. d = CHR ''/''"])
qed

lemma split_render:
  assumes "\<forall>c \<in> set cs. proper c" and "cs \<noteq> []"
  shows "split_char CHR ''/'' (render cs) = [] # cs"
proof -
  have "split_char CHR ''/'' (concat (map (\<lambda>c. CHR ''/'' # c) cs)) = [] # cs"
    using assms(1)
  proof (induction cs rule: rev_induct)
    case (snoc c cs)
    have "split_char CHR ''/'' c = [c]"
      using snoc.prems by (intro split_by_no_sep) (auto simp: proper_def)
    with snoc show ?case
      by (simp add: split_by_append_sep [of "\<lambda>d. d = CHR ''/''" "CHR ''/''"])
  qed simp
  with assms(2) show ?thesis by (simp add: render_def)
qed

lemma foldl_proper: "\<forall>c \<in> set cs. proper c \<Longrightarrow> foldl canon_step st cs = st @ cs"
  by (induction cs arbitrary: st) (auto simp: canon_step_def proper_def)

lemma components_render:
  assumes "\<forall>c \<in> set cs. proper c"
  shows "components (render cs) = cs"
proof (cases "cs = []")
  case True
  then show ?thesis by (simp add: render_def components_def canon_step_def)
next
  case False
  with assms show ?thesis
    by (simp add: components_def split_render foldl_proper canon_step_def)
qed

lemma fits_proper: "\<forall>c \<in> set cs. proper c \<Longrightarrow> length st + length cs \<le> 64 \<Longrightarrow> fits st cs"
  by (induction cs arbitrary: st) (auto simp: canon_step_def proper_def)

lemma fits_length: "fits st cs \<Longrightarrow> length st \<le> 64 \<Longrightarrow> length (foldl canon_step st cs) \<le> 64"
  by (induction cs arbitrary: st) auto

lemma length_render: "length (render cs) = (if cs = [] then 1 else length cs + total cs)"
proof -
  have "length (concat (map (\<lambda>c. CHR ''/'' # c) cs)) = length cs + total cs"
    by (induction cs) simp_all
  then show ?thesis by (simp add: render_def)
qed

lemma length_canon_step:
  "length (canon_step st c) + total (canon_step st c) \<le> length st + total st + (length c + 1)"
  by (cases st rule: rev_cases) (auto simp: canon_step_def)

lemma split_total: "length (split_by p s) + total (split_by p s) = length s + 1"
proof (induction s)
  case (Cons c s)
  then show ?case by (cases "split_by p s") auto
qed simp

lemma render_components_shorter:
  assumes "path = CHR ''/'' # rest"
  shows "length (render (components path)) \<le> length path"
proof -
  have "length (foldl canon_step st cs) + total (foldl canon_step st cs) \<le> length st + total st + length cs + total cs"
    for st cs
  proof (induction cs arbitrary: st)
    case (Cons c cs)
    from Cons.IH [of "canon_step st c"] length_canon_step [of st c] show ?case by simp
  qed simp
  from this [of "[]" "split_char CHR ''/'' rest"] split_total [of "\<lambda>d. d = CHR ''/''" rest]
  show ?thesis
    by (simp add: assms length_render components_def canon_step_def)
qed

text \<open>The path that is made canonical.\<close>

definition candidate :: "string \<Rightarrow> string \<Rightarrow> string" where
  "candidate cwd path =
     (let cwd = (if cwd = [] then ''/'' else cwd) in
      if path = [] \<or> path = ''.'' then cwd
      else if starts_with_char CHR ''/'' path then path
      else if cwd = ''/'' then CHR ''/'' # path
      else cwd @ CHR ''/'' # path)"

lemma resolve_eq:
  "resolve_against_cwd cwd path room =
     (if 0 < room \<and> (cwd = [] \<or> starts_with_char CHR ''/'' cwd) \<and>
         length (candidate cwd path) \<le> PATH_MAX \<and>
         fits [] (split_char CHR ''/'' (candidate cwd path)) \<and>
         length (render (components (candidate cwd path))) \<le> room
      then Some (render (components (candidate cwd path))) else None)"
proof -
  have step: "(case (if length r \<le> PATH_MAX then Some r else None) of None \<Rightarrow> None
      | Some raw \<Rightarrow> canonicalize_absolute raw room) =
    (if length r \<le> PATH_MAX \<and> fits [] (split_char CHR ''/'' r) \<and> length (render (components r)) \<le> room
     then Some (render (components r)) else None)" for r
    by (simp add: canonicalize_absolute_eq)
  have run: "resolve_against_cwd cwd path room =
      (case (if length (candidate cwd path) \<le> PATH_MAX then Some (candidate cwd path) else None) of
         None \<Rightarrow> None | Some raw \<Rightarrow> canonicalize_absolute raw room)"
    if "0 < room" "cwd = [] \<or> starts_with_char CHR ''/'' cwd"
    using that
    by (auto simp: resolve_against_cwd_def push_str_def candidate_def starts_with_char_def Let_def)
  show ?thesis
  proof (cases "0 < room \<and> (cwd = [] \<or> starts_with_char CHR ''/'' cwd)")
    case True
    then show ?thesis by (simp only: run step simp_thms)
  next
    case False
    then show ?thesis by (auto simp: resolve_against_cwd_def)
  qed
qed

text \<open>
  C18. Resolving a path in fixed buffers computes its components: the result is
  the current directory and the path joined, with \<^verbatim>\<open>.\<close> and empty components dropped and
  \<^verbatim>\<open>..\<close> taking away the component before it; it is refused exactly when the joined
  path is longer than \<^verbatim>\<open>PATH_MAX\<close>, deeper than 64 or the result does not fit.
\<close>
theorem resolve_exact:
  "resolve_against_cwd cwd path room =
     (let p = candidate cwd path in
      if 0 < room \<and> (cwd = [] \<or> starts_with_char CHR ''/'' cwd) \<and> length p \<le> PATH_MAX \<and>
         fits [] (split_char CHR ''/'' p) \<and> length (render (components p)) \<le> room
      then Some (render (components p)) else None)"
  unfolding Let_def by (rule resolve_eq)

text \<open>
  C19. What resolving returns is canonical: an absolute path whose components
  are neither empty nor \<^verbatim>\<open>.\<close> nor \<^verbatim>\<open>..\<close>, and resolving it again, from any directory, gives
  it back.
\<close>
theorem resolve_canonical:
  assumes "resolve_against_cwd cwd path room = Some out"
  shows "(\<exists>cs. out = render cs \<and> (\<forall>c \<in> set cs. proper c)) \<and> length out \<le> room \<and>
    (starts_with_char CHR ''/'' cwd' \<and> length out \<le> room' \<longrightarrow> resolve_against_cwd cwd' out room' = Some out)"
proof -
  let ?p = "candidate cwd path"
  from assms have out: "out = render (components ?p)" and r: "length out \<le> room"
    and l: "length ?p \<le> PATH_MAX" and f: "fits [] (split_char CHR ''/'' ?p)"
    and c: "cwd = [] \<or> starts_with_char CHR ''/'' cwd"
    by (auto simp: resolve_eq split: if_splits)
  have proper: "\<forall>c \<in> set (components ?p). proper c" by (rule components_proper)
  have "\<exists>rest. ?p = CHR ''/'' # rest"
    using c by (cases cwd; cases path) (auto simp: candidate_def starts_with_char_def Let_def)
  then have "length out \<le> length ?p"
    using render_components_shorter out by blast
  with l have lo: "length out \<le> PATH_MAX" by simp
  have abs: "\<exists>rest. out = CHR ''/'' # rest"
    unfolding out render_def by (cases "components ?p") auto
  then have cand: "candidate cwd' out = out"
    by (auto simp: candidate_def starts_with_char_def Let_def)
  have comps: "components out = components ?p"
    unfolding out by (rule components_render [OF proper])
  have "fits [] (split_char CHR ''/'' out)"
  proof (cases "components ?p = []")
    case True
    then show ?thesis by (simp add: out render_def canon_step_def)
  next
    case False
    have "length (components ?p) \<le> 64"
      using fits_length [OF f] by (simp add: components_def)
    with False show ?thesis
      by (simp add: out split_render [OF proper] fits_proper [OF proper] canon_step_def)
  qed
  moreover have "0 < length out" using abs by auto
  moreover have "render (components out) = out" by (simp only: comps out [symmetric])
  ultimately have "starts_with_char CHR ''/'' cwd' \<and> length out \<le> room' \<longrightarrow>
      resolve_against_cwd cwd' out room' = Some out"
    using lo by (cases room') (auto simp only: resolve_eq cand if_True simp_thms zero_less_Suc)
  with proper out r show ?thesis by blast
qed

theorem resolve_canonical_witness:
  "resolve_against_cwd ''/home/al'' ''../bo/./x'' 256 = Some ''/home/bo/x'' \<and>
   resolve_against_cwd ''/'' ''/home/bo/x'' 256 = Some ''/home/bo/x''"
proof -
  have r: "resolve_against_cwd ''/home/al'' ''../bo/./x'' 256 = Some ''/home/bo/x''"
    by (simp add: resolve_eq candidate_def starts_with_char_def components_def render_def canon_step_def PATH_MAX_def)
  then show ?thesis
    using resolve_canonical [OF r, of "''/''" 256] by (simp add: starts_with_char_def)
qed

section \<open>One file, one canonical path\<close>

definition relative :: "string \<Rightarrow> bool" where
  "relative p \<longleftrightarrow> \<not> starts_with_char CHR ''/'' p"

lemma relative_normalize: "relative (normalize_path p)"
  by (induction p) (auto simp: relative_def normalize_path_def trim_start_char_def starts_with_char_def)

lemma normalize_relative: "relative p \<Longrightarrow> normalize_path p = p \<and> normalize_path (CHR ''/'' # p) = p"
  by (cases p) (auto simp: relative_def normalize_path_def trim_start_char_def starts_with_char_def)

text \<open>The binds \<^verbatim>\<open>bind\<close> and \<^verbatim>\<open>remove_bind\<close> can build.\<close>

definition wf_binds :: "binds \<Rightarrow> bool" where
  "wf_binds bs \<longleftrightarrow> distinct (map fst bs) \<and> (\<forall>(t, s) \<in> set bs. t \<noteq> [] \<and> relative t \<and> relative s)"

lemma wf_bind: "wf_binds bs \<Longrightarrow> wf_binds (fst (vfs_bind exists bs source target))"
  by (auto simp: vfs_bind_def wf_binds_def Let_def relative_normalize distinct_map_filter
      split: prod.splits)

lemma wf_remove_bind: "wf_binds bs \<Longrightarrow> wf_binds (fst (remove_bind bs target))"
  by (auto simp: remove_bind_def wf_binds_def Let_def distinct_map_filter)

lemma longest_bind_Some:
  "longest_bind bs path = Some b \<Longrightarrow> b \<in> set bs \<and> bind_applies path b"
  unfolding longest_bind_def by (auto dest: max_by_key_Some)

lemma relative_rewrite:
  assumes "relative path" and "relative s"
  shows "relative (bind_rewrite path (t, s))"
proof (cases s)
  case Nil
  then show ?thesis
    using relative_normalize [of "drop (length t) path"]
    by (simp add: bind_rewrite_def normalize_path_def Let_def)
qed (use assms in \<open>simp add: bind_rewrite_def relative_def starts_with_char_def Let_def\<close>)

lemma unbind_hops_fixed:
  "unbind_hops n bs path = Some q \<Longrightarrow> wf_binds bs \<Longrightarrow> relative path \<Longrightarrow>
   longest_bind bs q = None \<and> relative q"
proof (induction n arbitrary: path)
  case (Suc n)
  show ?case
  proof (cases "longest_bind bs path")
    case (Some b)
    with Suc.prems(2) have "relative (snd b)"
      by (cases b) (auto simp: wf_binds_def dest: longest_bind_Some)
    with Suc.prems(3) have "relative (bind_rewrite path b)"
      by (cases b) (simp add: relative_rewrite)
    with Suc Some show ?thesis by simp
  qed (use Suc in simp)
qed simp

lemma unbind_hops_mono: "unbind_hops n bs path = Some q \<Longrightarrow> n \<le> m \<Longrightarrow> unbind_hops m bs path = Some q"
proof (induction n arbitrary: m path)
  case (Suc n)
  then obtain k where m: "m = Suc k" "n \<le> k" by (cases m) auto
  with Suc show ?case by (auto split: option.splits)
qed simp

lemma canonical_Some:
  assumes "wf_binds bs" and "canonical bs path = Some q"
  obtains p where "q = CHR ''/'' # p" and "longest_bind bs p = None" and "relative p"
    and "unbind bs (normalize_path path) = Some p"
  using assms unbind_hops_fixed [of MAX_BIND_HOPS bs "normalize_path path"] relative_normalize [of path]
  by (auto simp: canonical_def unbind_def)

lemma unbind_unfold:
  "unbind bs p = (case longest_bind bs p of None \<Rightarrow> Some p | Some b \<Rightarrow> unbind_hops 7 bs (bind_rewrite p b))"
proof -
  have hops: "MAX_BIND_HOPS = Suc 7" by (simp add: MAX_BIND_HOPS_def)
  show ?thesis unfolding unbind_def hops by (rule unbind_hops.simps)
qed



end
