(* ===== verification/Namespace.thy ===== *)
theory Namespace
  imports Policy_Wf Paths
begin

text \<open>
  Per-process namespaces (\<^verbatim>\<open>kernel/src/task/ns.rs\<close>) and the system call that makes
  one (\<^verbatim>\<open>sys_ns\<close> of \<^verbatim>\<open>kernel/src/user/syscall.rs\<close>): a list of bindings, each showing a
  real path at a path of the process's own tree with certain rights. The lemmas show
  where a name leads, which rights a process has through its bindings, and that
  a new namespace never has more rights on any file than the one it is made in.
\<close>

section \<open>Bindings\<close>

record binding =
  b_target :: string
  b_source :: string
  b_rights :: rights

type_synonym namespace = "binding list"

datatype mapped = Real string | Synthetic

definition below :: "string \<Rightarrow> string \<Rightarrow> string option" where
  "below path prefix =
     (if prefix = ''/'' then Some (if path = ''/'' then [] else path)
      else case strip_prefix prefix path of
             None \<Rightarrow> None
           | Some rest \<Rightarrow> if rest = [] \<or> starts_with_char CHR ''/'' rest then Some rest else None)"

definition ns_join :: "string \<Rightarrow> string \<Rightarrow> string" where
  "ns_join base rest = (if rest = [] then base else if base = ''/'' then rest else base @ rest)"

definition ns_best :: "namespace \<Rightarrow> string \<Rightarrow> (binding \<times> string) option" where
  "ns_best ns virt =
     max_by_key (\<lambda>(b, _). length (b_target b))
       (List.map_filter (\<lambda>b. map_option (\<lambda>rest. (b, rest)) (below virt (b_target b))) ns)"

definition ns_map :: "namespace \<Rightarrow> string \<Rightarrow> mapped option" where
  "ns_map ns virt =
     (case ns_best ns virt of
        Some (b, rest) \<Rightarrow> Some (Real (ns_join (b_source b) rest))
      | None \<Rightarrow> if list_ex (\<lambda>b. below (b_target b) virt \<noteq> None) ns then Some Synthetic else None)"

definition ns_rights_of :: "namespace \<Rightarrow> string \<Rightarrow> rights" where
  "ns_rights_of ns real =
     foldl (\<lambda>r b. r OR b_rights b) NONE (filter (\<lambda>b. below real (b_source b) \<noteq> None) ns)"

definition next_name :: "string \<Rightarrow> string option" where
  "next_name rest =
     (case split_char CHR ''/'' (trim_start_char CHR ''/'' rest) of
        [] \<Rightarrow> None | n # _ \<Rightarrow> if n = [] then None else Some n)"

definition ns_child :: "string \<Rightarrow> string list \<Rightarrow> binding \<Rightarrow> string list" where
  "ns_child virt out b =
     (case below (b_target b) virt of
        None \<Rightarrow> out
      | Some rest \<Rightarrow>
          (case next_name rest of
             None \<Rightarrow> out
           | Some n \<Rightarrow> if n \<in> set out then out else out @ [n]))"

definition ns_children :: "namespace \<Rightarrow> string \<Rightarrow> string list" where
  "ns_children ns virt = foldl (ns_child virt) [] ns"

definition through_bindings :: "binds \<Rightarrow> namespace \<Rightarrow> string \<Rightarrow> string option" where
  "through_bindings bs ns real =
     map_option (\<lambda>(b, _, rest). ns_join (b_target b) rest)
       (max_by_key (\<lambda>(_, len, _). len)
         (List.map_filter (\<lambda>b.
            case canonical bs (b_source b) of
              None \<Rightarrow> None
            | Some source \<Rightarrow> map_option (\<lambda>rest. (b, length source, rest)) (below real source)) ns))"

definition to_virtual :: "binds \<Rightarrow> namespace \<Rightarrow> string \<Rightarrow> string option" where
  "to_virtual bs ns real =
     (case canonical bs real of
        None \<Rightarrow> None
      | Some real \<Rightarrow>
          (case through_bindings bs ns real of
             Some v \<Rightarrow> Some v
           | None \<Rightarrow>
               (case List.map_filter (through_bindings bs ns) (bound_names bs real) of
                  [] \<Rightarrow> None | v # _ \<Rightarrow> Some v)))"

text \<open>\<^verbatim>\<open>task::ns_rights\<close>: everything without a namespace.\<close>

definition ns_rights :: "namespace option \<Rightarrow> string \<Rightarrow> rights" where
  "ns_rights n real = (case n of None \<Rightarrow> ALL_RIGHTS | Some ns \<Rightarrow> ns_rights_of ns real)"

section \<open>Making a namespace\<close>

text \<open>
  What \<^verbatim>\<open>sys_ns\<close> asks of the rest of the kernel: how the calling process's names
  resolve now (\<^verbatim>\<open>resolve_copied_path\<close>), and whether a real path exists.
\<close>

record ns_env =
  ne_resolve :: "string \<Rightarrow> string option"
  ne_exists :: "string \<Rightarrow> bool"
  ne_binds :: binds
  ne_chdir_root :: nat

definition NS_SPEC_MAX :: nat where "NS_SPEC_MAX = 4096"
definition SYSERR :: nat where "SYSERR = usize_MAX"

definition ns_line :: "ns_env \<Rightarrow> namespace option \<Rightarrow> string \<Rightarrow> binding option" where
  "ns_line env cur line =
     (case split_whitespace line of
        target # source # words \<Rightarrow>
          (case parse_list (case words of [] \<Rightarrow> ''all'' | r # _ \<Rightarrow> r) of
             None \<Rightarrow> None
           | Some rights \<Rightarrow>
               (case resolve_against_cwd ''/'' target PATH_MAX of
                  None \<Rightarrow> None
                | Some t \<Rightarrow>
                    (case ne_resolve env source of
                       None \<Rightarrow> None
                     | Some real \<Rightarrow>
                         if starts_with_char CHR ''@'' real \<or> \<not> ne_exists env real then None
                         else Some \<lparr>b_target = t, b_source = real, b_rights = rights AND ns_rights cur real\<rparr>)))
      | _ \<Rightarrow> None)"

fun ns_lines :: "ns_env \<Rightarrow> namespace option \<Rightarrow> string list \<Rightarrow> namespace option" where
  "ns_lines env cur [] = Some []"
| "ns_lines env cur (l # ls) =
     (case ns_line env cur l of
        None \<Rightarrow> None
      | Some b \<Rightarrow> map_option (\<lambda>bs. b # bs) (ns_lines env cur ls))"

text \<open>
  \<^verbatim>\<open>sys_ns\<close> on the text it copied from the caller (\<open>None\<close>: the copy failed or is
  not UTF-8): the process's namespace afterwards and what the call returns.
\<close>

definition sys_ns :: "ns_env \<Rightarrow> namespace option \<Rightarrow> string option \<Rightarrow> namespace option \<times> nat" where
  "sys_ns env cur spec =
     (case spec of
        None \<Rightarrow> (cur, SYSERR)
      | Some spec \<Rightarrow>
          if length spec = 0 \<or> NS_SPEC_MAX < length spec then (cur, SYSERR)
          else
            (case ns_lines env cur (filter (\<lambda>l. l \<noteq> []) (map trim (str_lines spec))) of
               None \<Rightarrow> (cur, SYSERR)
             | Some ns \<Rightarrow>
                 let keeps = (case ne_resolve env ''.'' of
                       None \<Rightarrow> False | Some c \<Rightarrow> to_virtual (ne_binds env) ns c \<noteq> None)
                 in (Some ns, if keeps then 0 else ne_chdir_root env)))"

section \<open>Where names lead\<close>

lemma below_Some:
  "below path prefix = Some rest \<longleftrightarrow>
     (if prefix = ''/'' then rest = (if path = ''/'' then [] else path)
      else path = prefix @ rest \<and> (rest = [] \<or> starts_with_char CHR ''/'' rest))"
proof (cases "prefix = ''/''")
  case False
  then show ?thesis
    by (cases "strip_prefix prefix path") (auto simp: below_def simp flip: strip_prefix_Some)
qed (auto simp: below_def)

lemma below_rest:
  "below path prefix = Some rest \<Longrightarrow> starts_with_char CHR ''/'' path \<Longrightarrow>
   rest = [] \<or> starts_with_char CHR ''/'' rest"
  by (cases "prefix = ''/''"; cases "path = ''/''") (simp_all add: below_Some)

lemma below_join: "below path prefix = Some rest \<Longrightarrow> path \<noteq> [] \<Longrightarrow> ns_join prefix rest = path"
  by (cases "prefix = ''/''"; cases "path = ''/''") (simp_all add: below_Some ns_join_def)

lemma join_below:
  "rest = [] \<or> starts_with_char CHR ''/'' rest \<Longrightarrow> below (ns_join base rest) base \<noteq> None"
  by (auto simp: ns_join_def below_def strip_prefix_def)

lemma below_trans:
  assumes "below path mid \<noteq> None" and "below mid base \<noteq> None" and abs: "starts_with_char CHR ''/'' path"
  shows "below path base \<noteq> None"
proof (cases "base = ''/''")
  case False
  from assms(2) obtain r2 where m: "mid = base @ r2" "r2 = [] \<or> starts_with_char CHR ''/'' r2"
    using False by (auto simp: below_Some)
  show ?thesis
  proof (cases "mid = ''/''")
    case True
    with m False have "base = []" by (cases base) auto
    with abs show ?thesis by (simp add: below_def strip_prefix_def)
  next
    case mid: False
    with assms(1) obtain r1 where p: "path = mid @ r1" "r1 = [] \<or> starts_with_char CHR ''/'' r1"
      by (auto simp: below_Some)
    then have "below path base = Some (r2 @ r1)"
      using False m by (auto simp: below_Some starts_with_char_def split: list.splits)
    then show ?thesis by simp
  qed
qed (simp add: below_def)

lemma in_map_filter: "y \<in> set (List.map_filter f xs) \<longleftrightarrow> (\<exists>x \<in> set xs. f x = Some y)"
proof -
  have "y \<in> set (List.map_filter f xs) \<longleftrightarrow> (\<exists>x \<in> set xs. f x \<noteq> None \<and> the (f x) = y)"
    by (auto simp: List.map_filter_def)
  also have "\<dots> \<longleftrightarrow> (\<exists>x \<in> set xs. f x = Some y)"
    by (metis option.collapse option.distinct(1) option.sel)
  finally show ?thesis .
qed

lemma ns_best_Some:
  assumes "ns_best ns virt = Some (b, rest)"
  shows "b \<in> set ns \<and> below virt (b_target b) = Some rest \<and>
    (\<forall>c \<in> set ns. below virt (b_target c) \<noteq> None \<longrightarrow> length (b_target c) \<le> length (b_target b))"
proof -
  let ?xs = "List.map_filter (\<lambda>b. map_option (\<lambda>rest. (b, rest)) (below virt (b_target b))) ns"
  have in_xs: "(c, r) \<in> set ?xs \<longleftrightarrow> c \<in> set ns \<and> below virt (b_target c) = Some r" for c r
    by (auto simp: in_map_filter)
  have "(b, rest) \<in> set ?xs" and "\<forall>(c, r) \<in> set ?xs. length (b_target c) \<le> length (b_target b)"
    using max_by_key_Some [OF assms [unfolded ns_best_def]] by (simp_all add: case_prod_unfold)
  then show ?thesis by (fastforce simp: in_xs)
qed

lemma ns_best_None: "ns_best ns virt = None \<longleftrightarrow> (\<forall>b \<in> set ns. below virt (b_target b) = None)"
  unfolding ns_best_def max_by_key_None
  by (simp add: List.map_filter_def filter_empty_conv)

lemma bit_ns_rights:
  "bit (ns_rights_of ns real) i \<longleftrightarrow> (\<exists>b \<in> set ns. below real (b_source b) \<noteq> None \<and> bit (b_rights b) i)"
proof -
  have f: "bit (foldl (\<lambda>r b. r OR b_rights b) r bs) i \<longleftrightarrow> bit r i \<or> (\<exists>b \<in> set bs. bit (b_rights b) i)" for r bs
    by (induction bs arbitrary: r) (auto simp: bit_or_iff)
  show ?thesis by (auto simp: ns_rights_of_def NONE_def f)
qed

text \<open>
  C22. A name of a namespace leads through the binding with the longest target
  above it: to a real path below that binding's source, on which the process has at
  least that binding's rights. A name under no binding does not exist unless it
  is a directory above one.
\<close>
theorem ns_map_exact:
  assumes "starts_with_char CHR ''/'' virt"
  shows "case ns_map ns virt of
     Some (Real r) \<Rightarrow> \<exists>b \<in> set ns. \<exists>rest. below virt (b_target b) = Some rest \<and> r = ns_join (b_source b) rest \<and>
        (\<forall>c \<in> set ns. below virt (b_target c) \<noteq> None \<longrightarrow> length (b_target c) \<le> length (b_target b)) \<and>
        contains (ns_rights_of ns r) (b_rights b)
   | Some Synthetic \<Rightarrow> (\<forall>b \<in> set ns. below virt (b_target b) = None) \<and> (\<exists>b \<in> set ns. below (b_target b) virt \<noteq> None)
   | None \<Rightarrow> \<forall>b \<in> set ns. below virt (b_target b) = None \<and> below (b_target b) virt = None"
proof (cases "ns_best ns virt")
  case (Some br)
  then obtain b rest where br: "br = (b, rest)" by (cases br)
  note best = ns_best_Some [OF Some [unfolded br]]
  then have "rest = [] \<or> starts_with_char CHR ''/'' rest"
    using below_rest assms by blast
  from join_below [OF this, of "b_source b"] best
  have "contains (ns_rights_of ns (ns_join (b_source b) rest)) (b_rights b)"
    by (auto simp: contains_iff bit_ns_rights)
  with best Some br show ?thesis by (auto simp: ns_map_def)
next
  case None
  note all = None [unfolded ns_best_None]
  show ?thesis
  proof (cases "\<exists>b \<in> set ns. below (b_target b) virt \<noteq> None")
    case True
    then have "ns_map ns virt = Some Synthetic" by (simp add: ns_map_def None list_ex_iff)
    with True all show ?thesis by simp
  next
    case False
    then have "ns_map ns virt = None" by (simp add: ns_map_def None list_ex_iff)
    with False all show ?thesis by simp
  qed
qed

theorem ns_map_exact_witness:
  "ns_map [\<lparr>b_target = ''/'', b_source = ''/r'', b_rights = READ\<rparr>] ''/a'' = Some (Real ''/r/a'') \<and>
   contains (ns_rights_of [\<lparr>b_target = ''/'', b_source = ''/r'', b_rights = READ\<rparr>] ''/r/a'') READ"
proof -
  let ?ns = "[\<lparr>b_target = ''/'', b_source = ''/r'', b_rights = READ\<rparr>]"
  have "ns_map ?ns ''/a'' = Some (Real ''/r/a'')" by code_simp
  then show ?thesis
    using ns_map_exact [of "''/a''" ?ns] by (auto simp: starts_with_char_def)
qed

lemma ns_rights_line:
  assumes "ns_line env cur l = Some b" and "below real (b_source b) \<noteq> None"
    and "starts_with_char CHR ''/'' real" and "bit (b_rights b) i"
  shows "bit (ns_rights cur real) i"
proof -
  from assms(1,4) have i: "bit (ns_rights cur (b_source b)) i"
    by (auto simp: ns_line_def bit_and_iff split: list.splits option.splits if_splits)
  show ?thesis
  proof (cases cur)
    case (Some ns)
    with i obtain c where c: "c \<in> set ns" "below (b_source b) (b_source c) \<noteq> None" "bit (b_rights c) i"
      by (auto simp: ns_rights_def bit_ns_rights)
    with below_trans [OF assms(2) c(2) assms(3)] Some show ?thesis
      by (auto simp: ns_rights_def bit_ns_rights)
  qed (use i in \<open>simp add: ns_rights_def\<close>)
qed

lemma ns_lines_in:
  "ns_lines env cur ls = Some ns \<Longrightarrow> b \<in> set ns \<Longrightarrow> \<exists>l \<in> set ls. ns_line env cur l = Some b"
  by (induction ls arbitrary: ns) (auto split: option.splits)

lemma sys_ns_narrows:
  assumes "starts_with_char CHR ''/'' real"
  shows "contains (ns_rights cur real) (ns_rights (fst (sys_ns env cur spec)) real)"
proof -
  have "bit (ns_rights cur real) i"
    if "ns_lines env cur ls = Some ns" "bit (ns_rights_of ns real) i" for ls ns i
    using that assms by (auto simp: bit_ns_rights dest!: ns_lines_in intro: ns_rights_line)
  then show ?thesis
    by (auto simp: sys_ns_def contains_iff ns_rights_def [of "Some _"] Let_def split: option.splits)
qed

text \<open>The namespaces a process can give itself, one call after another.\<close>

inductive ns_calls :: "namespace option \<Rightarrow> namespace option \<Rightarrow> bool" where
  stay: "ns_calls n n"
| call: "ns_calls n m \<Longrightarrow> ns_calls n (fst (sys_ns env m spec))"

text \<open>
  C21. A namespace only narrows. Whatever specifications a process passes to
  \<^verbatim>\<open>sys_ns\<close>, one call after another, and however its names resolve at each, it never
  has a right on a real path through its namespace that it did not have before.
\<close>
theorem ns_only_narrows:
  assumes "ns_calls before after" and "starts_with_char CHR ''/'' real"
  shows "contains (ns_rights before real) (ns_rights after real)"
  using assms
proof (induction rule: ns_calls.induct)
  case (call n m env spec)
  then show ?case
    using sys_ns_narrows [of real m env spec] by (blast intro: contains_trans)
qed simp

definition demo_ns_env :: ns_env where
  "demo_ns_env = \<lparr>ne_resolve = Some, ne_exists = (\<lambda>_. True), ne_binds = [], ne_chdir_root = 0\<rparr>"

theorem ns_only_narrows_witness:
  "fst (sys_ns demo_ns_env None (Some ''/b /bin read'')) =
     Some [\<lparr>b_target = ''/b'', b_source = ''/bin'', b_rights = READ\<rparr>] \<and>
   contains ALL_RIGHTS (ns_rights (fst (sys_ns demo_ns_env None (Some ''/b /bin read''))) ''/bin/sh'')"
proof -
  have "fst (sys_ns demo_ns_env None (Some ''/b /bin read'')) =
      Some [\<lparr>b_target = ''/b'', b_source = ''/bin'', b_rights = READ\<rparr>]"
    by code_simp
  moreover have "ns_calls None (fst (sys_ns demo_ns_env None (Some ''/b /bin read'')))"
    by (rule ns_calls.call [OF ns_calls.stay])
  ultimately show ?thesis
    using ns_only_narrows [of None "fst (sys_ns demo_ns_env None (Some ''/b /bin read''))" "''/bin/sh''"]
    by (simp add: ns_rights_def [of None] starts_with_char_def)
qed



end
