(* ===== verification/Byte_Order.thy ===== *)
theory Byte_Order
  imports Prelude
begin

text \<open>
  Integers in byte arrays: \<^verbatim>\<open>from_le_bytes\<close>, \<^verbatim>\<open>to_le_bytes\<close> and their big-endian
  counterparts, shared by the digest, the partition table and the file systems.
\<close>

section \<open>Little-endian numbers\<close>

fun le_nat :: "bytes \<Rightarrow> nat" where
  "le_nat [] = 0"
| "le_nat (b # bs) = unat b + 256 * le_nat bs"

fun nat_le :: "nat \<Rightarrow> nat \<Rightarrow> bytes" where
  "nat_le 0 v = []"
| "nat_le (Suc n) v = word_of_nat v # nat_le n (v div 256)"

lemma length_nat_le [simp]: "length (nat_le n v) = n"
  by (induction n arbitrary: v) auto

lemma le_nat_nat_le: "le_nat (nat_le n v) = v mod 256 ^ n"
  by (induction n arbitrary: v) (simp_all add: unat_of_nat mod_mult2_eq add.commute)

lemma nat_le_le_nat: "nat_le (length bs) (le_nat bs) = bs"
proof (induction bs)
  case (Cons b bs)
  have b: "unat b < 256" by (rule unat_bounds)
  then have "(unat b + 256 * le_nat bs) div 256 = le_nat bs" by simp
  moreover have "(word_of_nat (unat b + 256 * le_nat bs) :: u8) = b"
    using b by (simp add: word_unat_eq_iff unat_of_nat del: of_nat_add of_nat_mult)
  ultimately show ?case using Cons.IH by simp
qed simp

lemma le_nat_bound: "le_nat bs < 256 ^ length bs"
proof (induction bs)
  case (Cons b bs)
  have "unat b < 256" by (rule unat_bounds)
  with Cons.IH show ?case by simp
qed simp

text \<open>The same on words, as the conversions compute them.\<close>

fun le_word :: "bytes \<Rightarrow> 'a::len word" where
  "le_word [] = 0"
| "le_word (b # bs) = ucast b + 256 * le_word bs"

fun word_le :: "nat \<Rightarrow> 'a::len word \<Rightarrow> bytes" where
  "word_le 0 w = []"
| "word_le (Suc n) w = ucast w # word_le n (drop_bit 8 w)"

lemma le_word_eq: "le_word bs = word_of_nat (le_nat bs)"
  by (induction bs) (simp_all add: unsigned_ucast_eq)

lemma word_le_eq: "word_le n w = nat_le n (unat w)"
proof (induction n arbitrary: w)
  case (Suc n)
  have "unat (drop_bit 8 w) = unat w div 256"
    unfolding unat_drop_bit_eq by (simp add: drop_bit_eq_div)
  with Suc.IH show ?case by simp
qed simp

definition from_le16 :: "bytes \<Rightarrow> u16" where "from_le16 bs = le_word bs"
definition from_le32 :: "bytes \<Rightarrow> u32" where "from_le32 bs = le_word bs"
definition from_le64 :: "bytes \<Rightarrow> u64" where "from_le64 bs = le_word bs"
definition to_le16 :: "u16 \<Rightarrow> bytes" where "to_le16 w = word_le 2 w"
definition to_le32 :: "u32 \<Rightarrow> bytes" where "to_le32 w = word_le 4 w"
definition to_le64 :: "u64 \<Rightarrow> bytes" where "to_le64 w = word_le 8 w"

definition from_be32 :: "bytes \<Rightarrow> u32" where "from_be32 bs = from_le32 (rev bs)"
definition to_be32 :: "u32 \<Rightarrow> bytes" where "to_be32 w = rev (to_le32 w)"
definition to_be64 :: "u64 \<Rightarrow> bytes" where "to_be64 w = rev (to_le64 w)"

lemmas le_defs = from_le16_def from_le32_def from_le64_def to_le16_def to_le32_def to_le64_def
  le_word_eq word_le_eq

lemma length_to_le [simp]:
  "length (to_le16 w) = 2" "length (to_le32 x) = 4" "length (to_le64 y) = 8"
  "length (to_be32 x) = 4" "length (to_be64 y) = 8"
  by (simp_all add: le_defs to_be32_def to_be64_def)

lemma from_to_le [simp]:
  "from_le16 (to_le16 w) = w" "from_le32 (to_le32 x) = x" "from_le64 (to_le64 y) = y"
  using unat_bounds(2) [of w] unat_bounds(3) [of x] unat_bounds(4) [of y]
  by (simp_all add: le_defs le_nat_nat_le unat_of_nat word_unat_eq_iff)

lemma to_from_le:
  "length b2 = 2 \<Longrightarrow> to_le16 (from_le16 b2) = b2"
  "length b4 = 4 \<Longrightarrow> to_le32 (from_le32 b4) = b4"
  "length b8 = 8 \<Longrightarrow> to_le64 (from_le64 b8) = b8"
  using le_nat_bound [of b2] le_nat_bound [of b4] le_nat_bound [of b8]
    nat_le_le_nat [of b2] nat_le_le_nat [of b4] nat_le_le_nat [of b8]
  by (simp_all add: le_defs unat_of_nat)

end
