(* ===== verification/Sha256.thy ===== *)
theory Sha256
  imports Byte_Order
begin

text \<open>
  SHA-256 (\<^verbatim>\<open>kernel/src/sec/sha256.rs\<close>), for the policy's password digests. The code
  hashes a list of slices byte by byte through one 64-byte block and pads in
  place; the lemmas show that this is the digest of the padded message cut into
  blocks, as FIPS 180-4 defines it, whatever way the input is split into parts.
\<close>

text \<open>The round constants, a row per line of the table in \<^verbatim>\<open>sha256.rs\<close>.\<close>

definition K :: "u32 list" where
  "K = [0x428a2f98, 0x71374491, 0xb5c0fbcf, 0xe9b5dba5, 0x3956c25b, 0x59f111f1, 0x923f82a4, 0xab1c5ed5] @
     [0xd807aa98, 0x12835b01, 0x243185be, 0x550c7dc3, 0x72be5d74, 0x80deb1fe, 0x9bdc06a7, 0xc19bf174] @
     [0xe49b69c1, 0xefbe4786, 0x0fc19dc6, 0x240ca1cc, 0x2de92c6f, 0x4a7484aa, 0x5cb0a9dc, 0x76f988da] @
     [0x983e5152, 0xa831c66d, 0xb00327c8, 0xbf597fc7, 0xc6e00bf3, 0xd5a79147, 0x06ca6351, 0x14292967] @
     [0x27b70a85, 0x2e1b2138, 0x4d2c6dfc, 0x53380d13, 0x650a7354, 0x766a0abb, 0x81c2c92e, 0x92722c85] @
     [0xa2bfe8a1, 0xa81a664b, 0xc24b8b70, 0xc76c51a3, 0xd192e819, 0xd6990624, 0xf40e3585, 0x106aa070] @
     [0x19a4c116, 0x1e376c08, 0x2748774c, 0x34b0bcb5, 0x391c0cb3, 0x4ed8aa4a, 0x5b9cca4f, 0x682e6ff3] @
     [0x748f82ee, 0x78a5636f, 0x84c87814, 0x8cc70208, 0x90befffa, 0xa4506ceb, 0xbef9a3f7, 0xc67178f2]"

definition H0 :: "u32 list" where
  "H0 = [0x6a09e667, 0xbb67ae85, 0x3c6ef372, 0xa54ff53a, 0x510e527f, 0x9b05688c, 0x1f83d9ab, 0x5be0cd19]"

text \<open>\<^verbatim>\<open>rotate_right\<close> by a constant between 1 and 31.\<close>

definition rotr :: "u32 \<Rightarrow> nat \<Rightarrow> u32" where
  "rotr w n = drop_bit n w OR push_bit (32 - n) w"

definition schedule_word :: "u32 list \<Rightarrow> nat \<Rightarrow> u32 list" where
  "schedule_word w i =
     (let s0 = rotr (w ! (i - 15)) 7 XOR rotr (w ! (i - 15)) 18 XOR drop_bit 3 (w ! (i - 15));
          s1 = rotr (w ! (i - 2)) 17 XOR rotr (w ! (i - 2)) 19 XOR drop_bit 10 (w ! (i - 2))
      in w[i := w ! (i - 16) + s0 + w ! (i - 7) + s1])"

definition schedule :: "bytes \<Rightarrow> u32 list" where
  "schedule block =
     foldl schedule_word
       (map (\<lambda>i. from_be32 (slice (i * 4) (i * 4 + 4) block)) [0 ..< 16] @ replicate 48 0) [16 ..< 64]"

type_synonym working = "u32 \<times> u32 \<times> u32 \<times> u32 \<times> u32 \<times> u32 \<times> u32 \<times> u32"

definition sha_round :: "u32 list \<Rightarrow> working \<Rightarrow> nat \<Rightarrow> working" where
  "sha_round w st i =
     (let (a, b, c, d, e, f, g, hh) = st;
          s1 = rotr e 6 XOR rotr e 11 XOR rotr e 25;
          ch = (e AND f) XOR (NOT e AND g);
          t1 = hh + s1 + ch + K ! i + w ! i;
          s0 = rotr a 2 XOR rotr a 13 XOR rotr a 22;
          maj = (a AND b) XOR (a AND c) XOR (b AND c);
          t2 = s0 + maj
      in (t1 + t2, a, b, c, d + t1, e, f, g))"

definition compress :: "u32 list \<Rightarrow> bytes \<Rightarrow> u32 list" where
  "compress h block =
     (let w = schedule block;
          (a, b, c, d, e, f, g, hh) =
            foldl (sha_round w) (h ! 0, h ! 1, h ! 2, h ! 3, h ! 4, h ! 5, h ! 6, h ! 7) [0 ..< 64]
      in map2 (+) h [a, b, c, d, e, f, g, hh])"

text \<open>The loop over the input: the hash, the block and how much of it is filled.\<close>

type_synonym absorber = "u32 list \<times> bytes \<times> nat"

definition absorb :: "absorber \<Rightarrow> u8 \<Rightarrow> absorber" where
  "absorb st byte =
     (let (h, block, fill) = st;
          block = block[fill := byte];
          fill = fill + 1
      in if fill = 64 then (compress h block, block, 0) else (h, block, fill))"

definition absorb_part :: "absorber \<times> u64 \<Rightarrow> bytes \<Rightarrow> absorber \<times> u64" where
  "absorb_part st part = (foldl absorb (fst st) part, snd st + word_of_nat (length part))"

definition digest :: "bytes list \<Rightarrow> bytes" where
  "digest parts =
     (let ((h, block, fill), total) = foldl absorb_part ((H0, replicate 64 0, 0), 0) parts;
          block = block[fill := 0x80];
          fill = fill + 1;
          (h, block, fill) =
            (if 56 < fill
             then (let block = take fill block @ replicate (length block - fill) 0
                   in (compress h block, block, 0))
             else (h, block, fill));
          block = splice fill (replicate (56 - fill) 0) block;
          block = splice 56 (to_be64 (total * 8)) block;
          h = compress h block
      in concat (map to_be32 h))"

section \<open>The digest of FIPS 180-4\<close>

text \<open>The message with a one bit, zeros and its length in bits, a multiple of 64 bytes.\<close>

definition pad :: "bytes \<Rightarrow> bytes" where
  "pad m = m @ [0x80] @ replicate ((119 - length m mod 64) mod 64) 0 @
     to_be64 (word_of_nat (8 * length m))"

definition blocks :: "bytes \<Rightarrow> bytes list" where
  "blocks m = map (\<lambda>i. take 64 (drop (64 * i) m)) [0 ..< length m div 64]"

definition sha256_spec :: "bytes \<Rightarrow> bytes" where
  "sha256_spec m = concat (map to_be32 (foldl compress H0 (blocks (pad m))))"

lemma blocks_append:
  assumes "length a mod 64 = 0"
  shows "blocks (a @ b) = blocks a @ blocks b"
proof -
  from assms obtain k where k: "length a = 64 * k" by auto
  let ?n = "length b div 64" and ?f = "\<lambda>i. take 64 (drop (64 * i) (a @ b))"
  have "map ?f [0 ..< k] = blocks a"
    unfolding blocks_def k
  proof (rule map_cong)
    fix i assume "i \<in> set [0 ..< 64 * k div 64]"
    then have "64 \<le> length (drop (64 * i) a)" by (simp add: k)
    then show "?f i = take 64 (drop (64 * i) a)" by simp
  qed simp
  moreover have "map ?f [k ..< k + ?n] = blocks b"
  proof -
    have "?f (i + k) = take 64 (drop (64 * i) b)" for i
      by (simp add: k algebra_simps)
    then show ?thesis
      by (simp only: blocks_def map_add_upt [symmetric] map_map o_def add.commute [of k])
  qed
  moreover have "length (a @ b) div 64 = k + ?n" by (simp add: k)
  then have "blocks (a @ b) = map ?f ([0 ..< k] @ [k ..< k + ?n])"
    by (simp only: blocks_def upt_add_eq_append [OF zero_le])
  ultimately show ?thesis by simp
qed

lemma blocks_one: "length b = 64 \<Longrightarrow> blocks b = [b]"
  by (simp add: blocks_def)

lemma blocks_short: "length b < 64 \<Longrightarrow> blocks b = []"
  by (simp add: blocks_def)

text \<open>What the absorber holds after a message: its whole blocks hashed, the rest in the block.\<close>

definition absorbed :: "absorber \<Rightarrow> bytes \<Rightarrow> bool" where
  "absorbed st m \<longleftrightarrow>
     (case st of (h, block, fill) \<Rightarrow>
        (\<exists>a r. m = a @ r \<and> length a mod 64 = 0 \<and> length r = fill \<and> fill < 64 \<and>
           length block = 64 \<and> take fill block = r \<and> h = foldl compress H0 (blocks a)))"

lemma absorb_step:
  assumes "absorbed st m"
  shows "absorbed (absorb st b) (m @ [b])"
proof -
  obtain h block fill a r where st: "st = (h, block, fill)"
    and m: "m = a @ r" "length a mod 64 = 0" "length r = fill" "fill < 64" "length block = 64"
      "take fill block = r" "h = foldl compress H0 (blocks a)"
    using assms by (cases st) (auto simp: absorbed_def)
  have t: "take (fill + 1) (block[fill := b]) = r @ [b]"
    using m by (simp add: take_Suc_conv_app_nth)
  show ?thesis
  proof (cases "fill + 1 = 64")
    case True
    with t m have full: "block[fill := b] = r @ [b]" by simp
    have "blocks (a @ r @ [b]) = blocks a @ [r @ [b]]"
      using m True by (simp add: blocks_append blocks_one)
    moreover have "absorb st b = (compress h (r @ [b]), r @ [b], 0)"
      using full True by (simp add: st absorb_def Let_def)
    moreover have "(length a + 64) mod 64 = 0" "length r + 1 = 64"
      using m True by simp_all
    ultimately show ?thesis
      using m by (auto simp: absorbed_def intro!: exI [of _ "a @ r @ [b]"])
  next
    case False
    then have "absorb st b = (h, block[fill := b], fill + 1)"
      by (simp add: st absorb_def Let_def)
    with False t m show ?thesis
      by (auto simp: absorbed_def intro!: exI [of _ a])
  qed
qed

lemma absorb_all: "absorbed st m \<Longrightarrow> absorbed (foldl absorb st bs) (m @ bs)"
proof (induction bs arbitrary: st m)
  case (Cons b bs)
  from Cons.IH [OF absorb_step [OF Cons.prems, of b]] show ?case by simp
qed simp

lemma absorb_parts:
  "absorbed (fst st) m \<Longrightarrow> absorbed (fst (foldl absorb_part st parts)) (m @ concat parts) \<and>
   snd (foldl absorb_part st parts) = snd st + word_of_nat (length (concat parts))"
proof (induction parts arbitrary: st m)
  case (Cons p parts)
  have "absorbed (fst (absorb_part st p)) (m @ p)"
    using Cons.prems by (simp add: absorb_part_def absorb_all)
  from Cons.IH [OF this] show ?case by (simp add: absorb_part_def)
qed simp

lemma digest_eq_sha256: "digest parts = sha256_spec (concat parts)"
proof -
  let ?m = "concat parts"
  obtain h block fill total where run:
    "foldl absorb_part ((H0, replicate 64 0, 0), 0) parts = ((h, block, fill), total)"
    by (metis prod.exhaust)
  have "absorbed (H0, replicate 64 0, 0) []"
    by (simp add: absorbed_def blocks_def)
  from absorb_parts [of "((H0, replicate 64 0, 0), 0)", simplified, OF this, of parts]
  have abs: "absorbed (h, block, fill) ?m" and total: "total = word_of_nat (length ?m)"
    by (simp_all add: run)
  then obtain a r where m: "?m = a @ r" "length a mod 64 = 0" "length r = fill" "fill < 64"
      "length block = 64" "take fill block = r" "h = foldl compress H0 (blocks a)"
    by (auto simp: absorbed_def)
  define len where "len = to_be64 (word_of_nat (8 * length ?m))"
  have len: "to_be64 (total * 8) = len" "length len = 8"
    by (simp_all add: len_def total mult.commute)
  have fill: "length ?m mod 64 = fill" using m by (simp add: mod_add_left_eq flip: mod_add_left_eq)
  let ?b1 = "block[fill := 0x80]"
  have b1: "take (fill + 1) ?b1 = r @ [0x80]" "length ?b1 = 64"
    using m by (simp_all add: take_Suc_conv_app_nth)
  show ?thesis
  proof (cases "56 < fill + 1")
    case True
    let ?x = "r @ [0x80] @ replicate (63 - fill) 0" and ?y = "replicate 56 0 @ len"
    have k: "(119 - fill) mod 64 = (63 - fill) + 56"
      using True m(4) by (simp add: mod_if)
    have "pad ?m = a @ ?x @ ?y"
      unfolding pad_def fill k len_def [symmetric] by (simp add: m(1) replicate_add)
    then have "blocks (pad ?m) = blocks a @ [?x, ?y]"
      using m len by (simp add: blocks_append blocks_one del: append_assoc)
    moreover have "digest parts = concat (map to_be32 (compress (compress h ?x) ?y))"
      using True b1 m(3-5) len
      by (simp add: digest_def run splice_def Let_def)
    ultimately show ?thesis by (simp add: sha256_spec_def m(7))
  next
    case False
    let ?x = "r @ [0x80] @ replicate (55 - fill) 0 @ len"
    have k: "(119 - fill) mod 64 = 55 - fill"
      using False by (simp add: mod_if)
    have "pad ?m = a @ ?x"
      unfolding pad_def fill k len_def [symmetric] by (simp add: m(1))
    then have "blocks (pad ?m) = blocks a @ [?x]"
      using m len False by (simp add: blocks_append blocks_one)
    moreover have "digest parts = concat (map to_be32 (compress h ?x))"
      using False b1 m(3-5) len
      by (simp add: digest_def run splice_def Let_def)
    ultimately show ?thesis by (simp add: sha256_spec_def m(7))
  qed
qed

text \<open>
  C17. The digest the kernel computes is SHA-256 of the concatenation of its
  parts: hashing byte by byte through one block and padding in place equals
  padding the whole message and hashing it block by block.
\<close>
theorem digest_eq_spec: "digest parts = sha256_spec (concat parts)"
  by (rule digest_eq_sha256)

end
