(* ===== verification/Security.thy ===== *)
theory Security
  imports Namespace Sha256
begin

text \<open>
  The security checks of the kernel (\<^verbatim>\<open>kernel/src/sec/mod.rs\<close>, and the processes'
  contexts of \<^verbatim>\<open>kernel/src/task/mod.rs\<close>): which user and domain a process runs as, what
  it may do to a file or a kernel object, how refusals are logged, and the calls that
  change a process's user or domain or replace the policy. Terminals and the files
  behind the checks belong to other components and are arguments (\<open>sec_env\<close>).
\<close>

section \<open>State\<close>

record ctx =
  c_user :: u16
  c_domain :: u16

definition BOOT :: ctx where "BOOT = \<lparr>c_user = u16_MAX, c_domain = u16_MAX\<rparr>"
definition GONE :: ctx where "GONE = \<lparr>c_user = u16_MAX - 1, c_domain = u16_MAX - 1\<rparr>"

record proc =
  pr_ctx :: ctx
  pr_ns :: "namespace option"

record sec_state =
  POLICY :: "policy option"
  procs :: "nat \<Rightarrow> proc option"
  current_proc :: "nat option"
  BINDS :: binds
  LOG_SECOND :: u64
  LOG_COUNT :: u32
  console :: "string list"
  monotonic_ns :: u64

text \<open>
  The owner of the terminal at a path (\<^verbatim>\<open>pty::id_at\<close>, \<^verbatim>\<open>pty::user_of\<close>), whether the
  caller's session has a terminal (\<^verbatim>\<open>pty::for_session\<close>), the mode \<^verbatim>\<open>stat\<close> gives a path and
  what \<^verbatim>\<open>listdir\<close> writes into a buffer.
\<close>

record sec_env =
  pty_user :: "string \<Rightarrow> u32 option"
  has_session_tty :: bool
  stat_mode :: "string \<Rightarrow> u32 option"
  listdir :: "string \<Rightarrow> string"

section \<open>Contexts of processes\<close>

definition the_proc :: "sec_state \<Rightarrow> proc option" where
  "the_proc st = (case current_proc st of None \<Rightarrow> None | Some pid \<Rightarrow> procs st pid)"

definition sec_ctx :: "sec_state \<Rightarrow> ctx option" where
  "sec_ctx st = map_option pr_ctx (the_proc st)"

definition task_ns_rights :: "sec_state \<Rightarrow> string \<Rightarrow> rights" where
  "task_ns_rights st real = ns_rights (case the_proc st of None \<Rightarrow> None | Some p \<Rightarrow> pr_ns p) real"

definition set_sec_ctx :: "ctx \<Rightarrow> sec_state \<Rightarrow> sec_state" where
  "set_sec_ctx c st =
     (case (current_proc st, the_proc st) of
        (Some pid, Some p) \<Rightarrow> st\<lparr>procs := (procs st)(pid \<mapsto> p\<lparr>pr_ctx := c\<rparr>)\<rparr>
      | _ \<Rightarrow> st)"

definition sec_ctx_of :: "sec_state \<Rightarrow> nat \<Rightarrow> ctx option" where
  "sec_ctx_of st pid = map_option pr_ctx (procs st pid)"

definition remap_sec_ctx :: "(ctx \<Rightarrow> ctx) \<Rightarrow> sec_state \<Rightarrow> sec_state" where
  "remap_sec_ctx f st =
     st\<lparr>procs := (\<lambda>pid. map_option (\<lambda>p. p\<lparr>pr_ctx := f (pr_ctx p)\<rparr>) (procs st pid))\<rparr>"

section \<open>Checks\<close>

definition sec_current :: "sec_state \<Rightarrow> (policy \<times> u16 \<times> u16) option" where
  "sec_current st =
     (case sec_ctx st of
        None \<Rightarrow> None
      | Some ctx \<Rightarrow>
          (case POLICY st of
             None \<Rightarrow> None
           | Some p \<Rightarrow>
               let (u, d) = (if ctx = BOOT then p_boot p else (c_user ctx, c_domain ctx)) in Some (p, u, d)))"

definition current_uid :: "sec_state \<Rightarrow> u32" where
  "current_uid st = (case sec_current st of None \<Rightarrow> - 1 | Some (_, u, _) \<Rightarrow> ucast u)"

definition uid_of :: "sec_state \<Rightarrow> nat \<Rightarrow> u32 option" where
  "uid_of st pid =
     (case (sec_ctx_of st pid, POLICY st) of
        (Some ctx, Some p) \<Rightarrow> Some (ucast (if ctx = BOOT then fst (p_boot p) else c_user ctx))
      | _ \<Rightarrow> None)"

definition sec_canonical :: "sec_state \<Rightarrow> string \<Rightarrow> string" where
  "sec_canonical st real = (case canonical (BINDS st) real of None \<Rightarrow> real | Some p \<Rightarrow> p)"

definition label_at :: "sec_env \<Rightarrow> sec_state \<Rightarrow> policy \<Rightarrow> string \<Rightarrow> label" where
  "label_at env st p real =
     (let path = sec_canonical st real;
          label = label_of p path
      in if l_param label = None
         then let uid = (if path = ''/dev/tty''
                         then (if has_session_tty env then Some (current_uid st) else None)
                         else pty_user env path)
              in label\<lparr>l_param := (case uid of None \<Rightarrow> None
                   | Some u \<Rightarrow> map_option u_name (vec_get (p_users p) (unat u)))\<rparr>
         else label)"

definition synthetic :: "string \<Rightarrow> bool" where
  "synthetic real = starts_with_char CHR ''@'' real"

definition rights_in :: "sec_env \<Rightarrow> sec_state \<Rightarrow> string \<Rightarrow> rights \<Rightarrow> rights" where
  "rights_in env st real ns =
     (if synthetic real then READ
      else case sec_current st of
             None \<Rightarrow> ns
           | Some (p, u, d) \<Rightarrow> policy_rights p u d (label_at env st p real) AND ns)"

definition rights_on :: "sec_env \<Rightarrow> sec_state \<Rightarrow> string \<Rightarrow> rights" where
  "rights_on env st real = rights_in env st real (task_ns_rights st real)"

definition LOG_PER_SECOND :: u32 where "LOG_PER_SECOND = 8"

text \<open>The line a refusal writes.\<close>

definition refusal_line :: "policy \<Rightarrow> u16 \<Rightarrow> u16 \<Rightarrow> string \<Rightarrow> label \<Rightarrow> rights \<Rightarrow> string" where
  "refusal_line p u d what label need =
     (let user = (case vec_get (p_users p) (unat u) of None \<Rightarrow> ''?'' | Some x \<Rightarrow> u_name x);
          domain = (case vec_get (p_domains p) (unat d) of None \<Rightarrow> ''?'' | Some x \<Rightarrow> d_name x);
          kind = kind_name p (l_kind label);
          lab = (case l_param label of Some ow \<Rightarrow> kind @ ''('' @ ow @ '')'' | None \<Rightarrow> kind);
          verb = (if p_enforcing p then ''denied'' else ''would deny'')
      in ''sec: '' @ verb @ '' '' @ user @ ''/'' @ domain @ '' '' @ names need @ '' on '' @ what @
         '' ['' @ lab @ '']'' @ [CHR 0x0A])"

definition refused ::
  "sec_state \<Rightarrow> policy \<Rightarrow> u16 \<Rightarrow> u16 \<Rightarrow> string \<Rightarrow> label \<Rightarrow> rights \<Rightarrow> bool \<times> sec_state" where
  "refused st p u d what label need =
     (let second = monotonic_ns st div 1000000000;
          count = (if LOG_SECOND st \<noteq> second then 0 else LOG_COUNT st);
          st = st\<lparr>LOG_SECOND := second, LOG_COUNT := count + 1\<rparr>;
          st = (if count < LOG_PER_SECOND
                then st\<lparr>console := console st @ [refusal_line p u d what label need]\<rparr> else st)
      in (\<not> p_enforcing p, st))"

definition allowed_in :: "sec_env \<Rightarrow> sec_state \<Rightarrow> string \<Rightarrow> rights \<Rightarrow> rights \<Rightarrow> bool \<times> sec_state" where
  "allowed_in env st real need ns =
     (if synthetic real then (contains READ need, st)
      else if \<not> contains ns need then (False, st)
      else case sec_current st of
             None \<Rightarrow> (True, st)
           | Some (p, u, d) \<Rightarrow>
               let label = label_at env st p real in
               if contains (policy_rights p u d label) need then (True, st)
               else refused st p u d real label need)"

definition allowed :: "sec_env \<Rightarrow> sec_state \<Rightarrow> string \<Rightarrow> rights \<Rightarrow> bool \<times> sec_state" where
  "allowed env st real need = allowed_in env st real need (task_ns_rights st real)"

definition allowed_object :: "sec_state \<Rightarrow> string \<Rightarrow> string option \<Rightarrow> rights \<Rightarrow> bool \<times> sec_state" where
  "allowed_object st kind param need =
     (case sec_current st of
        None \<Rightarrow> (True, st)
      | Some (p, u, d) \<Rightarrow>
          let label = object_label p kind param in
          if contains (policy_rights p u d label) need then (True, st)
          else refused st p u d kind label need)"

definition may_signal :: "sec_state \<Rightarrow> ctx \<Rightarrow> bool \<times> sec_state" where
  "may_signal st target =
     (case POLICY st of
        None \<Rightarrow> (True, st)
      | Some p \<Rightarrow>
          let user = (if target = BOOT then fst (p_boot p) else c_user target);
              name = map_option u_name (vec_get (p_users p) (unat user))
          in allowed_object st ''proc'' name SIGNAL)"

section \<open>Renames\<close>

definition RENAME_LIST_MAX :: nat where "RENAME_LIST_MAX = 256 * 1024"
definition S_IFMT :: u32 where "S_IFMT = 0xF000"
definition S_IFDIR :: u32 where "S_IFDIR = 0x4000"

text \<open>The namespace's rights at a path, unless a directory fd stands in for them.\<close>

definition ns_at :: "sec_state \<Rightarrow> string \<Rightarrow> rights option \<Rightarrow> rights" where
  "ns_at st real fixed = (case fixed of Some r \<Rightarrow> r | None \<Rightarrow> task_ns_rights st real)"

definition is_dir :: "sec_env \<Rightarrow> string \<Rightarrow> bool" where
  "is_dir env path = (case stat_mode env path of None \<Rightarrow> False | Some m \<Rightarrow> m AND S_IFMT = S_IFDIR)"

text \<open>
  The names of one directory: \<open>None\<close> when one may not move, else the directories
  still to walk.
\<close>

fun rename_names ::
  "sec_env \<Rightarrow> string \<Rightarrow> rights option \<Rightarrow> string \<Rightarrow> rights option \<Rightarrow> string \<Rightarrow> string list \<Rightarrow>
   sec_state \<Rightarrow> string list \<Rightarrow> string list option \<times> sec_state" where
  "rename_names env old old_ns new new_ns rel [] st todo = (Some todo, st)"
| "rename_names env old old_ns new new_ns rel (name # rest) st todo =
     (if \<not> is_utf8 name then (None, st)
      else
        let sub = rel @ ''/'' @ name;
            from = old @ sub; to = new @ sub;
            (ok1, st1) = allowed_in env st from REMOVE (ns_at st from old_ns)
        in if \<not> ok1 then (None, st1)
           else let (ok2, st2) = allowed_in env st1 to CREATE (ns_at st1 to new_ns)
             in if \<not> ok2 then (None, st2)
                else rename_names env old old_ns new new_ns rel rest st2
                       (if is_dir env from then todo @ [sub] else todo))"

definition rename_dir ::
  "sec_env \<Rightarrow> string \<Rightarrow> rights option \<Rightarrow> string \<Rightarrow> rights option \<Rightarrow> string \<Rightarrow>
   sec_state \<Rightarrow> string list \<Rightarrow> string list option \<times> sec_state" where
  "rename_dir env old old_ns new new_ns rel st todo =
     (let ls = take RENAME_LIST_MAX (listdir env (old @ rel)); n = length ls in
      if n = RENAME_LIST_MAX \<or> (0 < n \<and> ls ! (n - 1) \<noteq> CHR 0x0A) then (None, st)
      else rename_names env old old_ns new new_ns rel
             (filter (\<lambda>s. s \<noteq> []) (split_char CHR 0x0A ls)) st todo)"

partial_function (option) rename_walk ::
  "sec_env \<Rightarrow> string \<Rightarrow> rights option \<Rightarrow> string \<Rightarrow> rights option \<Rightarrow>
   sec_state \<Rightarrow> string list \<Rightarrow> (bool \<times> sec_state) option" where
  [code]: "rename_walk env old old_ns new new_ns st todo =
     (if todo = [] then Some (True, st)
      else case rename_dir env old old_ns new new_ns (last todo) st (butlast todo) of
             (None, st) \<Rightarrow> Some (False, st)
           | (Some todo, st) \<Rightarrow> rename_walk env old old_ns new new_ns st todo)"

definition may_rename ::
  "sec_env \<Rightarrow> sec_state \<Rightarrow> string \<Rightarrow> rights option \<Rightarrow> string \<Rightarrow> rights option \<Rightarrow> bool \<Rightarrow>
   (bool \<times> sec_state) option" where
  "may_rename env st old old_ns new new_ns replaced =
     (let need_new = (if replaced then CREATE OR REMOVE else CREATE);
          (ok1, st1) = allowed_in env st old REMOVE (ns_at st old old_ns)
      in if \<not> ok1 then Some (False, st1)
         else let (ok2, st2) = allowed_in env st1 new need_new (ns_at st1 new new_ns)
           in if \<not> ok2 then Some (False, st2)
              else if \<not> is_dir env old then Some (True, st2)
              else rename_walk env old old_ns new new_ns st2 [[]])"

section \<open>Changing users, domains and the policy\<close>

definition remap_ctx :: "policy option \<Rightarrow> policy \<Rightarrow> ctx \<Rightarrow> ctx" where
  "remap_ctx old new c =
     (case old of
        None \<Rightarrow> c
      | Some old \<Rightarrow>
          if c = BOOT then c
          else
            let user = (case vec_get (p_users old) (unat (c_user c)) of
                  None \<Rightarrow> None | Some u \<Rightarrow> user_id new (u_name u));
                domain = (case vec_get (p_domains old) (unat (c_domain c)) of
                  None \<Rightarrow> None | Some d \<Rightarrow> domain_id new (d_name d))
            in case (user, domain) of
                 (Some user, Some domain) \<Rightarrow> \<lparr>c_user = user, c_domain = domain\<rparr>
               | _ \<Rightarrow> GONE)"

definition sec_load :: "sec_state \<Rightarrow> string \<Rightarrow> sec_state \<times> (unit, string) result" where
  "sec_load st text =
     (let (ok, st) = allowed_object st ''kernel.policy'' None WRITE in
      if \<not> ok then (st, Err ''not allowed'')
      else case parse text of
             Err e \<Rightarrow> (st, Err e)
           | Panic \<Rightarrow> (st, Panic)
           | Ok new \<Rightarrow> ((remap_sec_ctx (remap_ctx (POLICY st) new) st)\<lparr>POLICY := Some new\<rparr>, Ok ()))"

text \<open>
  \<^verbatim>\<open>init\<close>: the image's policy (\<open>None\<close> where there is none or it is not UTF-8), else
  the kernel's own copy, which is built in.
\<close>

definition sec_init :: "string \<Rightarrow> sec_state \<Rightarrow> string option \<Rightarrow> (sec_state, unit) result" where
  "sec_init builtin st text =
     (let note = (\<lambda>p st. st\<lparr>console := console st @
            [if p_enforcing p then ''security policy (enforcing)'' else ''security policy (permissive)''],
            POLICY := Some p\<rparr>);
          own = (\<lambda>st. case parse builtin of Ok p \<Rightarrow> Ok (note p st) | _ \<Rightarrow> Panic)
      in case text of
           None \<Rightarrow> own st
         | Some t \<Rightarrow>
             (case parse t of
                Ok p \<Rightarrow> Ok (note p st)
              | Err e \<Rightarrow> own (st\<lparr>console := console st @ [''/etc/policy: '' @ e @ ''; the kernel's policy instead'']\<rparr>)
              | Panic \<Rightarrow> Panic))"

text \<open>The comparison of digests that takes the same time whatever the first differing byte.\<close>

definition digest_eq :: "bytes \<Rightarrow> bytes \<Rightarrow> bool" where
  "digest_eq got want = (foldl (\<lambda>acc (a, b). acc OR (a XOR b)) 0 (zip got want) = 0)"

definition setuser :: "sec_state \<Rightarrow> string \<Rightarrow> bytes \<Rightarrow> (bool \<times> sec_state, unit) result" where
  "setuser st name password =
     (case POLICY st of
        None \<Rightarrow> Ok (False, st)
      | Some p \<Rightarrow>
          (case user_id p name of
             None \<Rightarrow> Ok (False, st)
           | Some uid \<Rightarrow>
               (case vec_get (p_users p) (unat uid) of
                  None \<Rightarrow> Panic
                | Some u \<Rightarrow>
                    let (ok, st) = (case u_password u of
                          Some (salt, want) \<Rightarrow> (digest_eq (digest [bytes_of salt, password]) want, st)
                        | None \<Rightarrow> allowed_object st ''kernel.users'' None WRITE)
                    in case login_domain p uid of
                         None \<Rightarrow> Ok (False, st)
                       | Some domain \<Rightarrow>
                           if \<not> ok then Ok (False, st)
                           else Ok (True, set_sec_ctx \<lparr>c_user = uid, c_domain = domain\<rparr> st))))"

definition exec_ctx :: "sec_state \<Rightarrow> string \<Rightarrow> ctx option" where
  "exec_ctx st real =
     (case (sec_ctx st, POLICY st) of
        (Some ctx, Some p) \<Rightarrow>
          (let user = (if ctx = BOOT then fst (p_boot p) else c_user ctx) in
           map_option (\<lambda>domain. \<lparr>c_user = user, c_domain = domain\<rparr>)
             (exec_domain p user (sec_canonical st real)))
      | _ \<Rightarrow> None)"

section \<open>What stat shows\<close>

definition mode_bits_in :: "sec_env \<Rightarrow> sec_state \<Rightarrow> string \<Rightarrow> bool \<Rightarrow> rights \<Rightarrow> u32" where
  "mode_bits_in env st real dir ns =
     (let r = rights_in env st real ns;
          m = 0;
          m = (if contains r READ then m OR 0x100 else m);
          m = (if contains r WRITE \<or> (dir \<and> contains r CREATE) then m OR 0x80 else m)
      in if contains r EXEC \<or> (dir \<and> contains r READ) then m OR 0x40 else m)"

definition mode_bits :: "sec_env \<Rightarrow> sec_state \<Rightarrow> string \<Rightarrow> bool \<Rightarrow> u32" where
  "mode_bits env st real dir = mode_bits_in env st real dir (task_ns_rights st real)"

definition owner_uid :: "sec_env \<Rightarrow> sec_state \<Rightarrow> string \<Rightarrow> u32" where
  "owner_uid env st real =
     (if synthetic real then 0
      else case POLICY st of
             None \<Rightarrow> 0
           | Some p \<Rightarrow>
               (case l_param (label_at env st p real) of
                  None \<Rightarrow> 0
                | Some ow \<Rightarrow> (case user_id p ow of None \<Rightarrow> 0 | Some u \<Rightarrow> ucast u)))"

definition ctx_text :: "sec_state \<Rightarrow> string" where
  "ctx_text st =
     (case sec_current st of
        Some (p, u, d) \<Rightarrow>
          (let user = (case vec_get (p_users p) (unat u) of None \<Rightarrow> ''-'' | Some x \<Rightarrow> u_name x);
               domain = (case vec_get (p_domains p) (unat d) of None \<Rightarrow> ''-'' | Some x \<Rightarrow> d_name x)
           in show_nat (unat u) @ '' '' @ user @ '' '' @ domain @ [CHR 0x0A])
      | None \<Rightarrow> ''- kernel kernel'' @ [CHR 0x0A])"

definition user_line :: "policy \<Rightarrow> nat \<times> user \<Rightarrow> string" where
  "user_line p iu =
     (let (i, u) = iu;
          groups = List.map_filter (\<lambda>g. vec_get (p_groups p) (unat g)) (u_groups u)
      in show_nat i @ '' '' @ u_name u @ '' '' @ u_home u @ '' '' @
         (case groups of [] \<Rightarrow> [] | g # gs \<Rightarrow> foldl (\<lambda>out w. out @ '','' @ w) g gs) @ [CHR 0x0A])"

definition users_text :: "sec_state \<Rightarrow> string" where
  "users_text st =
     (case POLICY st of None \<Rightarrow> [] | Some p \<Rightarrow> concat (map (user_line p) (enumerate 0 (p_users p))))"

section \<open>What the checks change\<close>

text \<open>A check changes the log at most.\<close>

definition same_but_log :: "sec_state \<Rightarrow> sec_state \<Rightarrow> bool" where
  "same_but_log st st' \<longleftrightarrow>
     POLICY st' = POLICY st \<and> procs st' = procs st \<and> current_proc st' = current_proc st \<and>
     BINDS st' = BINDS st \<and> monotonic_ns st' = monotonic_ns st"

lemma same_refl [simp]: "same_but_log st st"
  by (simp add: same_but_log_def)

lemma same_trans: "same_but_log a b \<Longrightarrow> same_but_log b c \<Longrightarrow> same_but_log a c"
  by (simp add: same_but_log_def)

lemma same_refused [simp]: "same_but_log st (snd (refused st p u d what label need))"
  by (simp add: same_but_log_def refused_def Let_def)

lemma same_allowed_in [simp]: "same_but_log st (snd (allowed_in env st real need ns))"
  by (auto simp: allowed_in_def Let_def split: option.split)

lemma same_allowed_object [simp]: "same_but_log st (snd (allowed_object st kind param need))"
  by (auto simp: allowed_object_def Let_def split: option.split)

lemma same_observe:
  assumes "same_but_log st st'"
  shows "sec_current st' = sec_current st" "label_at env st' p real = label_at env st p real"
    "task_ns_rights st' real = task_ns_rights st real" "POLICY st' = POLICY st" "procs st' = procs st"
    "current_proc st' = current_proc st" "the_proc st' = the_proc st"
    "ns_at st' real fixed = ns_at st real fixed"
proof -
  from assms have e: "POLICY st' = POLICY st" "procs st' = procs st" "current_proc st' = current_proc st"
    "BINDS st' = BINDS st" by (simp_all add: same_but_log_def)
  show p: "the_proc st' = the_proc st" unfolding the_proc_def e ..
  show c: "sec_current st' = sec_current st" unfolding sec_current_def sec_ctx_def p e ..
  show n: "task_ns_rights st' real = task_ns_rights st real" unfolding task_ns_rights_def p ..
  show "label_at env st' p real = label_at env st p real"
    unfolding label_at_def sec_canonical_def current_uid_def c e ..
  show "ns_at st' real fixed = ns_at st real fixed" unfolding ns_at_def n ..
qed (use assms in \<open>simp_all add: same_but_log_def\<close>)

lemma fst_refused [simp]: "fst (refused st p u d what label need) \<longleftrightarrow> \<not> p_enforcing p"
  by (simp add: refused_def Let_def)

lemma allowed_in_fst:
  "fst (allowed_in env st real need ns) \<longleftrightarrow>
     (if synthetic real then contains READ need
      else contains ns need \<and>
        (case sec_current st of None \<Rightarrow> True
         | Some (p, u, d) \<Rightarrow> contains (policy_rights p u d (label_at env st p real)) need \<or> \<not> p_enforcing p))"
  by (simp add: allowed_in_def Let_def split: option.split)

section \<open>Mediation\<close>


definition demo_env :: sec_env where
  "demo_env = \<lparr>pty_user = (\<lambda>_. None), has_session_tty = False, stat_mode = (\<lambda>_. None), listdir = (\<lambda>_. [])\<rparr>"

definition demo_sec :: sec_state where
  "demo_sec = \<lparr>POLICY = Some tiny_parsed,
     procs = (\<lambda>pid. if pid = 1 then Some \<lparr>pr_ctx = \<lparr>c_user = 0, c_domain = 0\<rparr>, pr_ns = None\<rparr> else None),
     current_proc = Some 1, BINDS = [], LOG_SECOND = 0, LOG_COUNT = 0, console = [], monotonic_ns = 0\<rparr>"

lemma demo_current: "sec_current demo_sec = Some (tiny_parsed, 0, 0)"
  by (simp add: sec_current_def sec_ctx_def the_proc_def demo_sec_def BOOT_def u16_MAX_def)

lemma demo_enforcing: "p_enforcing tiny_parsed"
  by (simp add: tiny_parsed_def)


section \<open>Refusals in the log\<close>

text \<open>Refusals one after another, while the clock stays in one second.\<close>

fun refuse_all :: "sec_state \<Rightarrow> (policy \<times> u16 \<times> u16 \<times> string \<times> label \<times> rights) list \<Rightarrow> sec_state" where
  "refuse_all st [] = st"
| "refuse_all st ((p, u, d, what, label, need) # rs) = refuse_all (snd (refused st p u d what label need)) rs"

lemma refuse_all_console:
  assumes "length rs + unat (LOG_COUNT st) < 2 ^ 32" and "LOG_SECOND st = monotonic_ns st div 1000000000"
  shows "length (console (refuse_all st rs)) = length (console st) + min (length rs) (8 - unat (LOG_COUNT st))"
  using assms
proof (induction rs arbitrary: st)
  case (Cons r rs)
  obtain p u d what label need where r: "r = (p, u, d, what, label, need)" by (cases r)
  let ?st = "snd (refused st p u d what label need)"
  have c: "LOG_COUNT ?st = LOG_COUNT st + 1" and s: "LOG_SECOND ?st = monotonic_ns ?st div 1000000000"
    and n: "length (console ?st) = length (console st) + (if LOG_COUNT st < 8 then 1 else 0)"
    using Cons.prems(2) by (simp_all add: refused_def Let_def LOG_PER_SECOND_def)
  have u: "unat (LOG_COUNT st + 1) = unat (LOG_COUNT st) + 1"
    using Cons.prems(1) by (simp add: unat_plus_if')
  have "LOG_COUNT st < 8 \<longleftrightarrow> unat (LOG_COUNT st) < 8"
    by (simp add: word_less_nat_alt)
  with Cons.IH [of ?st] Cons.prems(1) s n u show ?case
    by (auto simp: r c min_def)
qed simp



section \<open>Users and domains\<close>

lemma position_word16:
  assumes "position f xs = Some i" and "length xs \<le> 65536"
  shows "unat (word_of_nat i :: u16) = i"
  using position_less [OF assms(1)] assms(2) by (simp add: unat_of_nat)

lemma user_id_exact:
  assumes "user_id p name = Some uid" and "length (p_users p) \<le> 65536"
  shows "\<exists>u. vec_get (p_users p) (unat uid) = Some u \<and> u_name u = name"
proof -
  from assms(1) obtain i where i: "position (\<lambda>u. u_name u = name) (p_users p) = Some i" "uid = word_of_nat i"
    by (auto simp: user_id_def)
  with position_Some [OF i(1)] position_word16 [OF i(1) assms(2)] show ?thesis by simp
qed

lemma domain_id_exact:
  assumes "domain_id p name = Some d" and "length (p_domains p) \<le> 65536"
  shows "\<exists>x. vec_get (p_domains p) (unat d) = Some x \<and> d_name x = name"
proof -
  from assms(1) obtain i where i: "position (\<lambda>d. d_name d = name) (p_domains p) = Some i" "d = word_of_nat i"
    by (auto simp: domain_id_def)
  with position_Some [OF i(1)] position_word16 [OF i(1) assms(2)] show ?thesis by simp
qed

definition POLICY_MAX :: nat where "POLICY_MAX = 64 * 1024"

lemma parsed_small:
  assumes "parse t = Ok p" and "length t \<le> POLICY_MAX"
  shows "length (p_users p) \<le> 32768" and "length (p_domains p) \<le> 32768"
  using parse_sizes [OF assms(1)] assms(2) by (simp_all add: POLICY_MAX_def)

text \<open>The names of the user and the domain of a context.\<close>

definition ctx_names :: "policy \<Rightarrow> ctx \<Rightarrow> (string \<times> string) option" where
  "ctx_names p c =
     (case (vec_get (p_users p) (unat (c_user c)), vec_get (p_domains p) (unat (c_domain c))) of
        (Some u, Some d) \<Rightarrow> Some (u_name u, d_name d) | _ \<Rightarrow> None)"

definition has_names :: "policy \<Rightarrow> (string \<times> string) option \<Rightarrow> bool" where
  "has_names p n = (case n of None \<Rightarrow> False
     | Some (u, d) \<Rightarrow> u \<in> u_name ` set (p_users p) \<and> d \<in> d_name ` set (p_domains p))"

lemma remap_ctx_names:
  assumes "length (p_users new) \<le> 32768" and "length (p_domains new) \<le> 32768" and "c \<noteq> BOOT"
  shows "if has_names new (ctx_names old c) then ctx_names new (remap_ctx (Some old) new c) = ctx_names old c
    else remap_ctx (Some old) new c = GONE"
proof -
  have u: "user_id new n = None \<longleftrightarrow> n \<notin> u_name ` set (p_users new)" for n
    by (auto simp: user_id_def position_None)
  have d: "domain_id new n = None \<longleftrightarrow> n \<notin> d_name ` set (p_domains new)" for n
    by (auto simp: domain_id_def position_None)
  show ?thesis
  proof (cases "ctx_names old c")
    case None
    then show ?thesis
      using assms(3) by (auto simp: ctx_names_def has_names_def remap_ctx_def Let_def split: option.splits)
  next
    case (Some nn)
    obtain un dn where nn: "nn = (un, dn)" by (cases nn)
    with Some obtain x y where xy: "vec_get (p_users old) (unat (c_user c)) = Some x" "u_name x = un"
      "vec_get (p_domains old) (unat (c_domain c)) = Some y" "d_name y = dn"
      by (auto simp: ctx_names_def split: option.splits)
    have r: "remap_ctx (Some old) new c = (case (user_id new un, domain_id new dn) of
        (Some user, Some domain) \<Rightarrow> \<lparr>c_user = user, c_domain = domain\<rparr> | _ \<Rightarrow> GONE)"
      unfolding remap_ctx_def option.case xy Let_def using assms(3) by simp
    show ?thesis
    proof (cases "user_id new un")
      case None
      then show ?thesis using u [of un] by (simp add: Some nn has_names_def r)
    next
      case user: (Some i)
      show ?thesis
      proof (cases "domain_id new dn")
        case None
        then show ?thesis using d [of dn] user by (simp add: Some nn has_names_def r)
      next
        case dom: (Some j)
        from user_id_exact [OF user] assms(1) obtain x' where
          x': "vec_get (p_users new) (unat i) = Some x'" "u_name x' = un" by auto
        from domain_id_exact [OF dom] assms(2) obtain y' where
          y': "vec_get (p_domains new) (unat j) = Some y'" "d_name y' = dn" by auto
        have "ctx_names new \<lparr>c_user = i, c_domain = j\<rparr> = Some (un, dn)"
          unfolding ctx_names_def ctx.select_convs x'(1) y'(1) by (simp add: x'(2) y'(2))
        then show ?thesis
          using u [of un] d [of dn] user dom by (simp add: Some nn has_names_def r)
      qed
    qed
  qed
qed


text \<open>A state whose policy may be replaced, for the witness.\<close>

definition open_sec :: sec_state where
  "open_sec = demo_sec\<lparr>POLICY := Some (tiny_parsed\<lparr>p_enforcing := False\<rparr>)\<rparr>"


section \<open>Entering a user\<close>

lemma digest_eq_iff:
  assumes "length a = length b"
  shows "digest_eq a b \<longleftrightarrow> a = b"
proof -
  have fold: "foldl (\<lambda>acc (a, b). acc OR (a XOR b)) acc (zip a b) = 0 \<longleftrightarrow> acc = 0 \<and> a = b"
    if "length a = length b" for a b :: bytes and acc
    using that
  proof (induction a b arbitrary: acc rule: list_induct2)
    case (Cons x xs y ys)
    have "acc OR (x XOR y) = 0 \<longleftrightarrow> acc = 0 \<and> x = y"
      by (auto simp: or_eq_0_iff) (metis xor_self_eq xor.assoc xor.left_neutral xor.right_neutral)
    with Cons show ?case by auto
  qed simp
  show ?thesis by (simp add: digest_eq_def fold [OF assms])
qed

lemma length_digest: "length (digest parts) = 32"
proof -
  have "length (foldl compress h bs) = 8" if "length h = 8" for h bs
    using that
  proof (induction bs arbitrary: h)
    case (Cons b bs)
    have "length (compress h b) = 8"
      using Cons.prems by (simp add: compress_def Let_def case_prod_unfold)
    with Cons.IH show ?case by simp
  qed simp
  then have "length (foldl compress H0 (blocks (pad (concat parts)))) = 8"
    by (simp add: H0_def)
  then show ?thesis
    by (simp add: digest_eq_sha256 sha256_spec_def length_concat o_def sum_list_triv)
qed

text \<open>When the policy lets the process become user \<open>name\<close> with \<open>password\<close>, and in which domain.\<close>

definition may_enter :: "sec_state \<Rightarrow> policy \<Rightarrow> string \<Rightarrow> bytes \<Rightarrow> u16 \<Rightarrow> u16 \<Rightarrow> bool" where
  "may_enter st p name password uid domain \<longleftrightarrow>
     user_id p name = Some uid \<and> login_domain p uid = Some domain \<and>
     (\<exists>u. vec_get (p_users p) (unat uid) = Some u \<and> u_name u = name \<and>
        (case u_password u of
           Some (salt, want) \<Rightarrow> sha256_spec (bytes_of salt @ password) = want
         | None \<Rightarrow> fst (allowed_object st ''kernel.users'' None WRITE)))"

text \<open>
  C27. A user is entered only with the password or by a trusted domain. Under a
  policy the parser accepted, \<^verbatim>\<open>setuser\<close> never panics; it succeeds iff the user exists,
  has a login domain, and either the SHA-256 of the salt and the password is the stored
  digest or, for a user without a password, the caller's domain may write
  \<^verbatim>\<open>kernel.users\<close>; then the calling process alone changes, to that user in the login
  domain, and when it fails nothing but the log does.
\<close>
theorem setuser_exact:
  assumes "parse t = Ok p" and "length t \<le> POLICY_MAX" and pol: "POLICY st = Some p"
  shows "\<exists>ok st'. setuser st name password = Ok (ok, st') \<and>
    (ok \<longleftrightarrow> (\<exists>uid domain. may_enter st p name password uid domain)) \<and>
    (\<not> ok \<longrightarrow> same_but_log st st') \<and>
    (ok \<longrightarrow> (\<exists>uid domain st1. may_enter st p name password uid domain \<and> same_but_log st st1 \<and>
       st' = set_sec_ctx \<lparr>c_user = uid, c_domain = domain\<rparr> st1))"
proof (cases "user_id p name")
  case None
  then show ?thesis by (intro exI [of _ False]) (simp add: setuser_def pol may_enter_def)
next
  case (Some uid)
  have "length (p_users p) \<le> 65536" using parsed_small [OF assms(1,2)] by simp
  from user_id_exact [OF Some this] obtain u where
    u: "vec_get (p_users p) (unat uid) = Some u" "u_name u = name" by blast
  then have pw: "pw_ok u" using parse_sizes(3) [OF assms(1)] by (auto dest: vec_get_in_set)
  define r where "r = (case u_password u of
      Some (salt, want) \<Rightarrow> (digest_eq (digest [bytes_of salt, password]) want, st)
    | None \<Rightarrow> allowed_object st ''kernel.users'' None WRITE)"
  have same: "same_but_log st (snd r)"
    by (simp add: r_def split: option.split)
  have ok: "fst r \<longleftrightarrow> (case u_password u of
      Some (salt, want) \<Rightarrow> sha256_spec (bytes_of salt @ password) = want
    | None \<Rightarrow> fst (allowed_object st ''kernel.users'' None WRITE))"
    using pw length_digest
    by (auto simp: r_def pw_ok_def digest_eq_iff digest_eq_sha256 [symmetric] split: option.split)
       (simp_all add: digest_eq_sha256)
  have enter: "may_enter st p name password i d \<longleftrightarrow> i = uid \<and> login_domain p uid = Some d \<and> fst r" for i d
    unfolding may_enter_def Some using ok u by (auto simp: vec_get_def split: if_splits)
  have "setuser st name password = (case login_domain p uid of
      None \<Rightarrow> Ok (False, snd r)
    | Some d \<Rightarrow> if \<not> fst r then Ok (False, snd r)
        else Ok (True, set_sec_ctx \<lparr>c_user = uid, c_domain = d\<rparr> (snd r)))"
    unfolding setuser_def pol option.case Some u(1) r_def [symmetric] by (simp add: case_prod_unfold)
  then show ?thesis
    using same by (cases "login_domain p uid") (auto simp: enter)
qed

definition entry_policy :: string where
  "entry_policy = ''user r login: a'' @ [CHR 0x0A] @ ''boot r a'' @ [CHR 0x0A] @ ''domain a: kernel.users {write}''"

definition entry_parsed :: policy where
  "entry_parsed = (case parse entry_policy of Ok p \<Rightarrow> p | _ \<Rightarrow> tiny_parsed)"

lemma parse_entry_policy: "parse entry_policy = Ok entry_parsed"
  by code_simp

definition entry_sec :: sec_state where
  "entry_sec = demo_sec\<lparr>POLICY := Some entry_parsed\<rparr>"

theorem setuser_exact_witness:
  "\<exists>st1. setuser entry_sec ''r'' [] = Ok (True, set_sec_ctx \<lparr>c_user = 0, c_domain = 0\<rparr> st1) \<and>
     same_but_log entry_sec st1"
proof -
  have m: "length entry_policy \<le> POLICY_MAX" by (simp add: entry_policy_def POLICY_MAX_def)
  have p: "POLICY entry_sec = Some entry_parsed" by (simp add: entry_sec_def)
  have u: "user_id entry_parsed ''r'' = Some 0" by code_simp
  have d: "login_domain entry_parsed 0 = Some 0" by code_simp
  have v: "map_option u_password (vec_get (p_users entry_parsed) (unat (0 :: u16))) = Some None"
    "map_option u_name (vec_get (p_users entry_parsed) (unat (0 :: u16))) = Some ''r''"
    by code_simp+
  have a: "fst (allowed_object entry_sec ''kernel.users'' None WRITE)" by code_simp
  have "may_enter entry_sec entry_parsed ''r'' [] uid domain \<longleftrightarrow> uid = 0 \<and> domain = 0" for uid domain
    unfolding may_enter_def u using d v a by auto
  with setuser_exact [OF parse_entry_policy m p, of "''r''" "[]"] show ?thesis by auto
qed

section \<open>Exec transitions\<close>

lemma find_rev_last:
  "List.find P (rev xs) = (if filter P xs = [] then None else Some (last (filter P xs)))"
  by (induction xs rule: rev_induct) auto

text \<open>
  C28. Exec moves a process only where its user may go: the new context keeps the
  user, and its domain is the one the last \<^verbatim>\<open>exec\<close> rule matching the program's canonical
  path names, which the user's \<^verbatim>\<open>domains:\<close> list; without such a rule the context stays.
\<close>
theorem exec_ctx_exact:
  assumes "POLICY st = Some p" and "sec_ctx st = Some ctx"
    and "user = (if ctx = BOOT then fst (p_boot p) else c_user ctx)"
    and "rules = filter (\<lambda>e. pattern_matches (e_pattern e) (sec_canonical st real) \<noteq> None) (p_execs p)"
  shows "exec_ctx st real = Some c \<longleftrightarrow>
    rules \<noteq> [] \<and> c = \<lparr>c_user = user, c_domain = e_domain (last rules)\<rparr> \<and>
    (\<exists>u. vec_get (p_users p) (unat user) = Some u \<and> e_domain (last rules) \<in> set (u_domains u))"
proof -
  let ?P = "\<lambda>e. pattern_matches (e_pattern e) (sec_canonical st real) \<noteq> None"
  have f: "List.find ?P (rev (p_execs p)) = (if rules = [] then None else Some (last rules))"
    unfolding assms(4) by (rule find_rev_last)
  have "exec_domain p user (sec_canonical st real) =
      (if rules = [] then None else case vec_get (p_users p) (unat user) of None \<Rightarrow> None
       | Some u \<Rightarrow> if e_domain (last rules) \<in> set (u_domains u) then Some (e_domain (last rules)) else None)"
    unfolding exec_domain_def f by simp
  then show ?thesis
    unfolding exec_ctx_def assms(1,2) prod.case option.case Let_def assms(3) [symmetric]
    by (auto split: option.splits if_splits)
qed

theorem exec_ctx_exact_witness:
  "exec_ctx (demo_sec\<lparr>POLICY := Some (tiny_parsed\<lparr>p_execs := [\<lparr>e_pattern = [Rest], e_domain = 0\<rparr>]\<rparr>)\<rparr>) ''/b'' =
     Some \<lparr>c_user = 0, c_domain = 0\<rparr>"
proof -
  let ?p = "tiny_parsed\<lparr>p_execs := [\<lparr>e_pattern = [Rest], e_domain = 0\<rparr>]\<rparr>"
  let ?st = "demo_sec\<lparr>POLICY := Some ?p\<rparr>"
  have "sec_ctx ?st = Some \<lparr>c_user = 0, c_domain = 0\<rparr>"
    by (simp add: sec_ctx_def the_proc_def demo_sec_def)
  then show ?thesis
    using exec_ctx_exact [of ?st ?p "\<lparr>c_user = 0, c_domain = 0\<rparr>" 0 "[\<lparr>e_pattern = [Rest], e_domain = 0\<rparr>]" "''/b''"
      "\<lparr>c_user = 0, c_domain = 0\<rparr>"]
    by (simp add: BOOT_def u16_MAX_def pattern_matches_def tiny_parsed_def vec_get_def new_user_def)
qed

section \<open>Renaming a tree\<close>

text \<open>
  The names of a directory, and the directories a rename walks: \<open>rel\<close> and every
  directory beneath it, as paths relative to the renamed one.
\<close>

definition dir_entries :: "sec_env \<Rightarrow> string \<Rightarrow> string list" where
  "dir_entries env dir = filter (\<lambda>s. s \<noteq> []) (split_char CHR 0x0A (listdir env dir))"

inductive dirs_below :: "sec_env \<Rightarrow> string \<Rightarrow> string \<Rightarrow> string \<Rightarrow> bool" for env old where
  here: "dirs_below env old rel rel"
| child: "name \<in> set (dir_entries env (old @ rel)) \<Longrightarrow> is_dir env (old @ rel @ ''/'' @ name) \<Longrightarrow>
    dirs_below env old (rel @ ''/'' @ name) sub \<Longrightarrow> dirs_below env old rel sub"

text \<open>No directory path beneath \<open>rel\<close> is longer than \<open>d\<close>.\<close>

primrec depth_le :: "sec_env \<Rightarrow> string \<Rightarrow> nat \<Rightarrow> string \<Rightarrow> bool" where
  "depth_le env old 0 rel \<longleftrightarrow>
     (\<forall>name \<in> set (dir_entries env (old @ rel)). \<not> is_dir env (old @ rel @ ''/'' @ name))"
| "depth_le env old (Suc d) rel \<longleftrightarrow>
     (\<forall>name \<in> set (dir_entries env (old @ rel)).
        is_dir env (old @ rel @ ''/'' @ name) \<longrightarrow> depth_le env old d (rel @ ''/'' @ name))"

text \<open>The kernel could read the whole listing, and each name in it may leave and arrive.\<close>

definition listing_complete :: "sec_env \<Rightarrow> string \<Rightarrow> bool" where
  "listing_complete env dir \<longleftrightarrow>
     length (listdir env dir) < RENAME_LIST_MAX \<and>
     (listdir env dir \<noteq> [] \<longrightarrow> last (listdir env dir) = CHR 0x0A)"

definition name_moves ::
  "sec_env \<Rightarrow> sec_state \<Rightarrow> string \<Rightarrow> rights option \<Rightarrow> string \<Rightarrow> rights option \<Rightarrow> string \<Rightarrow> string \<Rightarrow> bool" where
  "name_moves env st old old_ns new new_ns rel name \<longleftrightarrow>
     is_utf8 name \<and>
     fst (allowed_in env st (old @ rel @ ''/'' @ name) REMOVE (ns_at st (old @ rel @ ''/'' @ name) old_ns)) \<and>
     fst (allowed_in env st (new @ rel @ ''/'' @ name) CREATE (ns_at st (new @ rel @ ''/'' @ name) new_ns))"

definition dir_moves ::
  "sec_env \<Rightarrow> sec_state \<Rightarrow> string \<Rightarrow> rights option \<Rightarrow> string \<Rightarrow> rights option \<Rightarrow> string \<Rightarrow> bool" where
  "dir_moves env st old old_ns new new_ns rel \<longleftrightarrow>
     listing_complete env (old @ rel) \<and>
     list_all (name_moves env st old old_ns new new_ns rel) (dir_entries env (old @ rel))"

lemma allowed_in_same:
  "same_but_log st st' \<Longrightarrow> fst (allowed_in env st' real need ns) = fst (allowed_in env st real need ns)"
  by (simp add: allowed_in_fst same_observe split: option.split)

lemma name_moves_same:
  "same_but_log st st' \<Longrightarrow>
     name_moves env st' old old_ns new new_ns rel name = name_moves env st old old_ns new new_ns rel name"
  by (simp add: name_moves_def allowed_in_same same_observe(8))

lemma dir_moves_same:
  "same_but_log st st' \<Longrightarrow>
     dir_moves env st' old old_ns new new_ns rel = dir_moves env st old old_ns new new_ns rel"
  by (simp add: dir_moves_def name_moves_same list_all_iff)

lemma rename_names_exact:
  "\<exists>st'. same_but_log st st' \<and>
     rename_names env old old_ns new new_ns rel names0 st todo =
       (if list_all (name_moves env st old old_ns new new_ns rel) names0
        then Some (todo @ map (\<lambda>name. rel @ ''/'' @ name)
               (filter (\<lambda>name. is_dir env (old @ rel @ ''/'' @ name)) names0))
        else None, st')"
proof (induction names0 arbitrary: st todo)
  case Nil
  then show ?case by auto
next
  case (Cons name rest)
  let ?from = "old @ rel @ ''/'' @ name" and ?to = "new @ rel @ ''/'' @ name"
  define a where "a = allowed_in env st ?from REMOVE (ns_at st ?from old_ns)"
  define b where "b = allowed_in env (snd a) ?to CREATE (ns_at (snd a) ?to new_ns)"
  have sa: "same_but_log st (snd a)" by (simp add: a_def)
  have sb: "same_but_log st (snd b)" by (rule same_trans [OF sa]) (simp add: b_def)
  have fb: "fst b = fst (allowed_in env st ?to CREATE (ns_at st ?to new_ns))"
    by (simp add: b_def allowed_in_same [OF sa] same_observe(8) [OF sa])
  have m: "name_moves env st old old_ns new new_ns rel name \<longleftrightarrow> is_utf8 name \<and> fst a \<and> fst b"
    unfolding name_moves_def fb a_def ..
  have step: "rename_names env old old_ns new new_ns rel (name # rest) st todo =
      (if \<not> is_utf8 name then (None, st) else if \<not> fst a then (None, snd a)
       else if \<not> fst b then (None, snd b)
       else rename_names env old old_ns new new_ns rel rest (snd b)
              (if is_dir env ?from then todo @ [rel @ ''/'' @ name] else todo))"
    by (simp add: case_prod_unfold Let_def a_def b_def)
  show ?case
  proof (cases "name_moves env st old old_ns new new_ns rel name")
    case False
    then show ?thesis unfolding step using sa sb by (auto simp: m)
  next
    case True
    from Cons.IH [of "snd b" "if is_dir env ?from then todo @ [rel @ ''/'' @ name] else todo"]
    show ?thesis unfolding step using True sb
      by (auto simp: m name_moves_same [OF sb] intro: same_trans)
  qed
qed

lemma rename_dir_exact:
  "\<exists>st'. same_but_log st st' \<and>
     rename_dir env old old_ns new new_ns rel st todo =
       (if dir_moves env st old old_ns new new_ns rel
        then Some (todo @ map (\<lambda>name. rel @ ''/'' @ name)
               (filter (\<lambda>name. is_dir env (old @ rel @ ''/'' @ name)) (dir_entries env (old @ rel))))
        else None, st')"
proof (cases "listing_complete env (old @ rel)")
  case True
  let ?ls = "listdir env (old @ rel)"
  from True have t: "take RENAME_LIST_MAX ?ls = ?ls" "length ?ls \<noteq> RENAME_LIST_MAX"
    by (simp_all add: listing_complete_def)
  have "\<not> (0 < length ?ls \<and> ?ls ! (length ?ls - 1) \<noteq> CHR 0x0A)"
    using True by (auto simp: listing_complete_def last_conv_nth)
  with rename_names_exact [of st env old old_ns new new_ns rel "dir_entries env (old @ rel)" todo] True t
  show ?thesis
    unfolding rename_dir_def Let_def t(1) by (simp add: dir_moves_def dir_entries_def)
next
  case False
  let ?ls = "listdir env (old @ rel)"
  from False consider "RENAME_LIST_MAX \<le> length ?ls"
    | "length ?ls < RENAME_LIST_MAX" "?ls \<noteq> []" "last ?ls \<noteq> CHR 0x0A"
    using not_less by (auto simp: listing_complete_def)
  then have "rename_dir env old old_ns new new_ns rel st todo = (None, st)"
    by cases (simp_all add: rename_dir_def Let_def last_conv_nth)
  then show ?thesis using False by (auto simp: dir_moves_def)
qed

lemma dirs_below_iff:
  "dirs_below env old rel sub \<longleftrightarrow> sub = rel \<or>
     (\<exists>c \<in> set (map (\<lambda>name. rel @ ''/'' @ name)
        (filter (\<lambda>name. is_dir env (old @ rel @ ''/'' @ name)) (dir_entries env (old @ rel)))).
      dirs_below env old c sub)"
  by (subst dirs_below.simps) auto

text \<open>
  The walk takes a tree off the top of its stack, or refuses; by the depth of the
  tree and, within a directory, down the list of its subdirectories.
\<close>

definition pops ::
  "sec_env \<Rightarrow> sec_state \<Rightarrow> string \<Rightarrow> rights option \<Rightarrow> string \<Rightarrow> rights option \<Rightarrow> string list \<Rightarrow> string list \<Rightarrow> bool" where
  "pops env st old old_ns new new_ns todo rels \<longleftrightarrow>
     (\<exists>st'. same_but_log st st' \<and>
        rename_walk env old old_ns new new_ns st (todo @ rels) =
          (if \<forall>rel \<in> set rels. \<forall>sub. dirs_below env old rel sub \<longrightarrow> dir_moves env st old old_ns new new_ns sub
           then rename_walk env old old_ns new new_ns st' todo else Some (False, st')))"

definition pops_all ::
  "sec_env \<Rightarrow> string \<Rightarrow> rights option \<Rightarrow> string \<Rightarrow> rights option \<Rightarrow> string \<Rightarrow> bool" where
  "pops_all env old old_ns new new_ns rel \<longleftrightarrow> (\<forall>st todo. pops env st old old_ns new new_ns todo [rel])"

lemma pops_list:
  assumes "\<And>st todo rel. rel \<in> set rels \<Longrightarrow> pops env st old old_ns new new_ns todo [rel]"
  shows "pops env st old old_ns new new_ns todo rels"
  using assms
proof (induction rels arbitrary: st rule: rev_induct)
  case Nil
  then show ?case by (auto simp: pops_def intro: exI [of _ st])
next
  case (snoc r rels)
  let ?ok = "\<lambda>st rel. \<forall>sub. dirs_below env old rel sub \<longrightarrow> dir_moves env st old old_ns new new_ns sub"
  have "pops env st old old_ns new new_ns (todo @ rels) [r]" using snoc.prems by simp
  then obtain st1 where 1: "same_but_log st st1"
    "rename_walk env old old_ns new new_ns st (todo @ rels @ [r]) =
       (if ?ok st r then rename_walk env old old_ns new new_ns st1 (todo @ rels) else Some (False, st1))"
    by (auto simp: pops_def)
  have "pops env st1 old old_ns new new_ns todo rels" by (rule snoc.IH) (use snoc.prems in simp)
  then obtain st2 where 2: "same_but_log st1 st2"
    "rename_walk env old old_ns new new_ns st1 (todo @ rels) =
       (if \<forall>rel \<in> set rels. ?ok st rel then rename_walk env old old_ns new new_ns st2 todo else Some (False, st2))"
    by (auto simp: pops_def dir_moves_same [OF 1(1)])
  show ?case
  proof (cases "?ok st r")
    case True
    show ?thesis unfolding pops_def
      by (rule exI [of _ st2]) (use True 1 2 same_trans in auto)
  next
    case False
    show ?thesis unfolding pops_def
      by (rule exI [of _ st1]) (use False 1 in auto)
  qed
qed

definition subdirs :: "sec_env \<Rightarrow> string \<Rightarrow> string \<Rightarrow> string list" where
  "subdirs env old rel = map (\<lambda>name. rel @ ''/'' @ name)
     (filter (\<lambda>name. is_dir env (old @ rel @ ''/'' @ name)) (dir_entries env (old @ rel)))"

lemma all_below_iff:
  "(\<forall>sub. dirs_below env old rel sub \<longrightarrow> P sub) \<longleftrightarrow>
     P rel \<and> (\<forall>c \<in> set (subdirs env old rel). \<forall>sub. dirs_below env old c sub \<longrightarrow> P sub)"
  (is "?l \<longleftrightarrow> ?r")
proof
  assume ?l
  then show ?r by (metis dirs_below_iff subdirs_def)
next
  assume ?r
  then show ?l by (metis dirs_below_iff subdirs_def)
qed

lemma pops_dir:
  assumes IH: "\<And>c. c \<in> set (subdirs env old rel) \<Longrightarrow> pops_all env old old_ns new new_ns c"
  shows "pops env st old old_ns new new_ns todo [rel]"
proof -
  let ?walk = "rename_walk env old old_ns new new_ns" and ?ds = "subdirs env old rel"
    and ?moves = "dir_moves env st old old_ns new new_ns rel"
  let ?ok = "\<lambda>rel. \<forall>sub. dirs_below env old rel sub \<longrightarrow> dir_moves env st old old_ns new new_ns sub"
  have ok: "?ok rel \<longleftrightarrow> ?moves \<and> (\<forall>c \<in> set ?ds. ?ok c)"
    by (rule all_below_iff)
  from rename_dir_exact [of st env old old_ns new new_ns rel todo] obtain st1 where
    1: "same_but_log st st1"
    "rename_dir env old old_ns new new_ns rel st todo = (if ?moves then Some (todo @ ?ds) else None, st1)"
    unfolding subdirs_def by blast
  have w: "?walk st (todo @ [rel]) = (if ?moves then ?walk st1 (todo @ ?ds) else Some (False, st1))"
    by (subst rename_walk.simps) (cases ?moves; simp add: 1)
  have "pops env st1 old old_ns new new_ns todo ?ds"
    by (rule pops_list) (use IH in \<open>simp add: pops_all_def\<close>)
  then obtain st2 where 2: "same_but_log st1 st2"
    "?walk st1 (todo @ ?ds) = (if \<forall>c \<in> set ?ds. ?ok c then ?walk st2 todo else Some (False, st2))"
    unfolding pops_def dir_moves_same [OF 1(1)] by blast
  define st' where "st' = (if ?moves then st2 else st1)"
  have "?walk st (todo @ [rel]) = (if ?ok rel then ?walk st' todo else Some (False, st'))"
    unfolding w ok 2(2) st'_def by (cases ?moves; simp only: simp_thms if_True if_False)
  then have "?walk st (todo @ [rel]) = (if \<forall>r \<in> set [rel]. ?ok r then ?walk st' todo else Some (False, st'))"
    by (simp only: list.set ball_simps simp_thms)
  moreover have "same_but_log st st'"
    using 1(1) same_trans [OF 1(1) 2(1)] by (simp add: st'_def)
  ultimately show ?thesis
    unfolding pops_def by (intro exI [of _ st'] conjI)
qed

lemma pops_tree:
  "depth_le env old d rel \<Longrightarrow> pops_all env old old_ns new new_ns rel"
proof (induction d arbitrary: rel)
  case 0
  then have "subdirs env old rel = []" by (simp add: subdirs_def)
  then show ?case unfolding pops_all_def by (auto intro: pops_dir)
next
  case (Suc d)
  then have "c \<in> set (subdirs env old rel) \<Longrightarrow> pops_all env old old_ns new new_ns c" for c
    by (auto simp: subdirs_def)
  then show ?case unfolding pops_all_def [of env old old_ns new new_ns rel] by (auto intro: pops_dir)
qed



end
