(* ===== verification/Pipe.thy ===== *)
theory Pipe
  imports Prelude
begin

text \<open>
  The kernel's pipes (\<^verbatim>\<open>kernel/src/pipe.rs\<close>): a table of ring buffers, the
  anonymous ones in the slots below \<open>ANON_PIPES\<close> and the named FIFOs above, the
  open ends of each and the wake-ups a change sends. The lock of the table
  makes every operation atomic, so an operation is a function of the table. The
  lemmas show that the ring is a bounded queue of bytes, that a reader gets
  exactly what writers put in, in order, and that no blocked end is left asleep.
\<close>

section \<open>State\<close>

definition ANON_PIPES :: nat where "ANON_PIPES = 64"
definition MAX_PIPES :: nat where "MAX_PIPES = ANON_PIPES + 24"
definition PIPE_BUF :: nat where "PIPE_BUF = 4096"

lemmas pipe_consts = ANON_PIPES_def MAX_PIPES_def PIPE_BUF_def

record pipe =
  pi_data :: bytes
  pi_head :: nat
  pi_len :: nat
  pi_readers :: u8
  pi_writers :: u8
  pi_write_closed :: bool
  pi_named :: bool
  pi_read_opens :: u32
  pi_write_opens :: u32

text \<open>
  The wake-ups a pipe sends: \<^verbatim>\<open>task::wake(task::key_pipe(id))\<close> and
  \<^verbatim>\<open>task::wake_any()\<close>.
\<close>

datatype wake = Wake_pipe nat | Wake_any

record pipe_table =
  PIPES :: "pipe option list"
  CHANGES :: "u64 list"
  woken :: "wake list"

definition pipes_init :: pipe_table where
  "pipes_init = \<lparr>PIPES = replicate MAX_PIPES None, CHANGES = replicate MAX_PIPES 0, woken = []\<rparr>"

text \<open>\<^verbatim>\<open>pipes.get_mut(id).and_then(|s| s.as_mut())\<close> and the write through it.\<close>

definition pipe_at :: "pipe_table \<Rightarrow> nat \<Rightarrow> pipe option" where
  "pipe_at st i = (if i < length (PIPES st) then PIPES st ! i else None)"

definition put_pipe :: "nat \<Rightarrow> pipe option \<Rightarrow> pipe_table \<Rightarrow> pipe_table" where
  "put_pipe i p st = st\<lparr>PIPES := (PIPES st)[i := p]\<rparr>"

section \<open>Wake-ups\<close>

definition changed :: "nat \<Rightarrow> pipe_table \<Rightarrow> pipe_table" where
  "changed i st =
     (if i < length (CHANGES st) then st\<lparr>CHANGES := (CHANGES st)[i := CHANGES st ! i + 1]\<rparr> else st)"

definition wake_any :: "pipe_table \<Rightarrow> pipe_table" where
  "wake_any st = st\<lparr>woken := woken st @ [Wake_any]\<rparr>"

definition notify :: "nat \<Rightarrow> pipe_table \<Rightarrow> pipe_table" where
  "notify i st = (let st = changed i st in wake_any (st\<lparr>woken := woken st @ [Wake_pipe i]\<rparr>))"

definition changes :: "pipe_table \<Rightarrow> nat \<Rightarrow> u64" where
  "changes st i = (if i < length (CHANGES st) then CHANGES st ! i else 0)"

section \<open>Slots and ends\<close>

definition pipe_free :: "pipe_table \<Rightarrow> nat \<Rightarrow> pipe_table" where
  "pipe_free st i = (if i < length (PIPES st) then put_pipe i None st else st)"

definition new_pipe :: "bool \<Rightarrow> pipe" where
  "new_pipe nm =
     \<lparr>pi_data = replicate PIPE_BUF 0, pi_head = 0, pi_len = 0, pi_readers = 0, pi_writers = 0,
      pi_write_closed = False, pi_named = nm, pi_read_opens = 0, pi_write_opens = 0\<rparr>"

definition alloc_in :: "pipe_table \<Rightarrow> nat \<Rightarrow> nat \<Rightarrow> bool \<Rightarrow> pipe_table \<times> nat option" where
  "alloc_in st from to nm =
     (case List.find (\<lambda>i. PIPES st ! i = None) [from ..< min to (length (PIPES st))] of
        None \<Rightarrow> (st, None)
      | Some i \<Rightarrow> (put_pipe i (Some (new_pipe nm)) st, Some i))"

definition alloc :: "pipe_table \<Rightarrow> pipe_table \<times> nat option" where
  "alloc st = alloc_in st 0 ANON_PIPES False"

definition alloc_named :: "pipe_table \<Rightarrow> pipe_table \<times> nat option" where
  "alloc_named st = alloc_in st ANON_PIPES MAX_PIPES True"

definition add_reader :: "pipe_table \<Rightarrow> nat \<Rightarrow> pipe_table \<times> bool" where
  "add_reader st i =
     (case pipe_at st i of
        None \<Rightarrow> (st, False)
      | Some p \<Rightarrow> (put_pipe i (Some (p\<lparr>pi_readers := saturating_inc (pi_readers p)\<rparr>)) st, True))"

definition add_writer :: "pipe_table \<Rightarrow> nat \<Rightarrow> pipe_table \<times> bool" where
  "add_writer st i =
     (case pipe_at st i of
        None \<Rightarrow> (st, False)
      | Some p \<Rightarrow> (put_pipe i (Some (p\<lparr>pi_writers := saturating_inc (pi_writers p)\<rparr>)) st, True))"

definition release_if_idle :: "nat \<Rightarrow> pipe_table \<Rightarrow> pipe_table" where
  "release_if_idle i st =
     (case pipe_at st i of
        None \<Rightarrow> st
      | Some p \<Rightarrow>
          if pi_readers p \<noteq> 0 \<or> pi_writers p \<noteq> 0 then st
          else if pi_named p
          then put_pipe i (Some (p\<lparr>pi_head := 0, pi_len := 0, pi_write_closed := False\<rparr>)) st
          else put_pipe i None st)"

definition drop_reader :: "pipe_table \<Rightarrow> nat \<Rightarrow> pipe_table \<times> bool" where
  "drop_reader st i =
     (case pipe_at st i of
        None \<Rightarrow> (st, False)
      | Some p \<Rightarrow>
          (let p = p\<lparr>pi_readers := saturating_dec (pi_readers p)\<rparr>;
               last = (pi_readers p = 0);
               p = (if last then p\<lparr>pi_write_closed := True\<rparr> else p)
           in (notify i (release_if_idle i (put_pipe i (Some p) st)), last)))"

definition drop_writer :: "pipe_table \<Rightarrow> nat \<Rightarrow> pipe_table \<times> bool" where
  "drop_writer st i =
     (case pipe_at st i of
        None \<Rightarrow> (st, False)
      | Some p \<Rightarrow>
          (let p = p\<lparr>pi_writers := saturating_dec (pi_writers p)\<rparr>;
               last = (pi_writers p = 0);
               p = (if last then p\<lparr>pi_write_closed := True\<rparr> else p)
           in (notify i (release_if_idle i (put_pipe i (Some p) st)), last)))"

definition fifo_unlink :: "pipe_table \<Rightarrow> nat \<Rightarrow> pipe_table" where
  "fifo_unlink st i =
     (case pipe_at st i of
        None \<Rightarrow> st
      | Some p \<Rightarrow>
          if pi_readers p = 0 \<and> pi_writers p = 0 then put_pipe i None st
          else put_pipe i (Some (p\<lparr>pi_named := False\<rparr>)) st)"

definition fifo_ends :: "pipe_table \<Rightarrow> nat \<Rightarrow> (u8 \<times> u8 \<times> u32 \<times> u32) option" where
  "fifo_ends st i =
     map_option (\<lambda>p. (pi_readers p, pi_writers p, pi_read_opens p, pi_write_opens p)) (pipe_at st i)"

definition fifo_attach :: "pipe_table \<Rightarrow> nat \<Rightarrow> bool \<Rightarrow> bool \<Rightarrow> pipe_table \<times> bool" where
  "fifo_attach st i rd wr =
     (case pipe_at st i of
        None \<Rightarrow> (st, False)
      | Some p \<Rightarrow>
          (let p = (if rd then p\<lparr>pi_readers := saturating_inc (pi_readers p),
                                pi_read_opens := pi_read_opens p + 1\<rparr> else p);
               p = (if wr then p\<lparr>pi_writers := saturating_inc (pi_writers p),
                                pi_write_opens := pi_write_opens p + 1\<rparr> else p);
               p = p\<lparr>pi_write_closed := (pi_writers p = 0)\<rparr>
           in (notify i (put_pipe i (Some p) st), True)))"

section \<open>Reading and writing\<close>

text \<open>The copy out of the ring: at most \<open>want\<close> bytes, in two pieces where it wraps.\<close>

definition ring_read :: "pipe \<Rightarrow> nat \<Rightarrow> (pipe \<times> bytes, unit) result" where
  "ring_read p want =
     (let n = min want (pi_len p) in
      bind_result (usize_sub PIPE_BUF (pi_head p)) (\<lambda>room.
        let first = min n room in
        bind_result (get_range (pi_head p) (pi_head p + first) (pi_data p)) (\<lambda>a.
        bind_result (get_range 0 (n - first) (pi_data p)) (\<lambda>b.
          Ok (p\<lparr>pi_head := (pi_head p + n) mod PIPE_BUF, pi_len := pi_len p - n\<rparr>, a @ b)))))"

text \<open>The copy into the ring: as many bytes of \<open>d\<close> as fit.\<close>

definition ring_write :: "pipe \<Rightarrow> bytes \<Rightarrow> (pipe \<times> nat, unit) result" where
  "ring_write p d =
     bind_result (usize_sub PIPE_BUF (pi_len p)) (\<lambda>room.
       let n = min (length d) room;
           tail = (pi_head p + pi_len p) mod PIPE_BUF;
           first = min n (PIPE_BUF - tail)
       in bind_result (put_range tail (tail + first) (take first d) (pi_data p)) (\<lambda>buf.
          bind_result (put_range 0 (n - first) (slice first n d) buf) (\<lambda>buf.
            Ok (p\<lparr>pi_data := buf, pi_len := pi_len p + n\<rparr>, n))))"

text \<open>
  \<^verbatim>\<open>read\<close> into a buffer of \<open>want\<close> bytes: what it returns and the bytes it stored
  at the start of the buffer.
\<close>

definition pipe_read ::
  "pipe_table \<Rightarrow> nat \<Rightarrow> nat \<Rightarrow> (pipe_table \<times> nat option \<times> bytes, unit) result" where
  "pipe_read st i want =
     (case pipe_at st i of
        None \<Rightarrow> Ok (st, Some usize_MAX, [])
      | Some p \<Rightarrow>
          if pi_len p = 0 then Ok (st, if pi_write_closed p then Some 0 else None, [])
          else
            let was_full = (PIPE_BUF \<le> pi_len p) in
            bind_result (ring_read p want) (\<lambda>(p, out).
              let st = put_pipe i (Some p) st in
              Ok (if was_full then notify i st else st, Some (length out), out)))"

definition pipe_write :: "pipe_table \<Rightarrow> nat \<Rightarrow> bytes \<Rightarrow> (pipe_table \<times> nat, unit) result" where
  "pipe_write st i d =
     (case pipe_at st i of
        None \<Rightarrow> Ok (st, usize_MAX)
      | Some p \<Rightarrow>
          if pi_readers p = 0 then Ok (st, usize_MAX)
          else
            let was_empty = (pi_len p = 0) in
            bind_result (ring_write p d) (\<lambda>(p, n).
              let st = put_pipe i (Some p) st in
              if n = 0 then Ok (st, n)
              else if was_empty then Ok (notify i st, n)
              else Ok (wake_any (changed i st), n)))"

definition read_closed :: "pipe_table \<Rightarrow> nat \<Rightarrow> bool" where
  "read_closed st i = (case pipe_at st i of None \<Rightarrow> False | Some p \<Rightarrow> pi_write_closed p)"

definition readers_gone :: "pipe_table \<Rightarrow> nat \<Rightarrow> bool" where
  "readers_gone st i = (case pipe_at st i of None \<Rightarrow> False | Some p \<Rightarrow> pi_readers p = 0)"

definition write_would_block :: "pipe_table \<Rightarrow> nat \<Rightarrow> bool" where
  "write_would_block st i =
     (case pipe_at st i of None \<Rightarrow> False | Some p \<Rightarrow> PIPE_BUF \<le> pi_len p \<and> \<not> pi_write_closed p)"

definition read_would_block :: "pipe_table \<Rightarrow> nat \<Rightarrow> bool" where
  "read_would_block st i =
     (case pipe_at st i of None \<Rightarrow> False | Some p \<Rightarrow> pi_len p = 0 \<and> \<not> pi_write_closed p)"

section \<open>The ring is a bounded queue\<close>

definition wf_ring :: "pipe \<Rightarrow> bool" where
  "wf_ring p \<longleftrightarrow> length (pi_data p) = PIPE_BUF \<and> pi_head p < PIPE_BUF \<and> pi_len p \<le> PIPE_BUF"

definition contents :: "pipe \<Rightarrow> bytes" where
  "contents p = map (\<lambda>k. pi_data p ! ((pi_head p + k) mod PIPE_BUF)) [0 ..< pi_len p]"

lemma length_contents [simp]: "length (contents p) = pi_len p"
  by (simp add: contents_def)

lemma PIPE_BUF_pos [simp]: "0 < PIPE_BUF"
  by (simp add: PIPE_BUF_def)

lemma mod_wrap:
  assumes "h < (m :: nat)" and "k \<le> m"
  shows "(h + k) mod m = (if h + k < m then h + k else h + k - m)"
  using assms by (auto simp: mod_if)

text \<open>Reading takes the first bytes of the queue.\<close>

lemma ring_read_spec:
  assumes "wf_ring p"
  obtains p' where "ring_read p want = Ok (p', take want (contents p))"
    and "wf_ring p'" and "contents p' = drop want (contents p)"
    and "p' = p\<lparr>pi_head := pi_head p', pi_len := pi_len p - min want (pi_len p)\<rparr>"
proof -
  define n first where "n = min want (pi_len p)" and "first = min n (PIPE_BUF - pi_head p)"
  let ?h = "pi_head p" and ?d = "pi_data p"
  let ?p = "p\<lparr>pi_head := (?h + n) mod PIPE_BUF, pi_len := pi_len p - n\<rparr>"
  from assms have h: "?h < PIPE_BUF" and l: "pi_len p \<le> PIPE_BUF" and d: "length ?d = PIPE_BUF"
    by (auto simp: wf_ring_def)
  have n: "n \<le> want" "n \<le> pi_len p" "n \<le> PIPE_BUF" and f: "first \<le> n" "?h + first \<le> PIPE_BUF"
    using h l by (auto simp: n_def first_def)
  have two: "slice ?h (?h + first) ?d @ slice 0 (n - first) ?d = take want (contents p)"
  proof (rule nth_equalityI)
    show "length (slice ?h (?h + first) ?d @ slice 0 (n - first) ?d) = length (take want (contents p))"
      using n f d by (simp add: n_def)
  next
    fix k assume "k < length (slice ?h (?h + first) ?d @ slice 0 (n - first) ?d)"
    then have k: "k < n" using n f d by simp
    then have "(?h + k) mod PIPE_BUF = (if ?h + k < PIPE_BUF then ?h + k else ?h + k - PIPE_BUF)"
      using h n by (intro mod_wrap) auto
    moreover have "k < first \<longleftrightarrow> ?h + k < PIPE_BUF" and "\<not> k < first \<Longrightarrow> ?h + k - PIPE_BUF = k - first"
      using k h by (auto simp: first_def)
    ultimately show "(slice ?h (?h + first) ?d @ slice 0 (n - first) ?d) ! k = take want (contents p) ! k"
      using n f d k by (simp add: nth_append slice_simps contents_def)
  qed
  have run: "ring_read p want = Ok (?p, take want (contents p))"
    using h n f d two
    by (simp add: ring_read_def usize_sub_def get_range_def flip: n_def first_def)
  have wf: "wf_ring ?p"
    using h l d by (simp add: wf_ring_def)
  have c: "contents ?p = drop want (contents p)"
  proof (rule nth_equalityI)
    fix k assume "k < length (contents ?p)"
    then have "k < pi_len p - n" by simp
    moreover from this have "n = want" by (simp add: n_def)
    ultimately have "want + k < pi_len p" "k < pi_len p - want" "n = want" by simp_all
    then show "contents ?p ! k = drop want (contents p) ! k"
      by (simp add: contents_def mod_add_left_eq add.assoc)
  qed (simp add: n_def)
  show ?thesis
    by (rule that [OF run wf c]) (simp add: n_def)
qed

text \<open>Where the bytes of a write land: after the tail, then from the start of the ring.\<close>

lemma ring_index:
  fixes h l n k B t j f :: nat
  assumes "h < B" "l + n \<le> B" "k < l + n"
    and t: "t = (if h + l < B then h + l else h + l - B)"
    and j: "j = (if h + k < B then h + k else h + k - B)"
    and f: "f = min n (B - t)"
  shows "k < l \<Longrightarrow> \<not> j < n - f \<and> \<not> (t \<le> j \<and> j < t + f)"
    and "\<not> k < l \<Longrightarrow> (t \<le> j \<and> j - t = k - l \<and> j < t + f \<and> \<not> j < n - f) \<or>
      (j < n - f \<and> f + j = k - l)"
proof -
  show "\<not> j < n - f \<and> \<not> (t \<le> j \<and> j < t + f)" if "k < l"
    using assms that by (cases "h + l < B"; cases "h + k < B"; cases "n \<le> B - t") auto
  show "(t \<le> j \<and> j - t = k - l \<and> j < t + f \<and> \<not> j < n - f) \<or> (j < n - f \<and> f + j = k - l)" if "\<not> k < l"
    using assms that by (cases "h + l < B"; cases "h + k < B"; cases "n \<le> B - t") auto
qed

text \<open>Writing appends as much as fits.\<close>

lemma ring_write_spec:
  assumes "wf_ring p"
  obtains p' where "ring_write p d = Ok (p', min (length d) (PIPE_BUF - pi_len p))"
    and "wf_ring p'" and "contents p' = contents p @ take (PIPE_BUF - pi_len p) d"
    and "p' = p\<lparr>pi_data := pi_data p', pi_len := pi_len p + min (length d) (PIPE_BUF - pi_len p)\<rparr>"
proof -
  define n t where "n = min (length d) (PIPE_BUF - pi_len p)"
    and "t = (pi_head p + pi_len p) mod PIPE_BUF"
  define first where "first = min n (PIPE_BUF - t)"
  let ?h = "pi_head p" and ?b = "pi_data p"
  define b1 where "b1 = splice t (take first d) ?b"
  define b2 where "b2 = splice 0 (slice first n d) b1"
  let ?p = "p\<lparr>pi_data := b2, pi_len := pi_len p + n\<rparr>"
  from assms have h: "?h < PIPE_BUF" and l: "pi_len p \<le> PIPE_BUF" and b: "length ?b = PIPE_BUF"
    by (auto simp: wf_ring_def)
  have n: "n \<le> length d" "pi_len p + n \<le> PIPE_BUF" and t: "t < PIPE_BUF"
    using l by (auto simp: n_def t_def)
  then have f: "first \<le> n" "t + first \<le> PIPE_BUF" "n - first \<le> PIPE_BUF"
    by (auto simp: first_def)
  have lb1: "length b1 = PIPE_BUF" and lb2: "length b2 = PIPE_BUF"
    using n f b by (simp_all add: b1_def b2_def)
  have run: "ring_write p d = Ok (?p, n)"
    using l n f b lb1
    by (simp add: ring_write_def usize_sub_def put_range_def
        flip: n_def t_def first_def b1_def b2_def)
  have nth: "b2 ! ((?h + k) mod PIPE_BUF) =
      (if k < pi_len p then ?b ! ((?h + k) mod PIPE_BUF) else d ! (k - pi_len p))"
    if k: "k < pi_len p + n" for k
  proof -
    let ?j = "(?h + k) mod PIPE_BUF"
    have j: "?j = (if ?h + k < PIPE_BUF then ?h + k else ?h + k - PIPE_BUF)"
      using h k n by (intro mod_wrap) auto
    have t': "t = (if ?h + pi_len p < PIPE_BUF then ?h + pi_len p else ?h + pi_len p - PIPE_BUF)"
      unfolding t_def using h l by (rule mod_wrap)
    have jl: "?j < PIPE_BUF" by simp
    have b2j: "b2 ! ?j = (if ?j < n - first then d ! (first + ?j)
        else if t \<le> ?j \<and> ?j < t + first then d ! (?j - t) else ?b ! ?j)"
      using n f b lb1 jl by (auto simp: b2_def b1_def slice_simps)
    show ?thesis
    proof (cases "k < pi_len p")
      case True
      then show ?thesis
        using ring_index(1) [OF h n(2) k t' j first_def True] by (auto simp: b2j)
    next
      case False
      then show ?thesis
        using ring_index(2) [OF h n(2) k t' j first_def False] by (auto simp: b2j)
    qed
  qed
  have wf: "wf_ring ?p"
    using h n lb2 by (simp add: wf_ring_def)
  have c: "contents ?p = contents p @ take (PIPE_BUF - pi_len p) d"
    by (rule nth_equalityI) (auto simp: contents_def nth nth_append n_def)
  show ?thesis
    by (rule that [OF run [unfolded n_def] wf [unfolded n_def] c [unfolded n_def]]) simp
qed


section \<open>The queue a pipe promises\<close>

text \<open>
  The interface the rest of the kernel relies on: a bounded queue of bytes that
  takes as much as fits and gives the oldest bytes first.
\<close>

locale byte_queue =
  fixes inv :: "'s \<Rightarrow> bool"
    and abs :: "'s \<Rightarrow> bytes"
    and cap :: nat
    and enq :: "'s \<Rightarrow> bytes \<Rightarrow> ('s \<times> nat, unit) result"
    and deq :: "'s \<Rightarrow> nat \<Rightarrow> ('s \<times> bytes, unit) result"
  assumes bounded: "inv s \<Longrightarrow> length (abs s) \<le> cap"
    and enq_law: "inv s \<Longrightarrow> \<exists>s'. enq s d = Ok (s', min (length d) (cap - length (abs s))) \<and> inv s' \<and>
      abs s' = abs s @ take (cap - length (abs s)) d"
    and deq_law: "inv s \<Longrightarrow> \<exists>s'. deq s n = Ok (s', take n (abs s)) \<and> inv s' \<and> abs s' = drop n (abs s)"
begin

lemma enq_conserves:
  assumes "inv s" and "enq s d = Ok (s', n)"
  shows "inv s' \<and> n = min (length d) (cap - length (abs s)) \<and> abs s' = abs s @ take n d"
  using enq_law [OF assms(1), of d] assms(2) by (auto simp: min_def)

lemma deq_conserves:
  assumes "inv s" and "deq s n = Ok (s', out)"
  shows "inv s' \<and> length out = min n (length (abs s)) \<and> abs s = out @ abs s'"
  using deq_law [OF assms(1), of n] assms(2) by auto

lemma no_panic: "inv s \<Longrightarrow> enq s d \<noteq> Panic \<and> deq s n \<noteq> Panic"
  using enq_law [of s d] deq_law [of s n] by auto

text \<open>What is written into an empty queue and fits is read back.\<close>

lemma round_trip:
  assumes "inv s" and "abs s = []" and "length d \<le> cap"
  shows "\<exists>s' s''. enq s d = Ok (s', length d) \<and> deq s' (length d) = Ok (s'', d) \<and> abs s'' = []"
proof -
  from enq_law [OF assms(1), of d] assms obtain s' where
    "enq s d = Ok (s', length d)" "inv s'" "abs s' = d" by auto
  with deq_law [OF \<open>inv s'\<close>, of "length d"] show ?thesis by auto
qed

end

interpretation ring: byte_queue wf_ring contents PIPE_BUF ring_write ring_read
proof
  fix p d n assume wf: "wf_ring p"
  then show "length (contents p) \<le> PIPE_BUF"
    by (simp add: wf_ring_def)
  show "\<exists>p'. ring_write p d = Ok (p', min (length d) (PIPE_BUF - length (contents p))) \<and> wf_ring p' \<and>
      contents p' = contents p @ take (PIPE_BUF - length (contents p)) d"
    by (rule ring_write_spec [OF wf, of d]) auto
  show "\<exists>p'. ring_read p n = Ok (p', take n (contents p)) \<and> wf_ring p' \<and>
      contents p' = drop n (contents p)"
    by (rule ring_read_spec [OF wf, of n]) auto
qed

section \<open>The table\<close>

text \<open>
  Every slot holds a well-formed ring, and no named FIFO sits in the anonymous
  pool.
\<close>

definition wf_pipes :: "pipe_table \<Rightarrow> bool" where
  "wf_pipes st \<longleftrightarrow>
     length (PIPES st) = MAX_PIPES \<and> length (CHANGES st) = MAX_PIPES \<and>
     (\<forall>i p. pipe_at st i = Some p \<longrightarrow> wf_ring p \<and> (i < ANON_PIPES \<longrightarrow> \<not> pi_named p))"

lemma pipe_at_put [simp]:
  "pipe_at (put_pipe i p st) j = (if i = j \<and> i < length (PIPES st) then p else pipe_at st j)"
  by (auto simp: pipe_at_def put_pipe_def)

lemma pipe_at_length: "pipe_at st i = Some p \<Longrightarrow> i < length (PIPES st)"
  by (auto simp: pipe_at_def split: if_splits)

lemma pipe_at_notify [simp]:
  "pipe_at (notify i st) j = pipe_at st j" "pipe_at (changed i st) j = pipe_at st j"
  "pipe_at (wake_any st) j = pipe_at st j"
  by (simp_all add: notify_def changed_def wake_any_def pipe_at_def Let_def)

lemma length_tables [simp]:
  "length (PIPES (put_pipe i p st)) = length (PIPES st)"
  "length (CHANGES (put_pipe i p st)) = length (CHANGES st)"
  "length (PIPES (notify i st)) = length (PIPES st)"
  "length (CHANGES (notify i st)) = length (CHANGES st)"
  "length (PIPES (changed i st)) = length (PIPES st)"
  "length (CHANGES (changed i st)) = length (CHANGES st)"
  "length (PIPES (wake_any st)) = length (PIPES st)"
  "length (CHANGES (wake_any st)) = length (CHANGES st)"
  by (simp_all add: notify_def changed_def wake_any_def put_pipe_def Let_def)

lemma wf_pipes_notify [simp]:
  "wf_pipes (notify i st) \<longleftrightarrow> wf_pipes st" "wf_pipes (changed i st) \<longleftrightarrow> wf_pipes st"
  "wf_pipes (wake_any st) \<longleftrightarrow> wf_pipes st"
  by (simp_all add: wf_pipes_def)

lemma wf_put:
  assumes "wf_pipes st" and "\<And>p. po = Some p \<Longrightarrow> wf_ring p \<and> (i < ANON_PIPES \<longrightarrow> \<not> pi_named p)"
  shows "wf_pipes (put_pipe i po st)"
  using assms by (auto simp: wf_pipes_def)

lemma wf_put_same:
  assumes "wf_pipes st" and "pipe_at st i = Some p"
    and "pi_data p' = pi_data p" "pi_head p' = pi_head p" "pi_len p' = pi_len p" "pi_named p' = pi_named p"
  shows "wf_pipes (put_pipe i (Some p') st)"
  using assms by (intro wf_put) (auto simp: wf_pipes_def wf_ring_def)

lemma wf_init: "wf_pipes pipes_init"
  by (auto simp: wf_pipes_def pipes_init_def pipe_at_def)

lemma wf_new_pipe: "wf_ring (new_pipe nm)"
  by (simp add: new_pipe_def wf_ring_def)

lemma wf_alloc_in:
  assumes "wf_pipes st" and "nm \<Longrightarrow> ANON_PIPES \<le> from"
  shows "wf_pipes (fst (alloc_in st from to nm))"
  using assms
  by (auto simp: alloc_in_def new_pipe_def [of nm] wf_ring_def split: option.split
      intro!: wf_put dest!: find_Some_in_set)

lemma wf_release: "wf_pipes st \<Longrightarrow> wf_pipes (release_if_idle i st)"
  by (auto simp: release_if_idle_def split: option.split intro!: wf_put)
     (auto simp: wf_pipes_def wf_ring_def)

text \<open>One call on the table; the calls that only look at it do not appear.\<close>

datatype pipe_op =
    Alloc | Alloc_named | Free nat | Add_reader nat | Add_writer nat | Drop_reader nat | Drop_writer nat
  | Fifo_unlink nat | Fifo_attach nat bool bool | Read nat nat | Write nat bytes

fun pipe_call :: "pipe_table \<Rightarrow> pipe_op \<Rightarrow> (pipe_table, unit) result" where
  "pipe_call st Alloc = Ok (fst (alloc st))"
| "pipe_call st Alloc_named = Ok (fst (alloc_named st))"
| "pipe_call st (Free i) = Ok (pipe_free st i)"
| "pipe_call st (Add_reader i) = Ok (fst (add_reader st i))"
| "pipe_call st (Add_writer i) = Ok (fst (add_writer st i))"
| "pipe_call st (Drop_reader i) = Ok (fst (drop_reader st i))"
| "pipe_call st (Drop_writer i) = Ok (fst (drop_writer st i))"
| "pipe_call st (Fifo_unlink i) = Ok (fifo_unlink st i)"
| "pipe_call st (Fifo_attach i rd wr) = Ok (fst (fifo_attach st i rd wr))"
| "pipe_call st (Read i want) = bind_result (pipe_read st i want) (\<lambda>(st, _). Ok st)"
| "pipe_call st (Write i d) = bind_result (pipe_write st i d) (\<lambda>(st, _). Ok st)"

inductive pipes_reachable :: "pipe_table \<Rightarrow> bool" where
  init: "pipes_reachable pipes_init"
| call: "pipes_reachable st \<Longrightarrow> pipe_call st op = Ok st' \<Longrightarrow> pipes_reachable st'"

text \<open>Reads and writes of the table, in terms of the queue.\<close>

lemma pipe_read_spec:
  assumes "wf_pipes st" and p: "pipe_at st i = Some p" and ne: "pi_len p \<noteq> 0"
  obtains st' p' where
    "pipe_read st i want = Ok (st', Some (min want (pi_len p)), take want (contents p))"
    and "pipe_at st' i = Some p'" and "contents p' = drop want (contents p)"
    and "p' = p\<lparr>pi_head := pi_head p', pi_len := pi_len p - min want (pi_len p)\<rparr>"
    and "\<forall>j. j \<noteq> i \<longrightarrow> pipe_at st' j = pipe_at st j" and "wf_pipes st'"
    and "woken st' = woken st @ (if pi_len p = PIPE_BUF then [Wake_pipe i, Wake_any] else [])"
proof -
  from assms have wf: "wf_ring p" and anon: "i < ANON_PIPES \<longrightarrow> \<not> pi_named p"
    by (auto simp: wf_pipes_def)
  obtain p' where r: "ring_read p want = Ok (p', take want (contents p))" and wf': "wf_ring p'"
    and c: "contents p' = drop want (contents p)"
    and p': "p' = p\<lparr>pi_head := pi_head p', pi_len := pi_len p - min want (pi_len p)\<rparr>"
    by (rule ring_read_spec [OF wf])
  have "pi_named p' = pi_named p" by (subst p') simp
  then have wf2: "wf_pipes (put_pipe i (Some p') st)"
    using wf' anon by (intro wf_put [OF assms(1)]) auto
  define st' where "st' = (if PIPE_BUF \<le> pi_len p then notify i (put_pipe i (Some p') st) else put_pipe i (Some p') st)"
  have full: "PIPE_BUF \<le> pi_len p \<longleftrightarrow> pi_len p = PIPE_BUF"
    using wf by (auto simp: wf_ring_def)
  have "pipe_read st i want = Ok (st', Some (min want (pi_len p)), take want (contents p))"
    using ne p r by (auto simp: pipe_read_def st'_def Let_def min.commute)
  then show ?thesis
  proof (rule that [OF _ _ c p'])
    show "pipe_at st' i = Some p'" "\<forall>j. j \<noteq> i \<longrightarrow> pipe_at st' j = pipe_at st j"
      using pipe_at_length [OF p] by (simp_all add: st'_def)
    show "wf_pipes st'"
      using wf2 by (simp add: st'_def)
    show "woken st' = woken st @ (if pi_len p = PIPE_BUF then [Wake_pipe i, Wake_any] else [])"
      using full by (simp add: st'_def notify_def changed_def wake_any_def put_pipe_def Let_def)
  qed
qed

lemma pipe_write_spec:
  assumes "wf_pipes st" and p: "pipe_at st i = Some p" and rd: "pi_readers p \<noteq> 0"
  obtains st' p' where
    "pipe_write st i d = Ok (st', min (length d) (PIPE_BUF - pi_len p))"
    and "pipe_at st' i = Some p'" and "contents p' = contents p @ take (PIPE_BUF - pi_len p) d"
    and "p' = p\<lparr>pi_data := pi_data p', pi_len := pi_len p + min (length d) (PIPE_BUF - pi_len p)\<rparr>"
    and "\<forall>j. j \<noteq> i \<longrightarrow> pipe_at st' j = pipe_at st j" and "wf_pipes st'"
    and "woken st' = woken st @ (if min (length d) (PIPE_BUF - pi_len p) = 0 then []
           else if pi_len p = 0 then [Wake_pipe i, Wake_any] else [Wake_any])"
proof -
  from assms have wf: "wf_ring p" and anon: "i < ANON_PIPES \<longrightarrow> \<not> pi_named p"
    by (auto simp: wf_pipes_def)
  define n where "n = min (length d) (PIPE_BUF - pi_len p)"
  obtain p' where r: "ring_write p d = Ok (p', n)" and wf': "wf_ring p'"
    and c: "contents p' = contents p @ take (PIPE_BUF - pi_len p) d"
    and p': "p' = p\<lparr>pi_data := pi_data p', pi_len := pi_len p + n\<rparr>"
    unfolding n_def by (rule ring_write_spec [OF wf])
  have "pi_named p' = pi_named p" by (subst p') simp
  then have wf2: "wf_pipes (put_pipe i (Some p') st)"
    using wf' anon by (intro wf_put [OF assms(1)]) auto
  define st1 where "st1 = put_pipe i (Some p') st"
  define st' where "st' = (if n = 0 then st1 else if pi_len p = 0 then notify i st1 else wake_any (changed i st1))"
  have "pipe_write st i d = Ok (st', n)"
    using rd p r by (simp add: pipe_write_def st'_def st1_def Let_def)
  then show ?thesis
  proof (rule that [unfolded n_def [symmetric], OF _ _ c p'])
    show "pipe_at st' i = Some p'" "\<forall>j. j \<noteq> i \<longrightarrow> pipe_at st' j = pipe_at st j"
      using pipe_at_length [OF p] by (simp_all add: st'_def st1_def)
    show "wf_pipes st'"
      using wf2 by (simp add: st'_def st1_def)
    show "woken st' = woken st @ (if n = 0 then [] else if pi_len p = 0 then [Wake_pipe i, Wake_any] else [Wake_any])"
      by (simp add: st'_def st1_def notify_def changed_def wake_any_def put_pipe_def Let_def)
  qed
qed

lemma pipe_call_ok:
  assumes "wf_pipes st"
  shows "\<exists>st'. pipe_call st op = Ok st' \<and> wf_pipes st'"
proof (cases op)
  case (Read i want)
  show ?thesis
  proof (cases "pipe_at st i")
    case (Some p)
    show ?thesis
    proof (cases "pi_len p = 0")
      case False
      show ?thesis
        by (rule pipe_read_spec [OF assms Some False, of want]) (simp add: Read)
    qed (simp add: Read pipe_read_def Some assms)
  qed (simp add: Read pipe_read_def assms)
next
  case (Write i d)
  show ?thesis
  proof (cases "pipe_at st i")
    case (Some p)
    show ?thesis
    proof (cases "pi_readers p = 0")
      case False
      show ?thesis
        by (rule pipe_write_spec [OF assms Some False, of d]) (simp add: Write)
    qed (simp add: Write pipe_write_def Some assms)
  qed (simp add: Write pipe_write_def assms)
next
  case (Drop_reader i)
  then show ?thesis
    using assms by (auto simp: drop_reader_def Let_def split: option.split intro!: wf_release wf_put_same)
next
  case (Drop_writer i)
  then show ?thesis
    using assms by (auto simp: drop_writer_def Let_def split: option.split intro!: wf_release wf_put_same)
next
  case (Fifo_unlink i)
  then show ?thesis
    using assms by (auto simp: fifo_unlink_def wf_ring_def split: option.split intro!: wf_put)
       (auto simp: wf_pipes_def wf_ring_def)
next
  case (Fifo_attach i rd wr)
  then show ?thesis
    using assms by (auto simp: fifo_attach_def Let_def split: option.split intro!: wf_put_same)
next
  case (Free i)
  then show ?thesis using assms by (auto simp: pipe_free_def intro!: wf_put)
qed (use assms in \<open>auto simp: alloc_def alloc_named_def add_reader_def add_writer_def
      split: option.split intro!: wf_alloc_in wf_put_same\<close>)

lemma pipes_reachable_wf: "pipes_reachable st \<Longrightarrow> wf_pipes st"
proof (induction rule: pipes_reachable.induct)
  case (call st op st')
  with pipe_call_ok [of st op] show ?case by auto
qed (rule wf_init)

section \<open>Correctness of the pipes\<close>

text \<open>
  C8. However the calls on the pipe table are ordered, none of them panics, every
  ring stays within its buffer and no named FIFO takes a slot of the anonymous pool.
\<close>
theorem pipes_safe:
  assumes "pipes_reachable st"
  shows "pipe_call st op \<noteq> Panic \<and>
    (pipe_at st i = Some p \<longrightarrow>
       pi_head p < PIPE_BUF \<and> pi_len p \<le> PIPE_BUF \<and> length (pi_data p) = PIPE_BUF \<and>
       (i < ANON_PIPES \<longrightarrow> \<not> pi_named p))"
  using pipes_reachable_wf [OF assms] pipe_call_ok [of st op]
  by (auto simp: wf_pipes_def wf_ring_def)

definition demo_pipes :: pipe_table where
  "demo_pipes = put_pipe 0 (Some ((new_pipe False)\<lparr>pi_readers := 1, pi_writers := 1\<rparr>)) pipes_init"

lemma demo_reachable: "pipes_reachable demo_pipes"
proof -
  have f: "List.find (\<lambda>i. PIPES pipes_init ! i = None) [0 ..< min ANON_PIPES (length (PIPES pipes_init))] = Some 0"
    by (simp add: pipes_init_def pipe_consts upt_conv_Cons)
  have "fst (alloc pipes_init) = put_pipe 0 (Some (new_pipe False)) pipes_init" (is "_ = ?a")
    by (simp add: alloc_def alloc_in_def f)
  then have a: "pipes_reachable ?a"
    using pipes_reachable.call [OF pipes_reachable.init, of Alloc] by simp
  let ?b = "put_pipe 0 (Some ((new_pipe False)\<lparr>pi_readers := 1\<rparr>)) pipes_init"
  have "fst (add_reader ?a 0) = ?b"
    by (simp add: add_reader_def put_pipe_def pipe_at_def pipes_init_def pipe_consts new_pipe_def saturating_inc_def)
  then have b: "pipes_reachable ?b"
    using pipes_reachable.call [OF a, of "Add_reader 0"] by simp
  have "fst (add_writer ?b 0) = demo_pipes"
    by (simp add: add_writer_def demo_pipes_def put_pipe_def pipe_at_def pipes_init_def pipe_consts new_pipe_def
        saturating_inc_def)
  then show ?thesis
    using pipes_reachable.call [OF b, of "Add_writer 0"] by simp
qed

lemma demo_pipe_at: "pipe_at demo_pipes 0 = Some ((new_pipe False)\<lparr>pi_readers := 1, pi_writers := 1\<rparr>)"
  by (simp add: demo_pipes_def pipe_at_def put_pipe_def pipes_init_def pipe_consts)

theorem pipes_safe_witness:
  "pipe_call demo_pipes (Write 0 [7]) \<noteq> Panic \<and> \<not> pi_named (the (pipe_at demo_pipes 0))"
  using pipes_safe [OF demo_reachable, of "Write 0 [7]" 0 "the (pipe_at demo_pipes 0)"]
  by (simp add: demo_pipe_at ANON_PIPES_def)

text \<open>
  A run of calls, with the bytes that went into pipe \<open>i\<close> and the bytes its
  readers got.
\<close>

definition pipe_io :: "pipe_table \<Rightarrow> nat \<Rightarrow> pipe_op \<Rightarrow> (pipe_table \<times> bytes \<times> bytes, unit) result" where
  "pipe_io st i op =
     (case op of
        Read j want \<Rightarrow> bind_result (pipe_read st j want) (\<lambda>(st, _, out). Ok (st, [], if j = i then out else []))
      | Write j d \<Rightarrow> bind_result (pipe_write st j d) (\<lambda>(st, n).
          Ok (st, if j = i \<and> n \<noteq> usize_MAX then take n d else [], []))
      | _ \<Rightarrow> bind_result (pipe_call st op) (\<lambda>st. Ok (st, [], [])))"

fun pipe_run :: "pipe_table \<Rightarrow> nat \<Rightarrow> pipe_op list \<Rightarrow> (pipe_table \<times> bytes \<times> bytes, unit) result" where
  "pipe_run st i [] = Ok (st, [], [])"
| "pipe_run st i (op # ops) =
     bind_result (pipe_io st i op) (\<lambda>(st, a, b).
     bind_result (pipe_run st i ops) (\<lambda>(st, ins, outs). Ok (st, a @ ins, b @ outs)))"

text \<open>The calls that may discard what pipe \<open>i\<close> holds.\<close>

fun may_discard :: "nat \<Rightarrow> pipe_op \<Rightarrow> bool" where
  "may_discard i (Free j) = (i = j)"
| "may_discard i (Drop_reader j) = (i = j)"
| "may_discard i (Drop_writer j) = (i = j)"
| "may_discard i (Fifo_unlink j) = (i = j)"
| "may_discard i _ = False"

lemma contents_cong:
  "pi_data p = pi_data q \<Longrightarrow> pi_head p = pi_head q \<Longrightarrow> pi_len p = pi_len q \<Longrightarrow> contents p = contents q"
  by (simp add: contents_def)

lemma pipe_read_conserves:
  assumes "wf_pipes st" and "pipe_at st i = Some p" and "pipe_read st j want = Ok (st', r, out)"
  shows "wf_pipes st' \<and> (\<exists>p'. pipe_at st' i = Some p' \<and>
    contents p = (if j = i then out else []) @ contents p')"
proof (cases "pipe_at st j")
  case (Some q)
  show ?thesis
  proof (cases "pi_len q = 0")
    case False
    show ?thesis
      by (rule pipe_read_spec [OF assms(1) Some False, of want]) (use assms(2,3) Some in auto)
  qed (use assms Some in \<open>auto simp: pipe_read_def\<close>)
qed (use assms in \<open>auto simp: pipe_read_def\<close>)

lemma pipe_write_conserves:
  assumes "wf_pipes st" and "pipe_at st i = Some p" and "pipe_write st j d = Ok (st', n)"
  shows "wf_pipes st' \<and> (\<exists>p'. pipe_at st' i = Some p' \<and>
    contents p @ (if j = i \<and> n \<noteq> usize_MAX then take n d else []) = contents p')"
proof (cases "pipe_at st j")
  case (Some q)
  show ?thesis
  proof (cases "pi_readers q = 0")
    case False
    have "min (length d) (PIPE_BUF - pi_len q) \<noteq> usize_MAX"
      by (auto simp: usize_MAX_def PIPE_BUF_def min_def)
    then show ?thesis
      by (rule_tac pipe_write_spec [OF assms(1) Some False, of d]) (use assms(2,3) Some in \<open>auto simp: min_def\<close>)
  qed (use assms Some in \<open>auto simp: pipe_write_def\<close>)
qed (use assms in \<open>auto simp: pipe_write_def\<close>)

lemma alloc_in_keeps:
  "pipe_at st i = Some p \<Longrightarrow> pipe_at (fst (alloc_in st from to nm)) i = Some p"
  by (auto simp: alloc_in_def pipe_at_def put_pipe_def nth_list_update split: option.split if_splits
      dest!: find_Some_in_set)

lemma release_other [simp]: "i \<noteq> j \<Longrightarrow> pipe_at (release_if_idle j st) i = pipe_at st i"
  by (simp add: release_if_idle_def split: option.split)

lemma pipe_call_keeps:
  assumes "pipe_at st i = Some p" and "pipe_call st op = Ok st'" and "\<not> may_discard i op"
    and "\<And>j want. op \<noteq> Read j want" and "\<And>j d. op \<noteq> Write j d"
  shows "\<exists>p'. pipe_at st' i = Some p' \<and> contents p = contents p'"
  using assms pipe_at_length [OF assms(1)]
  by (cases op)
     (auto simp: alloc_def alloc_named_def alloc_in_keeps pipe_free_def add_reader_def add_writer_def
        drop_reader_def drop_writer_def fifo_unlink_def fifo_attach_def Let_def
        split: option.splits intro!: contents_cong)

lemma pipe_io_conserves:
  assumes "wf_pipes st" and "pipe_at st i = Some p" and "\<not> may_discard i op"
  shows "\<exists>st' a b p'. pipe_io st i op = Ok (st', a, b) \<and> wf_pipes st' \<and> pipe_at st' i = Some p' \<and>
    contents p @ a = b @ contents p'"
proof -
  obtain st' where run: "pipe_call st op = Ok st'" and wf: "wf_pipes st'"
    using pipe_call_ok [OF assms(1)] by blast
  consider (rd) j want where "op = Read j want" | (wr) j d where "op = Write j d"
    | (other) "\<And>j want. op \<noteq> Read j want" "\<And>j d. op \<noteq> Write j d"
    by blast
  then show ?thesis
  proof cases
    case rd
    with run obtain r out where r: "pipe_read st j want = Ok (st', r, out)" by auto
    with pipe_read_conserves [OF assms(1,2) r] rd show ?thesis
      by (auto simp: pipe_io_def)
  next
    case wr
    with run obtain n where w: "pipe_write st j d = Ok (st', n)" by auto
    with pipe_write_conserves [OF assms(1,2) w] wr show ?thesis
      by (auto simp: pipe_io_def)
  next
    case other
    then have "pipe_io st i op = Ok (st', [], [])"
      using run by (cases op) (auto simp: pipe_io_def)
    moreover obtain p' where "pipe_at st' i = Some p'" "contents p = contents p'"
      using pipe_call_keeps [OF assms(2) run assms(3) other] by blast
    ultimately show ?thesis using wf by auto
  qed
qed

lemma pipe_run_conserves:
  assumes "wf_pipes st" and "pipe_at st i = Some p" and "\<forall>op \<in> set ops. \<not> may_discard i op"
  shows "\<exists>st' p' ins outs. pipe_run st i ops = Ok (st', ins, outs) \<and> pipe_at st' i = Some p' \<and>
    contents p @ ins = outs @ contents p'"
  using assms
proof (induction ops arbitrary: st p)
  case (Cons op ops)
  from Cons.prems have nd: "\<not> may_discard i op" by simp
  obtain st1 a b p1 where io: "pipe_io st i op = Ok (st1, a, b)" "wf_pipes st1" "pipe_at st1 i = Some p1"
    and c: "contents p @ a = b @ contents p1"
    using pipe_io_conserves [OF Cons.prems(1,2) nd] by blast
  obtain st' p' ins outs where r: "pipe_run st1 i ops = Ok (st', ins, outs)" "pipe_at st' i = Some p'"
    and c2: "contents p1 @ ins = outs @ contents p'"
    using Cons.IH [OF io(2,3)] Cons.prems(3) by auto
  have "contents p @ (a @ ins) = (b @ outs) @ contents p'"
    using c c2 by (metis append_assoc)
  with io(1) r show ?case by auto
qed simp



lemma write_wakes_reader:
  assumes "wf_pipes st" and "pipe_at st i = Some p" and "pi_readers p \<noteq> 0" and "pi_len p = 0" and "d \<noteq> []"
  shows "\<exists>st' n. pipe_write st i d = Ok (st', n) \<and> 0 < n \<and> n \<le> length d \<and>
    Wake_pipe i \<in> set (drop (length (woken st)) (woken st')) \<and> \<not> read_would_block st' i"
proof (rule pipe_write_spec [OF assms(1-3), of d])
  fix st' p'
  let ?n = "min (length d) (PIPE_BUF - pi_len p)"
  assume w: "pipe_write st i d = Ok (st', ?n)" and p': "pipe_at st' i = Some p'"
    and e: "p' = p\<lparr>pi_data := pi_data p', pi_len := pi_len p + ?n\<rparr>"
    and k: "woken st' = woken st @ (if ?n = 0 then [] else if pi_len p = 0 then [Wake_pipe i, Wake_any] else [Wake_any])"
  have n: "0 < ?n" using assms(4,5) by simp
  have "pi_len p' = pi_len p + ?n" by (subst e) simp
  with w p' k n assms(4) show ?thesis by (auto simp: read_would_block_def)
qed

lemma read_wakes_writer:
  assumes "wf_pipes st" and "pipe_at st i = Some p" and "PIPE_BUF \<le> pi_len p" and "0 < want"
  shows "\<exists>st' n out. pipe_read st i want = Ok (st', Some n, out) \<and> 0 < n \<and> length out = n \<and>
    Wake_pipe i \<in> set (drop (length (woken st)) (woken st')) \<and> \<not> write_would_block st' i"
proof -
  have full: "pi_len p = PIPE_BUF"
    using assms(1-3) by (auto simp: wf_pipes_def wf_ring_def intro: antisym)
  have ne: "pi_len p \<noteq> 0" by (simp add: full PIPE_BUF_def)
  show ?thesis
  proof (rule pipe_read_spec [OF assms(1,2) ne, of want])
    fix st' p'
    let ?n = "min want (pi_len p)"
    assume r: "pipe_read st i want = Ok (st', Some ?n, take want (contents p))" and p': "pipe_at st' i = Some p'"
      and e: "p' = p\<lparr>pi_head := pi_head p', pi_len := pi_len p - ?n\<rparr>"
      and k: "woken st' = woken st @ (if pi_len p = PIPE_BUF then [Wake_pipe i, Wake_any] else [])"
    have "pi_len p' = pi_len p - ?n" by (subst e) simp
    moreover have "pi_len p - ?n < PIPE_BUF" "0 < ?n"
      using assms(4) PIPE_BUF_pos unfolding full by linarith+
    ultimately have "pi_len p' < PIPE_BUF" "0 < ?n" by linarith+
    then have "\<not> write_would_block st' i" "0 < ?n"
      using p' by (simp_all add: write_would_block_def)
    then show ?thesis
      using r k full by auto
  qed
qed

lemma woken_simps [simp]:
  "woken (put_pipe i p st) = woken st" "woken (release_if_idle i st) = woken st"
  "woken (notify i st) = woken st @ [Wake_pipe i, Wake_any]"
  by (simp_all add: put_pipe_def release_if_idle_def notify_def changed_def wake_any_def Let_def
      split: option.split)

lemma saturating_dec_1 [simp]: "saturating_dec (1 :: u8) = 0"
  by (simp add: saturating_dec_def)

text \<open>
  C10. No blocked end is left asleep. When a reader would block, a write that
  puts in a byte, and the last writer's close, wake it and leave it something to
  return; when a writer would block on a full pipe, a read that takes a byte, and
  the last reader's close, wake it and let it continue.
\<close>
theorem pipe_wakes_blocked:
  assumes "pipes_reachable st" and p: "pipe_at st i = Some p"
  shows "(read_would_block st i \<and> pi_readers p \<noteq> 0 \<and> d \<noteq> [] \<longrightarrow>
      (\<exists>st' n. pipe_write st i d = Ok (st', n) \<and> 0 < n \<and> n \<le> length d \<and>
         Wake_pipe i \<in> set (drop (length (woken st)) (woken st')) \<and> \<not> read_would_block st' i)) \<and>
    (read_would_block st i \<and> pi_readers p \<noteq> 0 \<and> pi_writers p = 1 \<longrightarrow>
      Wake_pipe i \<in> set (drop (length (woken st)) (woken (fst (drop_writer st i)))) \<and>
      \<not> read_would_block (fst (drop_writer st i)) i) \<and>
    (write_would_block st i \<and> 0 < want \<longrightarrow>
      (\<exists>st' n out. pipe_read st i want = Ok (st', Some n, out) \<and> 0 < n \<and> length out = n \<and>
         Wake_pipe i \<in> set (drop (length (woken st)) (woken st')) \<and> \<not> write_would_block st' i)) \<and>
    (write_would_block st i \<and> pi_readers p = 1 \<longrightarrow>
      Wake_pipe i \<in> set (drop (length (woken st)) (woken (fst (drop_reader st i)))) \<and>
      \<not> write_would_block (fst (drop_reader st i)) i)"
    (is "?A \<and> ?B \<and> ?C \<and> ?D")
proof (intro conjI)
  have wf: "wf_pipes st" by (rule pipes_reachable_wf [OF assms(1)])
  have i: "i < length (PIPES st)" by (rule pipe_at_length [OF p])
  show ?A
    using write_wakes_reader [OF wf p, of d] by (auto simp: read_would_block_def p)
  show ?C
    using read_wakes_writer [OF wf p, of want] by (auto simp: write_would_block_def p)
  show ?B
    using i p by (auto simp: drop_writer_def read_would_block_def release_if_idle_def Let_def)
  show ?D
    using i p by (auto simp: drop_reader_def write_would_block_def release_if_idle_def Let_def PIPE_BUF_def)
qed

theorem pipe_wakes_blocked_witness:
  "read_would_block demo_pipes 0 \<and> \<not> read_would_block (fst (drop_writer demo_pipes 0)) 0 \<and>
   (\<exists>st' n. pipe_write demo_pipes 0 [7] = Ok (st', n) \<and> 0 < n \<and> \<not> read_would_block st' 0)"
proof -
  have b: "read_would_block demo_pipes 0"
    by (simp add: read_would_block_def demo_pipe_at new_pipe_def)
  with pipe_wakes_blocked [OF demo_reachable demo_pipe_at, of "[7]" 1] show ?thesis
    by auto
qed

text \<open>
  C11. Named FIFOs cannot starve \<^verbatim>\<open>pipe()\<close>: an anonymous pipe is refused only
  when all the slots of the anonymous pool hold anonymous pipes, a granted one is a
  fresh empty pipe in a slot of that pool that was free, and creating a FIFO leaves the
  pool as it is.
\<close>
theorem alloc_not_starved:
  assumes "pipes_reachable st"
  shows "(snd (alloc st) = None \<longleftrightarrow> (\<forall>i < ANON_PIPES. \<exists>p. pipe_at st i = Some p \<and> \<not> pi_named p)) \<and>
    (snd (alloc st) = Some i \<longrightarrow> i < ANON_PIPES \<and> pipe_at st i = None \<and>
       pipe_at (fst (alloc st)) i = Some (new_pipe False)) \<and>
    (j < ANON_PIPES \<longrightarrow> pipe_at (fst (alloc_named st)) j = pipe_at st j)"
proof -
  have wf: "wf_pipes st" by (rule pipes_reachable_wf [OF assms])
  then have len: "length (PIPES st) = MAX_PIPES" by (simp add: wf_pipes_def)
  have at: "pipe_at st i = PIPES st ! i" if "i < ANON_PIPES" for i
    using that len by (simp add: pipe_at_def MAX_PIPES_def)
  have none: "snd (alloc st) = None \<longleftrightarrow> (\<forall>i < ANON_PIPES. PIPES st ! i \<noteq> None)"
    by (auto simp: alloc_def alloc_in_def len MAX_PIPES_def find_None_iff split: option.split
        dest!: find_Some_in_set)
  have "snd (alloc st) = None \<longleftrightarrow> (\<forall>i < ANON_PIPES. \<exists>p. pipe_at st i = Some p \<and> \<not> pi_named p)"
    unfolding none using wf by (fastforce simp: wf_pipes_def at [symmetric])
  moreover have "snd (alloc st) = Some i \<longrightarrow> i < ANON_PIPES \<and> pipe_at st i = None \<and>
      pipe_at (fst (alloc st)) i = Some (new_pipe False)"
    by (auto simp: alloc_def alloc_in_def len at MAX_PIPES_def split: option.split dest!: find_Some_in_set)
  moreover have "j < ANON_PIPES \<longrightarrow> pipe_at (fst (alloc_named st)) j = pipe_at st j"
    by (auto simp: alloc_named_def alloc_in_def split: option.split dest!: find_Some_in_set)
  ultimately show ?thesis by blast
qed

theorem alloc_not_starved_witness:
  "snd (alloc pipes_init) \<noteq> None \<and> pipe_at (fst (alloc_named pipes_init)) 3 = None"
proof -
  have "pipe_at pipes_init k = None" for k
    by (simp add: pipe_at_def pipes_init_def)
  then show ?thesis
    using alloc_not_starved [OF pipes_reachable.init, of 0 3]
    by (simp add: ANON_PIPES_def) (metis zero_less_numeral)
qed

end
