(* ===== verification/Task_Bits.thy ===== *)
theory Task_Bits
  imports Prelude
begin

text \<open>
  Sets of task slots (\<^verbatim>\<open>kernel/src/task/bits.rs\<close>), a bit per slot in an array of
  \<^verbatim>\<open>u64\<close> words: the run queues and the group and session ids in use. The lemmas
  show that the array is a set of slots, that \<^verbatim>\<open>iter\<close> lists it in order although it
  clears bits with \<^verbatim>\<open>w &= w - 1\<close>, and that \<^verbatim>\<open>next_after\<close> is a fair round-robin.
\<close>

section \<open>The sets\<close>

definition MAX_TASKS :: nat where "MAX_TASKS = 512"
definition WORDS :: nat where "WORDS = div_ceil MAX_TASKS 64"

type_synonym task_bits = "u64 list"

definition EMPTY :: task_bits where "EMPTY = replicate WORDS 0"

definition bits_insert :: "task_bits \<Rightarrow> nat \<Rightarrow> (task_bits, unit) result" where
  "bits_insert ws slot =
     (if slot div 64 < length ws
      then Ok (ws[slot div 64 := (ws ! (slot div 64)) OR push_bit (slot mod 64) 1]) else Panic)"

definition bits_contains :: "task_bits \<Rightarrow> nat \<Rightarrow> (bool, unit) result" where
  "bits_contains ws slot =
     (if slot < MAX_TASKS
      then (if slot div 64 < length ws
            then Ok ((ws ! (slot div 64)) AND push_bit (slot mod 64) 1 \<noteq> 0) else Panic)
      else Ok False)"

definition bits_is_empty :: "task_bits \<Rightarrow> bool" where
  "bits_is_empty ws = list_all (\<lambda>w. w = 0) ws"

definition bits_union :: "task_bits \<Rightarrow> task_bits \<Rightarrow> task_bits" where
  "bits_union ws os = map (\<lambda>(w, o'). w OR o') (zip ws os) @ drop (length os) ws"

definition trailing_zeros :: "u64 \<Rightarrow> nat" where
  "trailing_zeros w = (case List.find (bit w) [0 ..< 64] of None \<Rightarrow> 64 | Some i \<Rightarrow> i)"

lemma clear_lowest_less:
  assumes "(w :: u64) \<noteq> 0"
  shows "unat (w AND (w - 1)) < unat w"
proof -
  have "w AND (w - 1) \<le> w - 1"
    by (simp add: word_and_le1)
  moreover have "w - 1 < w"
    using assms by (simp add: word_less_nat_alt unat_minus_one unat_gt_0)
  ultimately show ?thesis
    by (simp add: word_less_nat_alt word_le_nat_alt)
qed

text \<open>The iterator over one word.\<close>

function word_slots :: "nat \<Rightarrow> u64 \<Rightarrow> nat list" where
  "word_slots i w =
     (if w = 0 then [] else (i * 64 + trailing_zeros w) # word_slots i (w AND (w - 1)))"
  by pat_completeness auto
termination
  by (relation "measure (\<lambda>(i, w). unat w)") (auto intro: clear_lowest_less)

declare word_slots.simps [simp del]

definition bits_iter :: "task_bits \<Rightarrow> nat list" where
  "bits_iter ws = concat (map (\<lambda>(i, w). word_slots i w) (enumerate 0 ws))"

definition next_after :: "task_bits \<Rightarrow> nat \<Rightarrow> nat option" where
  "next_after ws current =
     (case List.find (\<lambda>s. current < s) (bits_iter ws) of
        Some s \<Rightarrow> Some s
      | None \<Rightarrow> (case bits_iter ws of [] \<Rightarrow> None | s # _ \<Rightarrow> Some s))"

text \<open>\<^verbatim>\<open>AtomicTaskSet\<close>: the same words, changed one atomic operation at a time.\<close>

definition atomic_new :: task_bits where "atomic_new = replicate WORDS 0"

definition atomic_insert :: "task_bits \<Rightarrow> nat \<Rightarrow> (task_bits, unit) result" where
  "atomic_insert ws slot =
     (if slot div 64 < length ws
      then Ok (ws[slot div 64 := (ws ! (slot div 64)) OR push_bit (slot mod 64) 1]) else Panic)"

definition atomic_remove :: "task_bits \<Rightarrow> nat \<Rightarrow> (task_bits, unit) result" where
  "atomic_remove ws slot =
     (if slot div 64 < length ws
      then Ok (ws[slot div 64 := (ws ! (slot div 64)) AND NOT (push_bit (slot mod 64) 1)]) else Panic)"

definition atomic_load :: "task_bits \<Rightarrow> task_bits" where
  "atomic_load ws = map (\<lambda>i. ws ! i) [0 ..< WORDS]"

section \<open>The words are a set\<close>

definition slots :: "task_bits \<Rightarrow> nat set" where
  "slots ws = {s. s div 64 < length ws \<and> bit (ws ! (s div 64)) (s mod 64)}"

lemma WORDS_pos: "WORDS = 8"
  by (simp add: WORDS_def MAX_TASKS_def div_ceil_def)

lemma bit_shifted_one: "k < 64 \<Longrightarrow> bit (2 ^ k :: u64) i \<longleftrightarrow> i = k"
  by (auto simp: bit_simps)

lemma slot_eq_iff: "(t :: nat) = s \<longleftrightarrow> t div 64 = s div 64 \<and> t mod 64 = s mod 64"
  by (metis div_mult_mod_eq)

lemma slots_update_or:
  assumes "s div 64 < length ws"
  shows "slots (ws[s div 64 := (ws ! (s div 64)) OR push_bit (s mod 64) 1]) = insert s (slots ws)"
proof (rule set_eqI)
  fix t
  show "t \<in> slots (ws[s div 64 := (ws ! (s div 64)) OR push_bit (s mod 64) 1]) \<longleftrightarrow> t \<in> insert s (slots ws)"
    using assms
    by (cases "t div 64 = s div 64")
       (simp_all add: slots_def bit_or_iff bit_shifted_one slot_eq_iff [of t s] disj_commute)
qed

lemma slots_update_and:
  assumes "s div 64 < length ws"
  shows "slots (ws[s div 64 := (ws ! (s div 64)) AND NOT (push_bit (s mod 64) 1)]) = slots ws - {s}"
proof (rule set_eqI)
  fix t
  have "bit (NOT (push_bit (s mod 64) (1 :: u64))) (t mod 64) \<longleftrightarrow> t mod 64 \<noteq> s mod 64"
    by (simp add: bit_not_iff bit_shifted_one)
  then show "t \<in> slots (ws[s div 64 := (ws ! (s div 64)) AND NOT (push_bit (s mod 64) 1)]) \<longleftrightarrow> t \<in> slots ws - {s}"
    using assms
    by (cases "t div 64 = s div 64")
       (simp_all add: slots_def bit_and_iff slot_eq_iff [of t s])
qed

lemma trailing_zeros_spec:
  assumes "(w :: u64) \<noteq> 0"
  shows "trailing_zeros w < 64" and "bit w (trailing_zeros w)" and "\<forall>j < trailing_zeros w. \<not> bit w j"
proof -
  from assms obtain i where i: "bit w i" by (auto simp: bit_eq_iff)
  then have "i < 64" by (auto dest: bit_imp_le_length)
  with i have "List.find (bit w) [0 ..< 64] \<noteq> None"
    by (auto simp: find_None_iff)
  then obtain k where k: "List.find (bit w) [0 ..< 64] = Some k" by blast
  then have t: "trailing_zeros w = k" by (simp add: trailing_zeros_def)
  from k have "k < 64 \<and> bit w k \<and> (\<forall>j < k. \<not> bit w j)"
    by (auto simp: find_Some_iff)
  with t show "trailing_zeros w < 64" "bit w (trailing_zeros w)" "\<forall>j < trailing_zeros w. \<not> bit w j"
    by auto
qed

lemma bit_clear_lowest:
  assumes "(w :: u64) \<noteq> 0"
  shows "bit (w AND (w - 1)) i \<longleftrightarrow> bit w i \<and> i \<noteq> trailing_zeros w"
proof -
  define k where "k = trailing_zeros w"
  note tz = trailing_zeros_spec [OF assms, folded k_def]
  define a where "a = w AND NOT (mask (Suc k))"
  have a: "bit a j \<longleftrightarrow> bit w j \<and> k < j" for j
    by (auto simp: a_def bit_simps dest: bit_imp_le_length)
  have p: "bit (2 ^ k :: u64) j \<longleftrightarrow> j = k" for j
    using tz(1) by (auto simp: bit_simps)
  have m: "bit (mask k :: u64) j \<longleftrightarrow> j < k" for j
    using tz(1) by (auto simp: bit_simps)
  have "w = a OR 2 ^ k"
    using tz(2,3) by (intro bit_eqI) (metis a bit_or_iff p linorder_neqE_nat)
  also have "\<dots> = a + 2 ^ k"
    by (rule disjunctive_add_eq_or [symmetric]) (intro bit_eqI, auto simp: bit_and_iff a p)
  finally have "w - 1 = a + mask k"
    by (simp add: mask_eq_exp_minus_1)
  also have "\<dots> = a OR mask k"
    by (rule disjunctive_add_eq_or) (intro bit_eqI, auto simp: bit_and_iff a m)
  finally have "bit (w - 1) j \<longleftrightarrow> bit a j \<or> j < k" for j
    by (simp add: bit_or_iff m)
  then show ?thesis
    using tz(3) unfolding k_def [symmetric] bit_and_iff a by (metis linorder_neqE_nat)
qed

section \<open>Iteration\<close>

lemma set_word_slots: "set (word_slots i w) = {i * 64 + b | b. bit w b}"
proof (induction i w rule: word_slots.induct)
  case (1 i w)
  show ?case
  proof (cases "w = 0")
    case False
    then have "set (word_slots i w) = insert (i * 64 + trailing_zeros w) {i * 64 + b | b. bit (w AND (w - 1)) b}"
      using "1.IH" by (subst word_slots.simps) simp
    also have "\<dots> = {i * 64 + b | b. bit w b}"
      using bit_clear_lowest [OF False] trailing_zeros_spec(2) [OF False] by auto
    finally show ?thesis .
  qed (simp add: word_slots.simps)
qed

lemma sorted_word_slots: "sorted_wrt (<) (word_slots i w)"
proof (induction i w rule: word_slots.induct)
  case (1 i w)
  show ?case
  proof (cases "w = 0")
    case False
    have "trailing_zeros w < b" if "bit (w AND (w - 1)) b" for b
      using that bit_clear_lowest [OF False, of b] trailing_zeros_spec(3) [OF False]
      by (metis linorder_neqE_nat)
    with False "1.IH" show ?thesis
      by (subst word_slots.simps) (auto simp: set_word_slots)
  qed (simp add: word_slots.simps)
qed

lemma in_word_slots: "s \<in> set (word_slots i w) \<longleftrightarrow> s div 64 = i \<and> bit w (s mod 64)"
proof -
  have "b < 64" if "bit w b" for b using that by (auto dest: bit_imp_le_length)
  then show ?thesis by (auto simp: set_word_slots) (metis div_mult_mod_eq)
qed

lemma set_bits_iter: "set (bits_iter ws) = slots ws"
  by (force simp: bits_iter_def slots_def in_word_slots in_set_enumerate_eq)

lemma sorted_word_slots_from:
  "sorted_wrt (<) (concat (map (\<lambda>(i, w). word_slots i w) (enumerate n ws)))"
proof (induction ws arbitrary: n)
  case (Cons w ws)
  have "s < t" if "s div 64 = n" "Suc n \<le> t div 64" for s t :: nat
    using that by (metis Suc_le_eq div_le_mono leI leD)
  with Cons.IH [of "Suc n"] sorted_word_slots [of n w] show ?case
    by (auto simp: sorted_wrt_append in_word_slots in_set_enumerate_eq)
qed simp

lemma sorted_bits_iter: "sorted_wrt (<) (bits_iter ws)"
  by (simp add: bits_iter_def sorted_word_slots_from)

section \<open>Correctness of the sets\<close>

definition wf_bits :: "task_bits \<Rightarrow> bool" where
  "wf_bits ws \<longleftrightarrow> length ws = WORDS"

lemma div_WORDS: "s < MAX_TASKS \<Longrightarrow> s div 64 < WORDS"
  by (simp add: WORDS_pos MAX_TASKS_def)

text \<open>
  C12. The arrays of words implement sets of slots: for a slot below \<^verbatim>\<open>MAX_TASKS\<close>
  no operation is out of range, insertion and removal add and take away that slot
  alone, and membership, emptiness, union and the word-by-word snapshot of a quiet
  atomic set are those of the sets.
\<close>
theorem bits_refine_sets:
  assumes "wf_bits ws" and "wf_bits os" and "s < MAX_TASKS"
  shows "(\<exists>ws'. bits_insert ws s = Ok ws' \<and> wf_bits ws' \<and> slots ws' = insert s (slots ws)) \<and>
    (\<exists>ws'. atomic_insert ws s = Ok ws' \<and> wf_bits ws' \<and> slots ws' = insert s (slots ws)) \<and>
    (\<exists>ws'. atomic_remove ws s = Ok ws' \<and> wf_bits ws' \<and> slots ws' = slots ws - {s}) \<and>
    bits_contains ws s = Ok (s \<in> slots ws) \<and> (MAX_TASKS \<le> t \<longrightarrow> bits_contains ws t = Ok False) \<and>
    (bits_is_empty ws \<longleftrightarrow> slots ws = {}) \<and> slots EMPTY = {} \<and>
    slots (bits_union ws os) = slots ws \<union> slots os \<and> atomic_load ws = ws"
proof -
  from assms have l: "length ws = WORDS" "length os = WORDS" and d: "s div 64 < WORDS"
    by (simp_all add: wf_bits_def div_WORDS)
  have c: "(ws ! (s div 64)) AND push_bit (s mod 64) 1 \<noteq> 0 \<longleftrightarrow> s \<in> slots ws"
  proof -
    have "(ws ! (s div 64)) AND push_bit (s mod 64) 1 \<noteq> 0 \<longleftrightarrow> bit (ws ! (s div 64)) (s mod 64)"
      by (simp add: and_exp_eq_0_iff_not_bit)
    with d l show ?thesis by (simp add: slots_def)
  qed
  have e: "bits_is_empty ws \<longleftrightarrow> slots ws = {}"
  proof
    assume empty: "slots ws = {}"
    show "bits_is_empty ws"
      unfolding bits_is_empty_def list_all_length
    proof (intro allI impI bit_eqI)
      fix i b assume i: "i < length ws" and "possible_bit TYPE(u64) b"
      then have "(i * 64 + b) div 64 = i" "(i * 64 + b) mod 64 = b" by auto
      moreover have "i * 64 + b \<notin> slots ws" using empty by simp
      ultimately show "bit (ws ! i) b \<longleftrightarrow> bit (0 :: u64) b"
        using i by (simp add: slots_def)
    qed
  qed (auto simp: bits_is_empty_def list_all_length slots_def)
  have u: "slots (bits_union ws os) = slots ws \<union> slots os"
    using l by (auto simp: bits_union_def slots_def bit_or_iff)
  have n: "slots EMPTY = {}"
    by (auto simp: EMPTY_def slots_def)
  have a: "atomic_load ws = ws"
    using l by (simp add: atomic_load_def map_nth flip: l(1))
  show ?thesis
    using assms d l slots_update_or [of s ws] slots_update_and [of s ws] c e u n a
    by (simp add: bits_insert_def atomic_insert_def atomic_remove_def bits_contains_def wf_bits_def)
qed

theorem bits_refine_sets_witness:
  "bits_contains EMPTY 70 = Ok (70 \<in> slots EMPTY) \<and> (\<exists>ws'. bits_insert EMPTY 70 = Ok ws' \<and> slots ws' = {70})"
proof -
  have "wf_bits EMPTY" by (simp add: wf_bits_def EMPTY_def)
  with bits_refine_sets [of EMPTY EMPTY 70 0] show ?thesis
    by (auto simp: MAX_TASKS_def)
qed

lemma find_greater:
  assumes "sorted_wrt (<) xs" and "k < length (xs :: nat list)"
  shows "List.find (\<lambda>s. xs ! k < s) xs = (if k + 1 < length xs then Some (xs ! (k + 1)) else None)"
proof -
  have le: "\<not> xs ! k < xs ! j" if "j \<le> k" for j
    using assms that by (metis le_neq_implies_less not_less_iff_gr_or_eq sorted_wrt_nth_less)
  show ?thesis
  proof (cases "k + 1 < length xs")
    case True
    then have "xs ! k < xs ! (k + 1)"
      using assms(1) by (simp add: sorted_wrt_nth_less)
    with True le have "List.find (\<lambda>s. xs ! k < s) xs = Some (xs ! (k + 1))"
      unfolding find_Some_iff by (intro exI [of _ "k + 1"]) auto
    with True show ?thesis by simp
  next
    case False
    then have "List.find (\<lambda>s. xs ! k < s) xs = None"
      using le by (auto simp: find_None_iff in_set_conv_nth)
    with False show ?thesis by simp
  qed
qed

text \<open>
  C13. The scheduler's round-robin is fair: the slots of a set are listed in
  increasing order, each once, and from the \<open>k\<close>-th of them \<^verbatim>\<open>next_after\<close> goes to the
  next one, from the last to the first, so it meets every slot of the set before it
  meets one again; from a slot outside the set it goes to the least one above, if any.
\<close>
theorem next_after_round_robin:
  assumes "k < length (bits_iter ws)"
  shows "set (bits_iter ws) = slots ws \<and> distinct (bits_iter ws) \<and> sorted (bits_iter ws) \<and>
    next_after ws (bits_iter ws ! k) = Some (bits_iter ws ! ((k + 1) mod length (bits_iter ws))) \<and>
    ((\<exists>s \<in> slots ws. c < s) \<longrightarrow> next_after ws c = Some (Min {s \<in> slots ws. c < s}))"
proof -
  let ?xs = "bits_iter ws"
  have strict: "sorted_wrt (<) ?xs" by (rule sorted_bits_iter)
  then have dist: "distinct ?xs \<and> sorted ?xs"
    by (simp add: strict_sorted_iff)
  have step: "next_after ws (?xs ! k) = Some (?xs ! ((k + 1) mod length ?xs))"
    using find_greater [OF strict assms] assms
    by (cases ?xs) (auto simp: next_after_def mod_Suc not_less less_Suc_eq_le)
  have above: "next_after ws c = Some (Min {s \<in> slots ws. c < s})" if ex: "\<exists>s \<in> slots ws. c < s"
  proof -
    from ex obtain s where "List.find (\<lambda>s. c < s) ?xs = Some s"
      by (metis find_None_iff option.exhaust set_bits_iter)
    moreover from this obtain i where i: "i < length ?xs" "c < ?xs ! i" "s = ?xs ! i" "\<forall>j < i. \<not> c < ?xs ! j"
      by (auto simp: find_Some_iff)
    have "Min {s \<in> set ?xs. c < s} = s"
    proof (rule Min_eqI)
      fix t assume "t \<in> {s \<in> set ?xs. c < s}"
      then obtain j where "j < length ?xs" "t = ?xs ! j" "c < t" by (auto simp: in_set_conv_nth)
      with i dist show "s \<le> t" by (metis not_le_imp_less sorted_nth_mono)
    qed (use i in auto)
    ultimately show ?thesis by (simp add: next_after_def set_bits_iter)
  qed
  show ?thesis using dist step above by (simp add: set_bits_iter)
qed

theorem next_after_round_robin_witness:
  "next_after [5, 0, 0, 0, 0, 0, 0, 1] 0 = Some 2 \<and> next_after [5, 0, 0, 0, 0, 0, 0, 1] 448 = Some 0"
proof -
  have xs: "bits_iter [5, 0, 0, 0, 0, 0, 0, 1] = [0, 2, 448]" by code_simp
  show ?thesis
    using next_after_round_robin [of 0 "[5, 0, 0, 0, 0, 0, 0, 1]" 0]
      next_after_round_robin [of 2 "[5, 0, 0, 0, 0, 0, 0, 1]" 0]
    by (simp add: xs numeral_2_eq_2)
qed

end
