(* ===== verification/File_Lock.thy ===== *)
theory File_Lock
  imports Prelude
begin

text \<open>
  Advisory file locks (\<^verbatim>\<open>kernel/src/fs/lock.rs\<close>): \<^verbatim>\<open>flock\<close> and record locks in one
  table, owned by open file descriptions or processes. A lock is kept as a byte
  range; the lemmas state the table by what it means byte by byte: replacing
  changes exactly the bytes asked for, and two owners never hold a byte together
  unless both share it.
\<close>

section \<open>The lock table\<close>

datatype owner = Flock nat | Ofd nat | Process nat

fun family :: "owner \<Rightarrow> u8" where
  "family (Flock d) = 0"
| "family (Ofd d) = 1"
| "family (Process p) = 1"

datatype lock_kind = Shared | Exclusive

record lock =
  lk_node :: nat
  lk_owner :: owner
  lk_kind :: lock_kind
  lk_start :: u64
  lk_end :: u64

definition TO_END :: u64 where "TO_END = - 1"

text \<open>The table, and the nodes whose waiters were woken (\<^verbatim>\<open>task::wake(key_lock(node))\<close>).\<close>

record lock_table =
  LOCKS :: "lock list"
  lock_wakes :: "nat list"

datatype lock_refused = Busy | Interrupted

definition conflicting ::
  "lock list \<Rightarrow> nat \<Rightarrow> owner \<Rightarrow> lock_kind \<Rightarrow> u64 \<Rightarrow> u64 \<Rightarrow> lock option" where
  "conflicting locks node owner kind start end' =
     List.find (\<lambda>l. lk_node l = node \<and> lk_owner l \<noteq> owner \<and> family (lk_owner l) = family owner \<and>
       lk_start l < end' \<and> start < lk_end l \<and> (lk_kind l = Exclusive \<or> kind = Exclusive)) locks"

definition conflict ::
  "lock_table \<Rightarrow> nat \<Rightarrow> owner \<Rightarrow> lock_kind \<Rightarrow> u64 \<Rightarrow> u64 \<Rightarrow> lock option" where
  "conflict t node owner kind start end' = conflicting (LOCKS t) node owner kind start end'"

text \<open>What the loop of \<^verbatim>\<open>replace\<close> keeps of one lock.\<close>

definition kept_parts :: "nat \<Rightarrow> owner \<Rightarrow> u64 \<Rightarrow> u64 \<Rightarrow> lock \<Rightarrow> lock list" where
  "kept_parts node owner start end' l =
     (if lk_node l \<noteq> node \<or> lk_owner l \<noteq> owner \<or> lk_end l \<le> start \<or> end' \<le> lk_start l then [l]
      else (if lk_start l < start then [l\<lparr>lk_end := start\<rparr>] else []) @
           (if end' < lk_end l then [l\<lparr>lk_start := end'\<rparr>] else []))"

definition lock_replace ::
  "lock list \<Rightarrow> nat \<Rightarrow> owner \<Rightarrow> lock_kind option \<Rightarrow> u64 \<Rightarrow> u64 \<Rightarrow> lock list" where
  "lock_replace locks node owner kind start end' =
     concat (map (kept_parts node owner start end') locks) @
     (case kind of None \<Rightarrow> []
      | Some k \<Rightarrow> [\<lparr>lk_node = node, lk_owner = owner, lk_kind = k, lk_start = start, lk_end = end'\<rparr>])"

text \<open>
  One turn of the loop of \<^verbatim>\<open>set\<close>, under the lock of the table: granted with the
  new table, refused, or blocked until the node is woken.
\<close>

datatype set_outcome = Granted lock_table | Refused lock_refused | Blocked

definition set_turn ::
  "lock_table \<Rightarrow> nat \<Rightarrow> owner \<Rightarrow> lock_kind option \<Rightarrow> u64 \<Rightarrow> u64 \<Rightarrow> bool \<Rightarrow> bool \<Rightarrow> set_outcome" where
  "set_turn t node owner kind start end' wait interrupt =
     (let busy = (case kind of None \<Rightarrow> False
                  | Some k \<Rightarrow> conflicting (LOCKS t) node owner k start end' \<noteq> None)
      in if \<not> busy
         then Granted (t\<lparr>LOCKS := lock_replace (LOCKS t) node owner kind start end',
                         lock_wakes := lock_wakes t @ [node]\<rparr>)
         else if \<not> wait then Refused Busy
         else if interrupt then Refused Interrupted
         else Blocked)"

text \<open>
  \<^verbatim>\<open>set\<close>: each element of \<open>rounds\<close> is one turn, with whether a signal is pending
  and what the other tasks do to the table while the caller is blocked; \<open>None\<close> when
  the caller still waits after them.
\<close>

fun lock_set ::
  "lock_table \<Rightarrow> nat \<Rightarrow> owner \<Rightarrow> lock_kind option \<Rightarrow> u64 \<Rightarrow> u64 \<Rightarrow> bool \<Rightarrow>
   (bool \<times> (lock_table \<Rightarrow> lock_table)) list \<Rightarrow> (lock_table \<times> (unit, lock_refused) result) option" where
  "lock_set t node owner kind start end' wait [] = None"
| "lock_set t node owner kind start end' wait ((interrupt, others) # rounds) =
     (case set_turn t node owner kind start end' wait interrupt of
        Granted t' \<Rightarrow> Some (t', Ok ())
      | Refused r \<Rightarrow> Some (t, Err r)
      | Blocked \<Rightarrow> lock_set (others t) node owner kind start end' wait rounds)"

definition release_where :: "(lock \<Rightarrow> bool) \<Rightarrow> lock_table \<Rightarrow> lock_table" where
  "release_where gone t =
     (let nodes = remdups_adj (sort (map lk_node (filter gone (LOCKS t))))
      in t\<lparr>LOCKS := filter (\<lambda>l. \<not> gone l) (LOCKS t), lock_wakes := lock_wakes t @ nodes\<rparr>)"

definition lock_release :: "owner \<Rightarrow> lock_table \<Rightarrow> lock_table" where
  "lock_release owner = release_where (\<lambda>l. lk_owner l = owner)"

definition lock_closed :: "nat \<Rightarrow> nat \<Rightarrow> lock_table \<Rightarrow> lock_table" where
  "lock_closed node pid = release_where (\<lambda>l. lk_node l = node \<and> lk_owner l = Process pid)"

section \<open>Byte by byte\<close>

text \<open>Owner \<open>w\<close> holds byte \<open>b\<close> of \<open>node\<close> with kind \<open>k\<close>.\<close>

definition covers :: "lock list \<Rightarrow> nat \<Rightarrow> owner \<Rightarrow> u64 \<Rightarrow> lock_kind \<Rightarrow> bool" where
  "covers locks node w b k \<longleftrightarrow>
     (\<exists>l \<in> set locks. lk_node l = node \<and> lk_owner l = w \<and> lk_kind l = k \<and> lk_start l \<le> b \<and> b < lk_end l)"

lemma covers_simps [simp]:
  "\<not> covers [] n w b k"
  "covers (l # ls) n w b k \<longleftrightarrow>
     (lk_node l = n \<and> lk_owner l = w \<and> lk_kind l = k \<and> lk_start l \<le> b \<and> b < lk_end l) \<or> covers ls n w b k"
  "covers (ls @ ms) n w b k \<longleftrightarrow> covers ls n w b k \<or> covers ms n w b k"
  by (auto simp: covers_def)

lemma covers_kept_parts:
  "covers (kept_parts node owner start end' l) n w b k \<longleftrightarrow>
     covers [l] n w b k \<and> \<not> (n = node \<and> w = owner \<and> start \<le> b \<and> b < end')"
  by (auto simp: kept_parts_def)

lemma covers_kept:
  "covers (concat (map (kept_parts node owner start end') locks)) n w b k \<longleftrightarrow>
     covers locks n w b k \<and> \<not> (n = node \<and> w = owner \<and> start \<le> b \<and> b < end')"
  by (induction locks) (auto simp: covers_kept_parts)

lemma covers_replace:
  "covers (lock_replace locks node owner kind start end') n w b k \<longleftrightarrow>
     (if n = node \<and> w = owner \<and> start \<le> b \<and> b < end' then kind = Some k else covers locks n w b k)"
  by (auto simp: lock_replace_def covers_kept split: option.splits)

text \<open>
  The property the table keeps: one owner holds a byte one way, and two owners
  of one family hold a byte together only if both share it.
\<close>

definition exclusive :: "lock list \<Rightarrow> bool" where
  "exclusive locks \<longleftrightarrow>
     (\<forall>n w w' b k k'. covers locks n w b k \<and> covers locks n w' b k' \<longrightarrow>
        (w = w' \<longrightarrow> k = k') \<and> (w \<noteq> w' \<and> family w = family w' \<longrightarrow> k = Shared \<and> k' = Shared))"

lemma no_conflict_shared:
  assumes "conflicting locks node owner kind start end' = None"
    and "covers locks node w b k" "w \<noteq> owner" "family w = family owner" "start \<le> b" "b < end'"
  shows "k = Shared \<and> kind = Shared"
proof -
  from assms(2) obtain l where l: "l \<in> set locks" "lk_node l = node" "lk_owner l = w" "lk_kind l = k"
    "lk_start l \<le> b" "b < lk_end l" by (auto simp: covers_def)
  from l assms(5,6) have "lk_start l < end'" "start < lk_end l" by auto
  with assms(1) l assms(3,4) have "\<not> (k = Exclusive \<or> kind = Exclusive)"
    by (auto simp: conflicting_def find_None_iff)
  then show ?thesis by (cases k; cases kind) auto
qed

lemma exclusive_replace:
  assumes ex: "exclusive locks"
    and free: "\<And>k. kind = Some k \<Longrightarrow> conflicting locks node owner k start end' = None"
  shows "exclusive (lock_replace locks node owner kind start end')"
  unfolding exclusive_def
proof (intro allI impI)
  fix n w w' b k k'
  let ?new = "lock_replace locks node owner kind start end'"
  let ?in = "\<lambda>w. n = node \<and> w = owner \<and> start \<le> b \<and> b < end'"
  assume c: "covers ?new n w b k \<and> covers ?new n w' b k'"
  consider "?in w" "?in w'" | "?in w" "\<not> ?in w'" | "\<not> ?in w" "?in w'" | "\<not> ?in w" "\<not> ?in w'" by blast
  then show "(w = w' \<longrightarrow> k = k') \<and> (w \<noteq> w' \<and> family w = family w' \<longrightarrow> k = Shared \<and> k' = Shared)"
  proof cases
    case 2
    with c have "kind = Some k" "covers locks node w' b k'" "w' \<noteq> owner" by (auto simp: covers_replace)
    with 2 no_conflict_shared [OF free, of k w' b k'] show ?thesis by auto
  next
    case 3
    with c have "kind = Some k'" "covers locks node w b k" "w \<noteq> owner" by (auto simp: covers_replace)
    with 3 no_conflict_shared [OF free, of k' w b k] show ?thesis by auto
  next
    case 4
    with c ex show ?thesis by (simp only: covers_replace if_False exclusive_def) blast
  qed (use c in \<open>auto simp: covers_replace\<close>)
qed

lemma covers_filter: "covers (filter P ls) n w b k \<Longrightarrow> covers ls n w b k"
  by (auto simp: covers_def)

lemma exclusive_filter: "exclusive ls \<Longrightarrow> exclusive (filter P ls)"
  unfolding exclusive_def by (blast dest: covers_filter)

section \<open>Reachable tables\<close>

inductive lock_step :: "lock_table \<Rightarrow> lock_table \<Rightarrow> bool" where
  set: "set_turn t node owner kind start end' wait interrupt = Granted t' \<Longrightarrow> lock_step t t'"
| release: "lock_step t (lock_release owner t)"
| closed: "lock_step t (lock_closed node pid t)"

definition lock_init :: lock_table where
  "lock_init = \<lparr>LOCKS = [], lock_wakes = []\<rparr>"

lemma set_turn_Granted:
  "set_turn t node owner kind start end' wait interrupt = Granted t' \<longleftrightarrow>
     (\<forall>k. kind = Some k \<longrightarrow> conflicting (LOCKS t) node owner k start end' = None) \<and>
     t' = t\<lparr>LOCKS := lock_replace (LOCKS t) node owner kind start end', lock_wakes := lock_wakes t @ [node]\<rparr>"
  by (auto simp: set_turn_def Let_def split: option.splits)

lemma lock_step_exclusive:
  assumes "lock_step t t'" and "exclusive (LOCKS t)"
  shows "exclusive (LOCKS t')"
  using assms
proof cases
  case (set node owner kind start end' wait interrupt)
  then show ?thesis
    using assms(2) by (simp add: set_turn_Granted exclusive_replace)
qed (use assms(2) in \<open>simp_all add: lock_release_def lock_closed_def release_where_def Let_def
      exclusive_filter\<close>)

text \<open>
  C14. Exclusion. In every table the lock operations can reach, a byte of a file is
  never held by two owners of one family unless both hold it shared, and one
  owner holds a byte in one way only.
\<close>
theorem lock_exclusion:
  assumes "lock_step\<^sup>*\<^sup>* lock_init t"
    and "covers (LOCKS t) n w b k" and "covers (LOCKS t) n w' b k'" and "family w = family w'"
  shows "if w = w' then k = k' else k = Shared \<and> k' = Shared"
proof -
  have "exclusive (LOCKS t)"
    using assms(1)
    by (induction rule: rtranclp_induct)
       (auto simp: lock_init_def exclusive_def [of "[]"] intro: lock_step_exclusive)
  with assms(2-) show ?thesis by (auto simp: exclusive_def)
qed

definition demo_locks :: lock_table where
  "demo_locks = \<lparr>LOCKS = [\<lparr>lk_node = 1, lk_owner = Process 4, lk_kind = Shared, lk_start = 0, lk_end = 10\<rparr>,
     \<lparr>lk_node = 1, lk_owner = Ofd 9, lk_kind = Shared, lk_start = 5, lk_end = TO_END\<rparr>], lock_wakes = [1, 1]\<rparr>"

theorem lock_exclusion_witness:
  "covers (LOCKS demo_locks) 1 (Process 4) 7 Shared \<and> covers (LOCKS demo_locks) 1 (Ofd 9) 7 Shared \<and>
   (if Process 4 = Ofd 9 then Shared = Shared else Shared = Shared \<and> Shared = Shared)"
proof -
  let ?t = "\<lparr>LOCKS = [\<lparr>lk_node = 1, lk_owner = Process 4, lk_kind = Shared, lk_start = 0, lk_end = 10\<rparr>], lock_wakes = [1]\<rparr>"
  have "lock_step lock_init ?t"
    by (rule lock_step.set [of _ 1 "Process 4" "Some Shared" 0 10 False False])
       (simp add: set_turn_def lock_init_def conflicting_def lock_replace_def)
  moreover have "lock_step ?t demo_locks"
    by (rule lock_step.set [of _ 1 "Ofd 9" "Some Shared" 5 TO_END False False])
       (simp add: set_turn_def demo_locks_def conflicting_def lock_replace_def kept_parts_def)
  ultimately have r: "lock_step\<^sup>*\<^sup>* lock_init demo_locks" by auto
  have c: "covers (LOCKS demo_locks) 1 (Process 4) 7 Shared" "covers (LOCKS demo_locks) 1 (Ofd 9) 7 Shared"
    by (simp_all add: demo_locks_def TO_END_def)
  show ?thesis
    using c lock_exclusion [OF r c] by simp
qed



lemma set_remdups_sort [simp]: "set (remdups_adj (sort xs)) = set xs"
  by simp

text \<open>
  C16. No waiter is forgotten. Whoever is blocked on a conflicting lock is woken
  when that lock's owner lets go of it, at the end of the owner or, for a process,
  on a close of the file; and once no conflicting lock is left the next turn grants
  the request.
\<close>
theorem lock_waiter_woken:
  assumes "conflict t node owner k start end' = Some l"
  shows "node \<in> set (drop (length (lock_wakes t)) (lock_wakes (lock_release (lk_owner l) t))) \<and>
    (lk_owner l = Process pid \<longrightarrow>
       node \<in> set (drop (length (lock_wakes t)) (lock_wakes (lock_closed node pid t)))) \<and>
    (conflict t' node owner k start end' = None \<longrightarrow>
       (\<exists>t''. lock_set t' node owner (Some k) start end' wait ((interrupt, others) # rounds) = Some (t'', Ok ())))"
proof -
  from assms have l: "l \<in> set (LOCKS t)" "lk_node l = node"
    by (auto simp: conflict_def conflicting_def dest!: find_Some_in_set)
  then show ?thesis
    by (auto simp: lock_release_def lock_closed_def release_where_def Let_def conflict_def set_turn_def)
qed

theorem lock_waiter_woken_witness:
  "1 \<in> set (drop (length (lock_wakes demo_locks)) (lock_wakes (lock_release (Ofd 9) demo_locks)))"
proof -
  have "conflict demo_locks 1 (Process 4) Exclusive 8 9 =
      Some \<lparr>lk_node = 1, lk_owner = Ofd 9, lk_kind = Shared, lk_start = 5, lk_end = TO_END\<rparr>"
    by (simp add: conflict_def conflicting_def demo_locks_def TO_END_def)
  from lock_waiter_woken [OF this, of 0 demo_locks False False id "[]"] show ?thesis
    by (simp only: lock.select_convs simp_thms)
qed

end
