(* ===== verification/Rust_State.thy ===== *)
theory Rust_State
  imports Prelude
begin

text \<open>
  Methods that change \<^verbatim>\<open>self\<close> and may fail, as functions from a state to a result
  and the state afterwards (also after an error, as in Rust), with the
  combinators that stand for \<^verbatim>\<open>?\<close>, \<^verbatim>\<open>for\<close> and a caught error; and \<^verbatim>\<open>BTreeMap\<close> as
  an association list in key order. The rules of \<open>act_holds\<close>, \<open>act_keeps\<close> and
  \<open>act_ends\<close> reduce a fact about what an action may do, what it leaves as it is, or how it may
  end, to facts about its parts.
\<close>

named_theorems act_simps
named_theorems keeps

section \<open>Actions\<close>

type_synonym ('s, 'a, 'e) action = "'s \<Rightarrow> ('a, 'e) result \<times> 's"

definition act_return :: "'a \<Rightarrow> ('s, 'a, 'e) action" where
  "act_return a s = (Ok a, s)"

definition act_fail :: "'e \<Rightarrow> ('s, 'a, 'e) action" where
  "act_fail e s = (Err e, s)"

definition act_panic :: "('s, 'a, 'e) action" where
  "act_panic s = (Panic, s)"

definition act_lift :: "('a, 'e) result \<Rightarrow> ('s, 'a, 'e) action" where
  "act_lift r s = (r, s)"

definition act_gets :: "('s \<Rightarrow> 'a) \<Rightarrow> ('s, 'a, 'e) action" where
  "act_gets f s = (Ok (f s), s)"

definition act_update :: "('s \<Rightarrow> 's) \<Rightarrow> ('s, unit, 'e) action" where
  "act_update f s = (Ok (), f s)"

definition act_bind :: "('s, 'a, 'e) action \<Rightarrow> ('a \<Rightarrow> ('s, 'b, 'e) action) \<Rightarrow> ('s, 'b, 'e) action" where
  "act_bind m f s =
     (case m s of (Ok a, s') \<Rightarrow> f a s' | (Err e, s') \<Rightarrow> (Err e, s') | (Panic, s') \<Rightarrow> (Panic, s'))"

text \<open>The value of a call whose error is looked at instead of returned.\<close>

definition act_try :: "('s, 'a, 'e) action \<Rightarrow> ('s, ('a, 'e) result, 'e) action" where
  "act_try m s = (case m s of (Panic, s') \<Rightarrow> (Panic, s') | (r, s') \<Rightarrow> (Ok r, s'))"

definition act_when :: "bool \<Rightarrow> ('s, unit, 'e) action \<Rightarrow> ('s, unit, 'e) action" where
  "act_when b m = (if b then m else act_return ())"

text \<open>A \<^verbatim>\<open>for\<close> loop with an accumulator.\<close>

primrec act_fold :: "('x \<Rightarrow> 'a \<Rightarrow> ('s, 'a, 'e) action) \<Rightarrow> 'x list \<Rightarrow> 'a \<Rightarrow> ('s, 'a, 'e) action" where
  "act_fold f [] a = act_return a"
| "act_fold f (x # xs) a = act_bind (f x a) (act_fold f xs)"

text \<open>An action on a part of the state.\<close>

definition act_on :: "('s \<Rightarrow> 't) \<Rightarrow> ('t \<Rightarrow> 's \<Rightarrow> 's) \<Rightarrow> ('t, 'a, 'e) action \<Rightarrow> ('s, 'a, 'e) action" where
  "act_on get put m s = (case m (get s) of (r, t) \<Rightarrow> (r, put t s))"

lemma act_bind_cong [fundef_cong]:
  assumes "m s = m' s'" and "\<And>a t. m' s' = (Ok a, t) \<Longrightarrow> f a t = f' a t" and "s = s'"
  shows "act_bind m f s = act_bind m' f' s'"
  using assms by (auto simp: act_bind_def split: prod.splits result.splits)

lemma act_run [act_simps]:
  "act_return a s = (Ok a, s)" "act_fail e s = (Err e, s)" "act_panic s = (Panic, s)"
  "act_lift r s = (r, s)" "act_gets g s = (Ok (g s), s)" "act_update h s = (Ok (), h s)"
  by (simp_all add: act_return_def act_fail_def act_panic_def act_lift_def act_gets_def act_update_def)

lemma act_bind_run [act_simps]:
  "act_bind (act_return a) f s = f a s"
  "act_bind (act_fail e) f s = (Err e, s)"
  "act_bind act_panic f s = (Panic, s)"
  "act_bind (act_gets g) f s = f (g s) s"
  "act_bind (act_update h) f' s = f' () (h s)"
  "act_bind (act_lift (Ok a)) f s = f a s"
  "act_bind (act_lift (Err e)) f s = (Err e, s)"
  "act_bind (act_lift Panic) f s = (Panic, s)"
  by (simp_all add: act_bind_def act_run)

lemma act_bind_Ok: "m s = (Ok a, s') \<Longrightarrow> act_bind m f s = f a s'"
  by (simp add: act_bind_def)

lemma act_bind_Err: "m s = (Err e, s') \<Longrightarrow> act_bind m f s = (Err e, s')"
  by (simp add: act_bind_def)

lemma act_bind_eq_Ok:
  "act_bind m f s = (Ok b, t) \<longleftrightarrow> (\<exists>a s'. m s = (Ok a, s') \<and> f a s' = (Ok b, t))"
  by (auto simp: act_bind_def split: prod.splits result.splits)

section \<open>What an action may do\<close>

text \<open>
  \<open>act_holds I m Q\<close>: from a state with \<open>I\<close> the action does not panic, leaves \<open>I\<close>,
  and when it returns \<open>a\<close> its value and state satisfy \<open>Q a\<close>.
\<close>

definition act_holds :: "('s \<Rightarrow> bool) \<Rightarrow> ('s, 'a, 'e) action \<Rightarrow> ('a \<Rightarrow> 's \<Rightarrow> bool) \<Rightarrow> 's \<Rightarrow> bool" where
  "act_holds I m Q s \<longleftrightarrow>
     fst (m s) \<noteq> Panic \<and> I (snd (m s)) \<and> (\<forall>a. fst (m s) = Ok a \<longrightarrow> Q a (snd (m s)))"

lemma act_holds_bind:
  assumes "act_holds I m R s"
    and "\<And>a t. R a t \<Longrightarrow> I t \<Longrightarrow> act_holds I (f a) Q t"
  shows "act_holds I (act_bind m f) Q s"
  using assms
  by (cases "m s"; cases "fst (m s)") (fastforce simp: act_holds_def act_bind_def)+

lemma act_holds_return: "I s \<Longrightarrow> Q a s \<Longrightarrow> act_holds I (act_return a) Q s"
  by (simp add: act_holds_def act_run)

lemma act_holds_fail: "I s \<Longrightarrow> act_holds I (act_fail e) Q s"
  by (simp add: act_holds_def act_run)

lemma act_holds_gets: "I s \<Longrightarrow> Q (g s) s \<Longrightarrow> act_holds I (act_gets g) Q s"
  by (simp add: act_holds_def act_run)

lemma act_holds_mono:
  "act_holds I m Q s \<Longrightarrow> (\<And>a t. I t \<Longrightarrow> Q a t \<Longrightarrow> Q' a t) \<Longrightarrow> act_holds I m Q' s"
  by (auto simp: act_holds_def)

lemma act_holds_fold:
  assumes "R a s" and "I s"
    and step: "\<And>x a s. x \<in> set xs \<Longrightarrow> I s \<Longrightarrow> R a s \<Longrightarrow> act_holds I (f x a) R s"
  shows "act_holds I (act_fold f xs a) R s"
  using assms
proof (induction xs arbitrary: a s)
  case Nil
  then show ?case by (simp add: act_holds_return)
next
  case (Cons x xs)
  have "act_holds I (f x a) R s" by (rule Cons.prems(3)) (use Cons.prems in simp_all)
  then show ?case
    unfolding act_fold.simps by (rule act_holds_bind) (rule Cons.IH; use Cons.prems in simp)
qed

section \<open>What an action leaves as it is\<close>

text \<open>The part \<open>g\<close> of the state is the same after the action, whatever it returns.\<close>

definition act_keeps :: "('s \<Rightarrow> 'b) \<Rightarrow> ('s, 'a, 'e) action \<Rightarrow> bool" where
  "act_keeps g m \<longleftrightarrow> (\<forall>s. g (snd (m s)) = g s)"

lemma act_keepsD: "act_keeps g m \<Longrightarrow> m s = (r, s') \<Longrightarrow> g s' = g s"
  by (metis act_keeps_def snd_conv)

lemma act_keeps_bind [keeps]:
  assumes "act_keeps g m" and "\<And>a. act_keeps g (f a)"
  shows "act_keeps g (act_bind m f)"
  unfolding act_keeps_def
proof
  fix s
  obtain r t where m: "m s = (r, t)" by fastforce
  show "g (snd (act_bind m f s)) = g s"
    using act_keepsD [OF assms(1) m] assms(2) by (cases r) (simp_all add: act_bind_def m act_keeps_def)
qed

lemma act_keeps_run [keeps]:
  "act_keeps g (act_return a)" "act_keeps g (act_fail e)" "act_keeps g act_panic"
  "act_keeps g (act_lift r)" "act_keeps g (act_gets h)" "act_keeps g (\<lambda>s. (q s, s))"
  "(\<And>s. g (u s) = g s) \<Longrightarrow> act_keeps g (act_update u)"
  by (simp_all add: act_keeps_def act_run)

lemma act_keeps_cases [keeps]:
  "(b \<Longrightarrow> act_keeps g m) \<Longrightarrow> (\<not> b \<Longrightarrow> act_keeps g m') \<Longrightarrow> act_keeps g (if b then m else m')"
  "(\<And>x. act_keeps g (f x)) \<Longrightarrow> act_keeps g n \<Longrightarrow> act_keeps g (case z of None \<Rightarrow> n | Some x \<Rightarrow> f x)"
  "(\<And>x y. act_keeps g (h x y)) \<Longrightarrow> act_keeps g (case p of (x, y) \<Rightarrow> h x y)"
  by (simp_all split: option.split prod.split)

lemma act_keeps_when [keeps]: "act_keeps g m \<Longrightarrow> act_keeps g (act_when b m)"
  by (simp add: act_when_def act_keeps_run)

lemma act_keeps_on [keeps]:
  "(\<And>t s. g (put t s) = g s) \<Longrightarrow> act_keeps g (act_on get put m)"
  by (simp add: act_keeps_def act_on_def split: prod.split)

section \<open>How an action may end\<close>

text \<open>
  \<open>act_ends E m Q s\<close>: from \<open>s\<close> the action returns a value and state with \<open>Q\<close> or an error of \<open>E\<close>,
  and does not panic.
\<close>

definition act_ends :: "'e set \<Rightarrow> ('s, 'a, 'e) action \<Rightarrow> ('a \<Rightarrow> 's \<Rightarrow> bool) \<Rightarrow> 's \<Rightarrow> bool" where
  "act_ends E m Q s \<longleftrightarrow> (case m s of (Ok a, t) \<Rightarrow> Q a t | (Err e, t) \<Rightarrow> e \<in> E | (Panic, t) \<Rightarrow> False)"

lemma act_ends_bind:
  assumes "act_ends E m R s" and "\<And>a t. m s = (Ok a, t) \<Longrightarrow> R a t \<Longrightarrow> act_ends E (f a) Q t"
  shows "act_ends E (act_bind m f) Q s"
  using assms by (auto simp: act_ends_def act_bind_def split: prod.splits result.splits)

lemma act_ends_run:
  "Q a s \<Longrightarrow> act_ends E (act_return a) Q s" "Q a s \<Longrightarrow> r = Ok a \<Longrightarrow> act_ends E (act_lift r) Q s"
  "e \<in> E \<Longrightarrow> act_ends E (act_fail e) Q s" "Q (g s) s \<Longrightarrow> act_ends E (act_gets g) Q s"
  by (simp_all add: act_ends_def act_run)

lemma act_ends_mono:
  assumes "act_ends E m Q s" and "\<And>a t. m s = (Ok a, t) \<Longrightarrow> Q a t \<Longrightarrow> Q' a t"
  shows "act_ends E m Q' s"
  using assms by (auto simp: act_ends_def split: prod.splits result.splits)

lemma act_fold_append: "act_fold f (xs @ ys) a s = act_bind (act_fold f xs a) (act_fold f ys) s"
proof (induction xs arbitrary: a s)
  case (Cons x xs)
  then show ?case by (auto simp: act_bind_def split: prod.split result.split)
qed (simp add: act_simps)

lemma act_ends_fold:
  assumes "P [] a s" and "\<And>ys x zs b t. xs = ys @ x # zs \<Longrightarrow> P ys b t \<Longrightarrow> act_ends E (f x b) (P (ys @ [x])) t"
  shows "act_ends E (act_fold f xs a) (P xs) s"
  using assms
proof (induction xs rule: rev_induct)
  case Nil
  then show ?case by (simp add: act_ends_run)
next
  case (snoc x xs)
  have "act_ends E (act_fold f xs a) (P xs) s" by (rule snoc.IH) (use snoc.prems in auto)
  then have "act_ends E (act_bind (act_fold f xs a) (act_fold f [x])) (P (xs @ [x])) s"
  proof (rule act_ends_bind)
    fix b t assume "P xs b t"
    then have "act_ends E (f x b) (P (xs @ [x])) t" using snoc.prems(2) [of xs x "[]" b t] by simp
    then show "act_ends E (act_fold f [x] b) (P (xs @ [x])) t"
      by (auto simp: act_ends_def act_bind_def act_run split: prod.splits result.splits)
  qed
  then show ?case by (simp add: act_ends_def act_fold_append)
qed

lemma act_ends_upt:
  assumes "P 0 a s" and "\<And>i b t. i < n \<Longrightarrow> P i b t \<Longrightarrow> act_ends E (f i b) (P (Suc i)) t"
  shows "act_ends E (act_fold f [0..<n] a) (P n) s"
proof -
  have "act_ends E (act_fold f [0..<n] a) (\<lambda>b. P (length [0..<n]) b) s"
  proof (rule act_ends_fold [of "\<lambda>ys. P (length ys)"])
    fix ys x zs b t assume e: "[0..<n] = ys @ x # zs" and P: "P (length ys) b t"
    have "length ys < n" using arg_cong [OF e, of length] by simp
    moreover have "x = [0..<n] ! length ys" unfolding e by simp
    ultimately show "act_ends E (f x b) (P (length (ys @ [x]))) t" using assms(2) P by simp
  qed (use assms(1) in simp)
  then show ?thesis by simp
qed

lemma act_ends_lift: "r = Ok a \<Longrightarrow> act_ends E (f a) Q s \<Longrightarrow> act_ends E (act_bind (act_lift r) f) Q s"
  by (simp add: act_ends_def act_simps)

section \<open>BTreeMap\<close>

definition bt_get :: "'k \<Rightarrow> ('k \<times> 'v) list \<Rightarrow> 'v option" where
  "bt_get k m = map_of m k"

fun bt_insert :: "'k::linorder \<Rightarrow> 'v \<Rightarrow> ('k \<times> 'v) list \<Rightarrow> ('k \<times> 'v) list" where
  "bt_insert k v [] = [(k, v)]"
| "bt_insert k v ((l, w) # m) =
     (if k < l then (k, v) # (l, w) # m else if k = l then (k, v) # m else (l, w) # bt_insert k v m)"

definition bt_remove :: "'k \<Rightarrow> ('k \<times> 'v) list \<Rightarrow> ('k \<times> 'v) list" where
  "bt_remove k m = filter (\<lambda>(l, _). l \<noteq> k) m"

definition bt_wf :: "('k::linorder \<times> 'v) list \<Rightarrow> bool" where
  "bt_wf m \<longleftrightarrow> sorted_wrt (<) (map fst m)"

lemma bt_wf_Nil [simp]: "bt_wf []"
  by (simp add: bt_wf_def)

lemma bt_insert_keys: "fst ` set (bt_insert k v m) = insert k (fst ` set m)"
  by (induction k v m rule: bt_insert.induct) auto

lemma bt_wf_insert [simp]: "bt_wf m \<Longrightarrow> bt_wf (bt_insert k v m)"
proof (induction k v m rule: bt_insert.induct)
  case (2 k v l w m)
  have "set (map fst (bt_insert k v m)) = insert k (set (map fst m))"
    using bt_insert_keys [of k v m] by simp
  with 2 show ?case by (force simp: bt_wf_def)
qed (simp add: bt_wf_def)

lemma bt_get_insert: "bt_wf m \<Longrightarrow> bt_get j (bt_insert k v m) = (if j = k then Some v else bt_get j m)"
proof (induction k v m rule: bt_insert.induct)
  case (2 k v l w m)
  show ?case
  proof (cases "k < l")
    case True
    with 2(2) have "map_of m k = None" by (force simp: bt_wf_def map_of_eq_None_iff)
    with True show ?thesis by (auto simp: bt_get_def)
  next
    case False
    with 2 show ?thesis by (auto simp: bt_get_def bt_wf_def)
  qed
qed (simp add: bt_get_def)

lemma map_filter_fst: "map fst (filter (\<lambda>(l, _). P l) m) = filter P (map fst m)"
  by (induction m) auto

lemma bt_wf_remove [simp]: "bt_wf m \<Longrightarrow> bt_wf (bt_remove k m)"
  unfolding bt_wf_def bt_remove_def map_filter_fst by (rule sorted_wrt_filter)

lemma bt_get_remove: "bt_get j (bt_remove k m) = (if j = k then None else bt_get j m)"
  by (induction m) (auto simp: bt_get_def bt_remove_def)

lemma bt_get_Nil [simp]: "bt_get k [] = None"
  by (simp add: bt_get_def)

lemma bt_wf_distinct: "bt_wf m \<Longrightarrow> distinct (map fst m)"
  unfolding bt_wf_def by (metis strict_sorted_iff)

lemma bt_get_in: "bt_get k m = Some v \<Longrightarrow> (k, v) \<in> set m"
  by (simp add: bt_get_def map_of_SomeD)

lemma bt_in_get: "bt_wf m \<Longrightarrow> (k, v) \<in> set m \<Longrightarrow> bt_get k m = Some v"
  by (simp add: bt_get_def bt_wf_distinct)

text \<open>\<^verbatim>\<open>iter().min_by_key(key)\<close>: the first element with the least key.\<close>

fun min_by_key :: "('a \<Rightarrow> nat) \<Rightarrow> 'a list \<Rightarrow> 'a option" where
  "min_by_key k [] = None"
| "min_by_key k (x # xs) =
     (case min_by_key k xs of None \<Rightarrow> Some x | Some y \<Rightarrow> if k x \<le> k y then Some x else Some y)"

lemma min_by_key_None [simp]: "min_by_key k xs = None \<longleftrightarrow> xs = []"
  by (cases xs) (auto split: option.splits)

lemma min_by_key_Some: "min_by_key k xs = Some m \<Longrightarrow> m \<in> set xs \<and> (\<forall>x \<in> set xs. k m \<le> k x)"
proof (induction xs arbitrary: m)
  case (Cons x xs)
  then show ?case
    by (cases "min_by_key k xs") (fastforce split: if_splits)+
qed simp

end
