(* ===== verification/Ext2_Layout.thy ===== *)
theory Ext2_Layout
  imports Byte_Order
begin

text \<open>
  The on-disk constants, field accessors and geometry of ext2
  (\<^verbatim>\<open>modules/ext2/ext2fs/src/layout.rs\<close> and the types of \<^verbatim>\<open>lib.rs\<close>). A 32-bit count or
  block number is a natural number here; where an operation of the code could
  leave its width the model says what happens (\<open>u32_add\<close> panics, as the checked
  arithmetic of the build does). The lemmas show that an accepted superblock
  describes a partition of the disk into groups, and which groups carry a backup.
\<close>

section \<open>Types\<close>

datatype ext2_error = NotFound | Exists | NotDir | IsDir | NotEmpty | NoSpace | TooBig | Invalid | Unsupported | Io

datatype ext2_kind = File | Dir | Symlink | Other

definition u32_MAX :: nat where "u32_MAX = 4294967295"

definition u32_add :: "nat \<Rightarrow> nat \<Rightarrow> (nat, 'e) result" where
  "u32_add a b = (if a + b \<le> u32_MAX then Ok (a + b) else Panic)"

section \<open>Constants\<close>

definition MAGIC :: u16 where "MAGIC = 0xEF53"
definition SB_OFFSET :: nat where "SB_OFFSET = 1024"
definition SB_SIZE :: nat where "SB_SIZE = 1024"
definition ROOT_INO :: nat where "ROOT_INO = 2"
definition GOOD_OLD_FIRST_INO :: nat where "GOOD_OLD_FIRST_INO = 11"
definition GOOD_OLD_INODE_SIZE :: nat where "GOOD_OLD_INODE_SIZE = 128"
definition GD_SIZE :: nat where "GD_SIZE = 32"

definition E_IFMT :: u16 where "E_IFMT = 0xF000"
definition E_IFREG :: u16 where "E_IFREG = 0x8000"
definition E_IFDIR :: u16 where "E_IFDIR = 0x4000"
definition E_IFLNK :: u16 where "E_IFLNK = 0xA000"

definition FT_REG :: u8 where "FT_REG = 1"
definition FT_DIR :: u8 where "FT_DIR = 2"
definition FT_SYMLINK :: u8 where "FT_SYMLINK = 7"

definition INDEX_FL :: u32 where "INDEX_FL = 0x1000"

definition INCOMPAT_FILETYPE :: u32 where "INCOMPAT_FILETYPE = 2"
definition RO_COMPAT_SPARSE_SUPER :: u32 where "RO_COMPAT_SPARSE_SUPER = 1"
definition RO_COMPAT_LARGE_FILE :: u32 where "RO_COMPAT_LARGE_FILE = 2"

definition S_INODES_COUNT :: nat where "S_INODES_COUNT = 0"
definition S_BLOCKS_COUNT :: nat where "S_BLOCKS_COUNT = 4"
definition S_FREE_BLOCKS :: nat where "S_FREE_BLOCKS = 12"
definition S_FREE_INODES :: nat where "S_FREE_INODES = 16"
definition S_FIRST_DATA_BLOCK :: nat where "S_FIRST_DATA_BLOCK = 20"
definition S_LOG_BLOCK_SIZE :: nat where "S_LOG_BLOCK_SIZE = 24"
definition S_BLOCKS_PER_GROUP :: nat where "S_BLOCKS_PER_GROUP = 32"
definition S_INODES_PER_GROUP :: nat where "S_INODES_PER_GROUP = 40"
definition S_WTIME :: nat where "S_WTIME = 48"
definition S_MAGIC :: nat where "S_MAGIC = 56"
definition S_STATE :: nat where "S_STATE = 58"
definition S_REV_LEVEL :: nat where "S_REV_LEVEL = 76"
definition S_FIRST_INO :: nat where "S_FIRST_INO = 84"
definition S_INODE_SIZE :: nat where "S_INODE_SIZE = 88"
definition S_BLOCK_GROUP_NR :: nat where "S_BLOCK_GROUP_NR = 90"
definition S_FEATURE_INCOMPAT :: nat where "S_FEATURE_INCOMPAT = 96"
definition S_FEATURE_RO_COMPAT :: nat where "S_FEATURE_RO_COMPAT = 100"

lemmas sb_fields = S_INODES_COUNT_def S_BLOCKS_COUNT_def S_FREE_BLOCKS_def S_FREE_INODES_def
  S_FIRST_DATA_BLOCK_def S_LOG_BLOCK_SIZE_def S_BLOCKS_PER_GROUP_def S_INODES_PER_GROUP_def
  S_WTIME_def S_MAGIC_def S_STATE_def S_REV_LEVEL_def S_FIRST_INO_def S_INODE_SIZE_def
  S_BLOCK_GROUP_NR_def S_FEATURE_INCOMPAT_def S_FEATURE_RO_COMPAT_def

definition G_BLOCK_BITMAP :: nat where "G_BLOCK_BITMAP = 0"
definition G_INODE_BITMAP :: nat where "G_INODE_BITMAP = 4"
definition G_INODE_TABLE :: nat where "G_INODE_TABLE = 8"
definition G_FREE_BLOCKS :: nat where "G_FREE_BLOCKS = 12"
definition G_FREE_INODES :: nat where "G_FREE_INODES = 14"
definition G_USED_DIRS :: nat where "G_USED_DIRS = 16"

lemmas gd_fields = G_BLOCK_BITMAP_def G_INODE_BITMAP_def G_INODE_TABLE_def G_FREE_BLOCKS_def
  G_FREE_INODES_def G_USED_DIRS_def GD_SIZE_def

section \<open>Fields in byte arrays\<close>

definition get16 :: "bytes \<Rightarrow> nat \<Rightarrow> (u16, 'e) result" where
  "get16 b off = bind_result (get_range off (off + 2) b) (\<lambda>s. Ok (from_le16 s))"

definition get32 :: "bytes \<Rightarrow> nat \<Rightarrow> (u32, 'e) result" where
  "get32 b off = bind_result (get_range off (off + 4) b) (\<lambda>s. Ok (from_le32 s))"

definition put16 :: "bytes \<Rightarrow> nat \<Rightarrow> u16 \<Rightarrow> (bytes, 'e) result" where
  "put16 b off v = put_range off (off + 2) (to_le16 v) b"

definition put32 :: "bytes \<Rightarrow> nat \<Rightarrow> u32 \<Rightarrow> (bytes, 'e) result" where
  "put32 b off v = put_range off (off + 4) (to_le32 v) b"

section \<open>Geometry\<close>

record geometry =
  block_size :: nat
  first_data_block :: nat
  blocks_count :: nat
  inodes_count :: nat
  blocks_per_group :: nat
  inodes_per_group :: nat
  inode_size :: nat
  first_ino :: nat
  groups :: nat
  filetype :: bool
  large_file :: bool

definition is_power_of_two :: "nat \<Rightarrow> bool" where
  "is_power_of_two n \<longleftrightarrow> n \<in> (\<lambda>k. 2 ^ k) ` {..<64}"

definition geometry_ok :: "geometry \<Rightarrow> bool" where
  "geometry_ok g \<longleftrightarrow>
     \<not> (blocks_per_group g = 0 \<or> blocks_per_group g > block_size g * 8 \<or>
        inodes_per_group g = 0 \<or> inodes_per_group g > block_size g * 8 \<or>
        \<not> (128 \<le> inode_size g \<and> inode_size g \<le> block_size g) \<or>
        \<not> is_power_of_two (inode_size g) \<or> first_ino g \<le> ROOT_INO \<or>
        blocks_count g \<le> first_data_block g)"

definition geometry_check :: "geometry \<Rightarrow> (geometry, ext2_error) result" where
  "geometry_check g =
     (if \<not> geometry_ok g then Err Unsupported
      else
        let n = div_ceil (blocks_count g - first_data_block g) (blocks_per_group g)
        in if n * inodes_per_group g \<noteq> inodes_count g then Err Unsupported
           else Ok (g\<lparr>groups := n\<rparr>))"

definition geometry_parse :: "bytes \<Rightarrow> (geometry, ext2_error) result" where
  "geometry_parse sb =
     bind_result (get16 sb S_MAGIC) (\<lambda>magic.
     if magic \<noteq> MAGIC then Err Unsupported else
     bind_result (get32 sb S_LOG_BLOCK_SIZE) (\<lambda>log.
     if 2 < log then Err Unsupported else
     bind_result (get32 sb S_REV_LEVEL) (\<lambda>rev.
     bind_result (if 1 \<le> rev then get32 sb S_FEATURE_INCOMPAT else Ok 0) (\<lambda>incompat.
     bind_result (if 1 \<le> rev then get32 sb S_FEATURE_RO_COMPAT else Ok 0) (\<lambda>ro_compat.
     if incompat AND NOT INCOMPAT_FILETYPE \<noteq> 0 \<or>
        ro_compat AND NOT (RO_COMPAT_SPARSE_SUPER OR RO_COMPAT_LARGE_FILE) \<noteq> 0 then Err Unsupported else
     bind_result (if 1 \<le> rev then bind_result (get16 sb S_INODE_SIZE) (\<lambda>w. Ok (unat w))
                  else Ok GOOD_OLD_INODE_SIZE) (\<lambda>inode_size.
     bind_result (if 1 \<le> rev then bind_result (get32 sb S_FIRST_INO) (\<lambda>w. Ok (unat w))
                  else Ok GOOD_OLD_FIRST_INO) (\<lambda>first_ino.
     bind_result (get32 sb S_FIRST_DATA_BLOCK) (\<lambda>first_data.
     bind_result (get32 sb S_BLOCKS_COUNT) (\<lambda>blocks.
     bind_result (get32 sb S_INODES_COUNT) (\<lambda>inodes.
     bind_result (get32 sb S_BLOCKS_PER_GROUP) (\<lambda>bpg.
     bind_result (get32 sb S_INODES_PER_GROUP) (\<lambda>ipg.
     geometry_check \<lparr>block_size = 1024 * 2 ^ unat log, first_data_block = unat first_data,
              blocks_count = unat blocks, inodes_count = unat inodes,
              blocks_per_group = unat bpg, inodes_per_group = unat ipg,
              inode_size = inode_size, first_ino = first_ino, groups = 0,
              filetype = (incompat AND INCOMPAT_FILETYPE \<noteq> 0),
              large_file = (ro_compat AND RO_COMPAT_LARGE_FILE \<noteq> 0)\<rparr>))))))))))))"

text \<open>
  The sums and products below stay in 32 bits for the groups and blocks of an
  accepted geometry (\<open>group_first_less\<close>).
\<close>

definition group_first :: "geometry \<Rightarrow> nat \<Rightarrow> nat" where
  "group_first geo g = first_data_block geo + g * blocks_per_group geo"

definition group_blocks :: "geometry \<Rightarrow> nat \<Rightarrow> nat" where
  "group_blocks geo g = min (blocks_count geo - group_first geo g) (blocks_per_group geo)"

definition group_of_block :: "geometry \<Rightarrow> nat \<Rightarrow> nat" where
  "group_of_block geo b = (max b (first_data_block geo) - first_data_block geo) div blocks_per_group geo"

definition gdt_blocks :: "geometry \<Rightarrow> nat" where
  "gdt_blocks geo = div_ceil (groups geo * GD_SIZE) (block_size geo)"

definition ptrs :: "geometry \<Rightarrow> nat" where
  "ptrs geo = block_size geo div 4"

text \<open>
  The loop of \<^verbatim>\<open>has_super\<close>: multiply until \<open>g\<close> is reached, saturating at
  \<^verbatim>\<open>u32::MAX\<close>. The bounds on \<open>p\<close> and \<open>n\<close> hold for the three bases and a 32-bit \<open>g\<close>.
\<close>

function reach_power :: "nat \<Rightarrow> nat \<Rightarrow> nat \<Rightarrow> nat" where
  "reach_power p g n = (if n < g \<and> 1 < p \<and> 0 < n \<and> n < u32_MAX then reach_power p g (min (n * p) u32_MAX) else n)"
  by pat_completeness auto
termination
proof (relation "measure (\<lambda>(p, g, n). u32_MAX - n)")
  fix p g n :: nat
  assume a: "n < g \<and> 1 < p \<and> 0 < n \<and> n < u32_MAX"
  then have "n < n * p" by simp
  with a have "u32_MAX - min (n * p) u32_MAX < u32_MAX - n" by linarith
  then show "((p, g, min (n * p) u32_MAX), p, g, n) \<in> measure (\<lambda>(p, g, n). u32_MAX - n)"
    by simp
qed simp

declare reach_power.simps [simp del]

definition has_super :: "nat \<Rightarrow> bool \<Rightarrow> bool" where
  "has_super g sparse \<longleftrightarrow>
     (if \<not> sparse \<or> g \<le> 1 then True else list_ex (\<lambda>p. reach_power p g p = g) [3, 5, 7])"

section \<open>Fields\<close>

lemma get_put_range:
  assumes "put_range a (a + n) v b = Ok b'" and "c + m \<le> a \<or> a + n \<le> c"
  shows "get_range c (c + m) b' = (get_range c (c + m) b :: (bytes, 'e) result)"
proof -
  from assms(1) have b: "b' = splice a v b" "a + n \<le> length b" "length v = n"
    by (auto simp: put_range_def split: if_splits)
  have l: "length b' = length b" using b by simp
  have "slice c (c + m) b' = slice c (c + m) b" if "c + m \<le> length b"
    by (rule nth_equalityI) (use that b assms(2) in \<open>auto simp: slice_simps\<close>)
  then show ?thesis by (simp add: get_range_def l)
qed

lemma get_put_same:
  assumes "put_range a (a + n) v b = Ok b'"
  shows "get_range a (a + n) b' = Ok v"
proof -
  from assms have b: "b' = splice a v b" "a + n \<le> length b" "length v = n"
    by (auto simp: put_range_def split: if_splits)
  have "slice a (a + n) b' = v"
    by (rule nth_equalityI) (use b in \<open>auto simp: slice_simps\<close>)
  then show ?thesis using b by (simp add: get_range_def)
qed

lemma get16_put16 [simp]: "put16 b off v = Ok b' \<Longrightarrow> get16 b' off = Ok v"
  unfolding put16_def get16_def by (simp only: get_put_same bind_result.simps from_to_le)

lemma get32_put32 [simp]: "put32 b off v = Ok b' \<Longrightarrow> get32 b' off = Ok v"
  unfolding put32_def get32_def by (simp only: get_put_same bind_result.simps from_to_le)

lemma get_put_other:
  "put16 b off v = Ok b' \<Longrightarrow> c + 2 \<le> off \<or> off + 2 \<le> c \<Longrightarrow> get16 b' c = get16 b c"
  "put16 b off v = Ok b' \<Longrightarrow> c + 4 \<le> off \<or> off + 2 \<le> c \<Longrightarrow> get32 b' c = get32 b c"
  "put32 b off w = Ok b' \<Longrightarrow> c + 2 \<le> off \<or> off + 4 \<le> c \<Longrightarrow> get16 b' c = get16 b c"
  "put32 b off w = Ok b' \<Longrightarrow> c + 4 \<le> off \<or> off + 4 \<le> c \<Longrightarrow> get32 b' c = get32 b c"
  unfolding put16_def get16_def put32_def get32_def
  by (simp_all only: get_put_range)

lemma put_ok:
  "off + 2 \<le> length b \<Longrightarrow> put16 b off v = Ok (splice off (to_le16 v) b)"
  "off + 4 \<le> length b \<Longrightarrow> put32 b off w = Ok (splice off (to_le32 w) b)"
  by (simp_all add: put16_def put32_def put_range_def)

lemma get_ok:
  "off + 2 \<le> length b \<Longrightarrow> get16 b off = Ok (from_le16 (slice off (off + 2) b))"
  "off + 4 \<le> length b \<Longrightarrow> get32 b off = Ok (from_le32 (slice off (off + 4) b))"
  by (simp_all add: get16_def get32_def get_range_def)

lemma put_length:
  "put16 b off v = Ok b' \<Longrightarrow> length b' = length b"
  "put32 b off w = Ok b' \<Longrightarrow> length b' = length b"
  by (auto simp: put16_def put32_def put_range_def split: if_splits)

section \<open>Structures of fields\<close>

text \<open>Fields written one after the other: where each is and its bytes.\<close>

type_synonym fields = "(nat \<times> bytes) list"

fun put_all :: "fields \<Rightarrow> bytes \<Rightarrow> (bytes, 'e) result" where
  "put_all [] b = Ok b"
| "put_all ((off, d) # fs) b = bind_result (put_range off (off + length d) d b) (put_all fs)"

fun overlay :: "fields \<Rightarrow> bytes \<Rightarrow> bytes" where
  "overlay [] b = b"
| "overlay ((off, d) # fs) b = overlay fs (splice off d b)"

text \<open>The fields are in ascending order between \<open>lo\<close> and \<open>hi\<close> and do not overlap.\<close>

fun fields_in :: "nat \<Rightarrow> fields \<Rightarrow> nat \<Rightarrow> bool" where
  "fields_in lo [] hi \<longleftrightarrow> lo \<le> hi"
| "fields_in lo ((off, d) # fs) hi \<longleftrightarrow> lo \<le> off \<and> fields_in (off + length d) fs hi"

definition fields_hold :: "fields \<Rightarrow> bytes \<Rightarrow> bool" where
  "fields_hold fs b \<longleftrightarrow> list_all (\<lambda>(off, d). off + length d \<le> length b \<and> slice off (off + length d) b = d) fs"

text \<open>No field has a byte of the range.\<close>

definition fields_miss :: "fields \<Rightarrow> nat \<Rightarrow> nat \<Rightarrow> bool" where
  "fields_miss fs c m \<longleftrightarrow> list_all (\<lambda>(off, d). c + m \<le> off \<or> off + length d \<le> c) fs"

lemma fields_in_le: "fields_in lo fs hi \<Longrightarrow> lo \<le> hi"
  by (induction lo fs hi rule: fields_in.induct) auto

lemma put_all_overlay:
  "fields_in lo fs (length b) \<Longrightarrow> put_all fs b = Ok (overlay fs b) \<and> length (overlay fs b) = length b"
proof (induction fs b arbitrary: lo rule: overlay.induct)
  case (2 off d fs b)
  have le: "off + length d \<le> length b" using 2(2) fields_in_le by fastforce
  then have len: "length (splice off d b) = length b" by simp
  from 2(1) [of "off + length d"] 2(2) le show ?case by (simp add: put_range_def len)
qed simp

lemma slice_splice_other:
  "off + length d \<le> length b \<Longrightarrow> c + m \<le> length b \<Longrightarrow> c + m \<le> off \<or> off + length d \<le> c \<Longrightarrow>
    slice c (c + m) (splice off d b) = slice c (c + m) b"
  by (rule nth_equalityI) (auto simp: slice_simps)

lemma overlay_miss:
  "fields_in lo fs (length b) \<Longrightarrow> fields_miss fs c m \<Longrightarrow> c + m \<le> length b \<Longrightarrow>
    slice c (c + m) (overlay fs b) = slice c (c + m) b"
proof (induction fs b arbitrary: lo rule: overlay.induct)
  case (2 off d fs b)
  have le: "off + length d \<le> length b" using 2(2) fields_in_le by fastforce
  then have len: "length (splice off d b) = length b" by simp
  have "slice c (c + m) (overlay fs (splice off d b)) = slice c (c + m) (splice off d b)"
    by (rule 2(1) [of "off + length d"]) (use 2(2-) len in \<open>auto simp: fields_miss_def\<close>)
  also have "\<dots> = slice c (c + m) b"
    by (rule slice_splice_other [OF le 2(4)]) (use 2(3) in \<open>auto simp: fields_miss_def\<close>)
  finally show ?case by simp
qed simp

lemma fields_in_miss: "fields_in lo fs hi \<Longrightarrow> c + m \<le> lo \<Longrightarrow> fields_miss fs c m"
  by (induction lo fs hi rule: fields_in.induct) (auto simp: fields_miss_def)

lemma overlay_hold: "fields_in lo fs (length b) \<Longrightarrow> fields_hold fs (overlay fs b)"
proof (induction fs b arbitrary: lo rule: overlay.induct)
  case (2 off d fs b)
  have le: "off + length d \<le> length b" using 2(2) fields_in_le by fastforce
  have len: "length (splice off d b) = length b" using le by simp
  have f: "fields_in (off + length d) fs (length (splice off d b))" using 2(2) len by simp
  have "slice off (off + length d) (overlay fs (splice off d b)) = slice off (off + length d) (splice off d b)"
    by (rule overlay_miss [OF f fields_in_miss [OF f]]) (use le len in simp_all)
  also have "\<dots> = d" using le by (simp add: slice_def splice_def)
  finally show ?case
    using 2(1) [OF f] put_all_overlay [OF f, where 'a = unit] le len by (simp add: fields_hold_def)
qed (simp add: fields_hold_def)

lemma put_all_same: "fields_hold fs b \<Longrightarrow> put_all fs b = Ok b"
proof (induction fs)
  case (Cons f fs)
  obtain off d where f: "f = (off, d)" by fastforce
  have h: "off + length d \<le> length b" "slice off (off + length d) b = d" using Cons.prems by (auto simp: fields_hold_def f)
  have "splice off d b = b"
  proof (rule nth_equalityI)
    fix i assume i: "i < length (splice off d b)"
    show "splice off d b ! i = b ! i"
    proof (cases "off \<le> i \<and> i < off + length d")
      case True
      then have "slice off (off + length d) b ! (i - off) = b ! i" using h(1) by (subst nth_slice) auto
      then show ?thesis using True h i by (simp add: nth_splice)
    qed (use h(1) i in \<open>auto simp: nth_splice\<close>)
  qed (use h(1) in simp)
  then show ?case using Cons h by (simp add: f put_range_def fields_hold_def)
qed simp

lemma put_all_fun:
  "put_all [] = Ok"
  "put_all ((off, d) # fs) = (\<lambda>b. bind_result (put_range off (off + length d) d b) (put_all fs))"
  by (simp_all add: fun_eq_iff)

lemma put_all_append: "put_all (fs @ gs) b = (bind_result (put_all fs b) (put_all gs) :: (bytes, 'e) result)"
proof (induction fs arbitrary: b)
  case (Cons f fs)
  have "put_all (fs @ gs) = (\<lambda>b. bind_result (put_all fs b) (put_all gs) :: (bytes, 'e) result)" by (rule ext) (rule Cons.IH)
  then show ?case by (cases f) (simp add: bind_result_assoc)
qed simp

lemma fields_hold_simps [simp]:
  "fields_hold [] b" 
  "fields_hold ((off, d) # fs) b \<longleftrightarrow> off + length d \<le> length b \<and> slice off (off + length d) b = d \<and> fields_hold fs b"
  "fields_hold (fs @ gs) b \<longleftrightarrow> fields_hold fs b \<and> fields_hold gs b"
  by (auto simp: fields_hold_def)

lemma get_as_slice:
  "get16 b off = Ok v \<longleftrightarrow> off + 2 \<le> length b \<and> slice off (off + 2) b = to_le16 v"
  "get32 b off = Ok w \<longleftrightarrow> off + 4 \<le> length b \<and> slice off (off + 4) b = to_le32 w"
proof -
  show "get16 b off = Ok v \<longleftrightarrow> off + 2 \<le> length b \<and> slice off (off + 2) b = to_le16 v"
    using to_from_le(1) [of "slice off (off + 2) b"] by (auto simp: get16_def get_range_def)
  show "get32 b off = Ok w \<longleftrightarrow> off + 4 \<le> length b \<and> slice off (off + 4) b = to_le32 w"
    using to_from_le(2) [of "slice off (off + 4) b"] by (auto simp: get32_def get_range_def)
qed

lemma fields_miss_simps [simp]:
  "fields_miss [] c m"
  "fields_miss ((off, d) # fs) c m \<longleftrightarrow> (c + m \<le> off \<or> off + length d \<le> c) \<and> fields_miss fs c m"
  "fields_miss (fs @ gs) c m \<longleftrightarrow> fields_miss fs c m \<and> fields_miss gs c m"
  by (auto simp: fields_miss_def)

section \<open>Block groups\<close>

definition wf_geometry :: "geometry \<Rightarrow> bool" where
  "wf_geometry g \<longleftrightarrow>
     geometry_ok g \<and> block_size g \<in> {1024, 2048, 4096} \<and> blocks_count g \<le> u32_MAX \<and>
     inodes_count g \<le> u32_MAX \<and>
     groups g = div_ceil (blocks_count g - first_data_block g) (blocks_per_group g) \<and>
     groups g * inodes_per_group g = inodes_count g"

lemma unat_u32_le: "unat (w :: u32) \<le> u32_MAX"
  using unat_bounds(3) [of w] by (simp add: u32_MAX_def)

lemma small_log: "\<not> (2 :: u32) < log \<Longrightarrow> 1024 * 2 ^ unat log \<in> {1024, 2048, 4096 :: nat}"
proof -
  assume "\<not> 2 < log"
  then have "unat log \<le> 2" by (simp add: not_less word_le_nat_alt)
  then have "unat log = 0 \<or> unat log = 1 \<or> unat log = 2" by linarith
  then show ?thesis by auto
qed

lemma geometry_check_wf:
  assumes "geometry_check h = Ok g" and "block_size h \<in> {1024, 2048, 4096}"
    and "blocks_count h \<le> u32_MAX" and "inodes_count h \<le> u32_MAX"
  shows "wf_geometry g"
proof -
  from assms(1) have "geometry_ok h" and
    "div_ceil (blocks_count h - first_data_block h) (blocks_per_group h) * inodes_per_group h = inodes_count h"
    and "g = h\<lparr>groups := div_ceil (blocks_count h - first_data_block h) (blocks_per_group h)\<rparr>"
    by (simp_all add: geometry_check_def Let_def split: if_splits)
  with assms(2-) show ?thesis by (simp add: wf_geometry_def geometry_ok_def)
qed

lemma geometry_parse_wf:
  assumes "geometry_parse sb = Ok g"
  shows "wf_geometry g"
  using assms unfolding geometry_parse_def
  by (elim bind_resultE if_ErrE)
     (erule geometry_check_wf, simp only: geometry.simps, rule small_log, assumption,
      simp_all add: unat_u32_le)

lemma group_bounds:
  assumes "wf_geometry g" and "k < groups g"
  shows "group_first g k < blocks_count g"
proof -
  let ?n = "blocks_count g - first_data_block g"
  from assms have p: "0 < blocks_per_group g" "first_data_block g < blocks_count g"
    by (auto simp: wf_geometry_def geometry_ok_def)
  have "\<not> div_ceil ?n (blocks_per_group g) \<le> k"
    using assms by (simp add: wf_geometry_def)
  then have "k * blocks_per_group g < ?n" using div_ceil_le_iff [OF p(1)] by simp
  then show ?thesis by (simp add: group_first_def)
qed

lemma group_of_block_bounds:
  assumes wf: "wf_geometry g" and b: "first_data_block g \<le> b" "b < blocks_count g" and k: "k = group_of_block g b"
  shows "k < groups g" "group_first g k \<le> b" "b - group_first g k < group_blocks g k"
proof -
  let ?p = "blocks_per_group g" and ?f = "first_data_block g"
  have p: "0 < ?p" using wf by (auto simp: wf_geometry_def geometry_ok_def)
  have k: "k = (b - ?f) div ?p" using b k by (simp add: group_of_block_def max_def)
  have lo: "k * ?p \<le> b - ?f" unfolding k by (simp add: div_times_less_eq_dividend)
  have hi: "b - ?f < k * ?p + ?p" unfolding k using dividend_less_div_times [OF p] by (simp add: add.commute)
  show first: "group_first g k \<le> b" using lo b by (simp add: group_first_def)
  show "b - group_first g k < group_blocks g k"
    using hi b first by (auto simp: group_blocks_def group_first_def)
  have "\<not> blocks_count g - ?f \<le> k * ?p" using lo b by linarith
  then show "k < groups g" using wf div_ceil_le_iff [OF p] by (metis wf_geometry_def not_less)
qed

lemma group_of_block_first:
  assumes "i < group_blocks geo g"
  shows "group_of_block geo (group_first geo g + i) = g"
proof -
  have "i < blocks_per_group geo" using assms by (simp add: group_blocks_def)
  then show ?thesis by (simp add: group_of_block_def group_first_def)
qed

text \<open>
  C32. The groups of an accepted superblock tile the disk: every block from
  the first data block on lies in the group \<^verbatim>\<open>group_of_block\<close> computes, inside the range
  \<^verbatim>\<open>group_first\<close>, \<^verbatim>\<open>group_blocks\<close> gives it, and in no other group; its index there fits one bitmap block,
  and no group number or first block leaves 32 bits.
\<close>
theorem groups_partition:
  assumes "geometry_parse sb = Ok g" and "first_data_block g \<le> b" and "b < blocks_count g"
    and "k = group_of_block g b"
  shows "k < groups g \<and> group_first g k \<le> b \<and> b - group_first g k < group_blocks g k \<and>
    group_blocks g k \<le> 8 * block_size g \<and> group_first g k + group_blocks g k \<le> u32_MAX \<and>
    (\<forall>j. group_first g j \<le> b \<and> b < group_first g j + group_blocks g j \<longrightarrow> j = k)"
proof -
  let ?p = "blocks_per_group g" and ?f = "first_data_block g"
  have wf: "wf_geometry g" by (rule geometry_parse_wf [OF assms(1)])
  then have p: "0 < ?p" "?p \<le> block_size g * 8" and c: "blocks_count g \<le> u32_MAX"
    by (auto simp: wf_geometry_def geometry_ok_def)
  have k: "k = (b - ?f) div ?p" using assms(2,4) by (simp add: group_of_block_def max_def)
  note bounds = group_of_block_bounds [OF wf assms(2-4)]
  have uniq: "j = k" if j: "group_first g j \<le> b" "b < group_first g j + group_blocks g j" for j
  proof -
    have "j * ?p \<le> b - ?f" and "b - ?f < j * ?p + ?p"
      using j by (auto simp: group_first_def group_blocks_def)
    then show ?thesis unfolding k by (metis add.commute div_nat_eqI mult.commute mult_Suc)
  qed
  have "group_blocks g k \<le> blocks_count g - group_first g k" by (simp add: group_blocks_def)
  with bounds(2) assms(3) have "group_first g k + group_blocks g k \<le> blocks_count g" by simp
  with c have max: "group_first g k + group_blocks g k \<le> u32_MAX" by simp
  have bits: "group_blocks g k \<le> 8 * block_size g" using p(2) by (simp add: group_blocks_def)
  from bounds bits max uniq show ?thesis by blast
qed

definition tiny_sb :: bytes where
  "tiny_sb = [8, 0, 0, 0, 20, 0, 0, 0, 0, 0, 0, 0, 0, 0, 0, 0, 0, 0, 0, 0, 1, 0, 0, 0, 0, 0, 0, 0, 0, 0, 0, 0,
     0, 32, 0, 0, 0, 0, 0, 0, 8, 0, 0, 0, 0, 0, 0, 0, 0, 0, 0, 0, 0, 0, 0, 0, 0x53, 0xEF,
     0, 0, 0, 0, 0, 0, 0, 0, 0, 0, 0, 0, 0, 0, 0, 0, 0, 0, 0, 0, 0, 0]"

definition tiny_geo :: geometry where
  "tiny_geo = \<lparr>block_size = 1024, first_data_block = 1, blocks_count = 20, inodes_count = 8,
     blocks_per_group = 8192, inodes_per_group = 8, inode_size = 128, first_ino = 11, groups = 1,
     filetype = False, large_file = False\<rparr>"

lemma tiny_parse_padded: "geometry_parse (tiny_sb @ pad) = Ok tiny_geo"
proof -
  have f: "get16 (tiny_sb @ pad) S_MAGIC = Ok MAGIC" "get32 (tiny_sb @ pad) S_LOG_BLOCK_SIZE = Ok 0"
    "get32 (tiny_sb @ pad) S_REV_LEVEL = Ok 0" "get32 (tiny_sb @ pad) S_FIRST_DATA_BLOCK = Ok 1"
    "get32 (tiny_sb @ pad) S_BLOCKS_COUNT = Ok 20" "get32 (tiny_sb @ pad) S_INODES_COUNT = Ok 8"
    "get32 (tiny_sb @ pad) S_BLOCKS_PER_GROUP = Ok 8192" "get32 (tiny_sb @ pad) S_INODES_PER_GROUP = Ok 8"
    by (simp_all add: tiny_sb_def sb_fields get16_def get32_def get_range_def slice_def
        from_le16_def from_le32_def MAGIC_def)
  have "is_power_of_two 128" unfolding is_power_of_two_def by (rule image_eqI [of _ _ 7]) simp_all
  then show ?thesis
    unfolding geometry_parse_def f bind_result.simps
    by (simp add: geometry_check_def geometry_ok_def tiny_geo_def GOOD_OLD_INODE_SIZE_def
        GOOD_OLD_FIRST_INO_def ROOT_INO_def div_ceil_def)
qed

lemma tiny_parse: "geometry_parse tiny_sb = Ok tiny_geo"
  using tiny_parse_padded [of "[]"] by simp

theorem groups_partition_witness:
  "group_of_block tiny_geo 7 < groups tiny_geo \<and> group_first tiny_geo (group_of_block tiny_geo 7) \<le> 7"
proof -
  have "first_data_block tiny_geo \<le> 7" and "7 < blocks_count tiny_geo" by (simp_all add: tiny_geo_def)
  from groups_partition [OF tiny_parse this refl] show ?thesis by blast
qed

section \<open>Superblock backups\<close>

lemma reach_power_iff:
  assumes "1 < p" and "0 < n" and "n \<le> u32_MAX" and "g < u32_MAX"
  shows "reach_power p g n = g \<longleftrightarrow> (\<exists>j. g = n * p ^ j)"
  using assms
proof (induction p g n rule: reach_power.induct)
  case (1 p g n)
  show ?case
  proof (cases "n < g")
    case True
    have one: "(\<exists>j. g = n * p ^ j) \<longleftrightarrow> (\<exists>j. g = n * p * p ^ j)"
    proof
      assume "\<exists>j. g = n * p ^ j"
      then obtain j where j: "g = n * p ^ j" ..
      with True have "j \<noteq> 0" by (intro notI) simp
      then obtain i where "j = Suc i" by (cases j) simp_all
      with j have "g = n * p * p ^ i" by simp
      then show "\<exists>j. g = n * p * p ^ j" ..
    next
      assume "\<exists>j. g = n * p * p ^ j"
      then obtain j where "g = n * p * p ^ j" ..
      then have "g = n * p ^ Suc j" by simp
      then show "\<exists>j. g = n * p ^ j" ..
    qed
    have r: "reach_power p g n = reach_power p g (min (n * p) u32_MAX)"
      using True 1(2-) by (subst reach_power.simps) simp
    show ?thesis
    proof (cases "n * p \<le> u32_MAX")
      case True
      have c: "n < g \<and> 1 < p \<and> 0 < n \<and> n < u32_MAX" using 1(2-) \<open>n < g\<close> by linarith
      have m: "min (n * p) u32_MAX = n * p" using True by simp
      have "reach_power p g (n * p) = g \<longleftrightarrow> (\<exists>j. g = n * p * p ^ j)"
        by (rule 1(1) [OF c, unfolded m]) (use c True 1(5) in simp_all)
      then show ?thesis unfolding r one m .
    next
      case False
      then have m: "min (n * p) u32_MAX = u32_MAX" by simp
      have top: "reach_power p g u32_MAX = u32_MAX" by (subst reach_power.simps) simp
      have no: "g \<noteq> n * p * p ^ j" for j
      proof -
        have "1 \<le> p ^ j" using 1(2) by simp
        then have "n * p * 1 \<le> n * p * p ^ j" by (rule mult_le_mono2)
        with False 1(5) show ?thesis by linarith
      qed
      have "u32_MAX \<noteq> g" using 1(5) by simp
      with no show ?thesis unfolding r one m top by simp
    qed
  next
    case False
    then have r: "reach_power p g n = n" by (subst reach_power.simps) simp
    have "g = n" if "g = n * p ^ j" for j
    proof -
      have "1 \<le> p ^ j" using 1(2) by simp
      then have "n * 1 \<le> n * p ^ j" by (rule mult_le_mono2)
      with that False show ?thesis by linarith
    qed
    then have "(\<exists>j. g = n * p ^ j) \<Longrightarrow> n = g" by metis
    moreover have "n = g \<Longrightarrow> \<exists>j. g = n * p ^ j" by (rule exI [of _ 0]) simp
    ultimately show ?thesis unfolding r by (rule iffI [rotated])
  qed
qed

text \<open>
  C33. The superblock backups of \<open>sparse_super\<close> are in groups 0 and 1 and in the
  groups whose number is a power of 3, 5 or 7, as the saturating loops compute them.
\<close>
theorem has_super_exact:
  assumes "g < u32_MAX"
  shows "has_super g sparse \<longleftrightarrow>
    \<not> sparse \<or> g \<le> 1 \<or> (\<exists>p \<in> {3, 5, 7}. \<exists>k. g = p ^ k)"
proof -
  have e: "reach_power p g p = g \<longleftrightarrow> (\<exists>k. g = p ^ k)" if "1 < g" "p \<in> {3, 5, 7}" for p
  proof -
    have "reach_power p g p = g \<longleftrightarrow> (\<exists>j. g = p * p ^ j)"
      by (rule reach_power_iff) (use that assms in \<open>auto simp: u32_MAX_def\<close>)
    also have "\<dots> \<longleftrightarrow> (\<exists>k. g = p ^ k)"
    proof
      assume "\<exists>k. g = p ^ k"
      then obtain k where "g = p ^ k" ..
      with that(1) obtain i where "k = Suc i" by (cases k) auto
      with \<open>g = p ^ k\<close> show "\<exists>j. g = p * p ^ j" by auto
    qed (metis power_Suc)
    finally show ?thesis .
  qed
  show ?thesis
  proof (cases "g \<le> 1")
    case False
    then show ?thesis using e [of 3] e [of 5] e [of 7] by (simp add: has_super_def)
  qed (simp add: has_super_def)
qed

theorem has_super_exact_witness: "has_super 49 True \<and> \<not> has_super 6 True"
proof -
  have "(49 :: nat) = 7 ^ 2" by simp
  then have a: "has_super 49 True" using has_super_exact [of 49 True]
    by (auto simp: u32_MAX_def intro!: exI [of _ 2])
  have n: "(6 :: nat) \<noteq> p ^ k" if "p \<in> {3, 5, 7}" for p k
  proof
    assume "6 = p ^ k"
    moreover have "odd (p ^ k)" using that by auto
    moreover have "even (6 :: nat)" by simp
    ultimately show False by metis
  qed
  then have "\<not> has_super 6 True" using has_super_exact [of 6 True] by (simp add: u32_MAX_def)
  with a show ?thesis ..
qed

end
