(* ===== verification/Ext2_Cache.thy ===== *)
theory Ext2_Cache
  imports Rust_State Ext2_Layout
begin

text \<open>
  The block device interface and the write-back block cache of ext2
  (\<^verbatim>\<open>modules/ext2/ext2fs/src/lib.rs\<close>, trait \<^verbatim>\<open>Device\<close>, and \<^verbatim>\<open>cache.rs\<close>). A device is its state with
  its three methods; what the file system relies on is \<open>disk_like\<close>. The lemmas
  show that the cache is a store of blocks: whatever is evicted and however often
  the device fails, each block reads as last written.
\<close>

section \<open>The device\<close>

text \<open>
  \<open>d_read off buf\<close> is whether the read succeeded and what is in the buffer then;
  \<open>d_now\<close> is the time in seconds.
\<close>

record 'd device =
  d_state :: 'd
  d_read :: "nat \<Rightarrow> bytes \<Rightarrow> 'd \<Rightarrow> bool \<times> bytes \<times> 'd"
  d_write :: "nat \<Rightarrow> bytes \<Rightarrow> 'd \<Rightarrow> bool \<times> 'd"
  d_now :: "'d \<Rightarrow> u32 \<times> 'd"

definition dev_read :: "nat \<Rightarrow> bytes \<Rightarrow> 'd device \<Rightarrow> bool \<times> bytes \<times> 'd device" where
  "dev_read off buf dev =
     (let (ok, buf', d) = d_read dev off buf (d_state dev) in (ok, buf', dev\<lparr>d_state := d\<rparr>))"

definition dev_write :: "nat \<Rightarrow> bytes \<Rightarrow> 'd device \<Rightarrow> bool \<times> 'd device" where
  "dev_write off buf dev =
     (let (ok, d) = d_write dev off buf (d_state dev) in (ok, dev\<lparr>d_state := d\<rparr>))"

definition dev_now :: "'d device \<Rightarrow> u32 \<times> 'd device" where
  "dev_now dev = (let (t, d) = d_now dev (d_state dev) in (t, dev\<lparr>d_state := d\<rparr>))"

section \<open>The cache\<close>

definition SLOTS :: nat where "SLOTS = 256"

record slot =
  s_block :: nat
  s_data :: bytes
  s_dirty :: bool
  s_used :: nat

record 'd cache =
  c_dev :: "'d device"
  c_block_size :: nat
  c_slots :: "slot list"
  c_index :: "(nat \<times> nat) list"
  c_tick :: nat

type_synonym ('d, 'a) cache_action = "('d cache, 'a, ext2_error) action"

definition cache_new :: "'d device \<Rightarrow> nat \<Rightarrow> 'd cache" where
  "cache_new dev bs = \<lparr>c_dev = dev, c_block_size = bs, c_slots = [], c_index = [], c_tick = 0\<rparr>"

definition cache_offset :: "'d cache \<Rightarrow> nat \<Rightarrow> nat" where
  "cache_offset c block = block * c_block_size c"

text \<open>\<^verbatim>\<open>self.slots[i]\<close>, read and changed.\<close>

definition slot_at :: "nat \<Rightarrow> ('d, slot) cache_action" where
  "slot_at i c = (if i < length (c_slots c) then (Ok (c_slots c ! i), c) else (Panic, c))"

definition slot_update :: "nat \<Rightarrow> (slot \<Rightarrow> slot) \<Rightarrow> ('d, unit) cache_action" where
  "slot_update i f c =
     (if i < length (c_slots c) then (Ok (), c\<lparr>c_slots := (c_slots c)[i := f (c_slots c ! i)]\<rparr>) else (Panic, c))"

definition cache_write_back :: "nat \<Rightarrow> ('d, unit) cache_action" where
  "cache_write_back i =
     act_bind (slot_at i) (\<lambda>s.
     if s_dirty s then (\<lambda>c.
       let (ok, dev) = dev_write (cache_offset c (s_block s)) (s_data s) (c_dev c) in
       if ok then slot_update i (\<lambda>s. s\<lparr>s_dirty := False\<rparr>) (c\<lparr>c_dev := dev\<rparr>)
       else (Err Io, c\<lparr>c_dev := dev\<rparr>))
     else act_return ())"

text \<open>A slot to put \<open>block\<close> in: a new one, or the least recently used one, written back.\<close>

definition slot_room :: "nat \<Rightarrow> ('d, nat) cache_action" where
  "slot_room block =
     act_bind (act_gets (\<lambda>c. length (c_slots c))) (\<lambda>n.
     if n < SLOTS then
       act_bind (act_update (\<lambda>c. c\<lparr>c_slots := c_slots c @
           [\<lparr>s_block = block, s_data = replicate (c_block_size c) 0, s_dirty = False, s_used = 0\<rparr>]\<rparr>))
         (\<lambda>_. act_return n)
     else
       act_bind (act_gets (\<lambda>c. min_by_key (\<lambda>i. s_used (c_slots c ! i)) [0..<n])) (\<lambda>m.
       case m of None \<Rightarrow> act_panic
       | Some i \<Rightarrow>
           act_bind (cache_write_back i) (\<lambda>_.
           act_bind (slot_at i) (\<lambda>s.
           act_bind (act_update (\<lambda>c. c\<lparr>c_index := bt_remove (s_block s) (c_index c)\<rparr>)) (\<lambda>_.
           act_return i)))))"

definition slot_fill :: "nat \<Rightarrow> nat \<Rightarrow> bool \<Rightarrow> ('d, nat) cache_action" where
  "slot_fill i block fresh =
     act_bind (act_gets c_tick) (\<lambda>tick.
     act_bind (slot_update i (\<lambda>s. s\<lparr>s_block := block, s_dirty := False, s_used := tick\<rparr>)) (\<lambda>_.
     act_bind
       (if fresh then slot_update i (\<lambda>s. s\<lparr>s_data := replicate (length (s_data s)) 0\<rparr>)
        else act_bind (slot_at i) (\<lambda>s c.
          let (ok, data, dev) = dev_read (cache_offset c block) (s_data s) (c_dev c);
              c = c\<lparr>c_dev := dev\<rparr>
          in if ok then slot_update i (\<lambda>s. s\<lparr>s_data := data\<rparr>) c
             else act_bind (slot_update i (\<lambda>s. s\<lparr>s_data := data, s_block := u32_MAX, s_used := 0\<rparr>))
                    (\<lambda>_. act_fail Io) c)) (\<lambda>_.
     act_bind (act_update (\<lambda>c. c\<lparr>c_index := bt_insert block i (c_index c)\<rparr>)) (\<lambda>_.
     act_return i))))"

definition cache_slot :: "nat \<Rightarrow> bool \<Rightarrow> ('d, nat) cache_action" where
  "cache_slot block fresh =
     act_bind (act_update (\<lambda>c. c\<lparr>c_tick := c_tick c + 1\<rparr>)) (\<lambda>_.
     act_bind (act_gets (\<lambda>c. (bt_get block (c_index c), c_tick c))) (\<lambda>(hit, tick).
     case hit of
       Some i \<Rightarrow> act_bind (slot_update i (\<lambda>s. s\<lparr>s_used := tick\<rparr>)) (\<lambda>_. act_return i)
     | None \<Rightarrow> act_bind (slot_room block) (\<lambda>i. slot_fill i block fresh)))"

text \<open>The closures given to \<^verbatim>\<open>read\<close> and \<^verbatim>\<open>modify\<close> may panic.\<close>

definition cache_read :: "nat \<Rightarrow> (bytes \<Rightarrow> ('a, ext2_error) result) \<Rightarrow> ('d, 'a) cache_action" where
  "cache_read block f =
     act_bind (cache_slot block False) (\<lambda>i.
     act_bind (slot_at i) (\<lambda>s. act_lift (f (s_data s))))"

definition cache_modify ::
  "nat \<Rightarrow> (bytes \<Rightarrow> ('a \<times> bytes, ext2_error) result) \<Rightarrow> ('d, 'a) cache_action" where
  "cache_modify block f =
     act_bind (cache_slot block False) (\<lambda>i.
     act_bind (slot_update i (\<lambda>s. s\<lparr>s_dirty := True\<rparr>)) (\<lambda>_.
     act_bind (slot_at i) (\<lambda>s.
     act_bind (act_lift (f (s_data s))) (\<lambda>(a, data).
     act_bind (slot_update i (\<lambda>s. s\<lparr>s_data := data\<rparr>)) (\<lambda>_. act_return a)))))"

definition cache_zero :: "nat \<Rightarrow> ('d, unit) cache_action" where
  "cache_zero block =
     act_bind (cache_slot block True) (\<lambda>i.
     slot_update i (\<lambda>s. s\<lparr>s_data := replicate (length (s_data s)) 0, s_dirty := True\<rparr>))"

text \<open>
  \<^verbatim>\<open>read_through\<close>: the buffer filled, which on an error is not looked at. The loop
  covers the whole blocks of the buffer.
\<close>

definition read_one :: "nat \<Rightarrow> bytes \<Rightarrow> ('d, bytes) cache_action" where
  "read_one b dst =
     act_bind (act_gets (\<lambda>c. bt_get b (c_index c))) (\<lambda>hit.
     case hit of
       Some i \<Rightarrow> act_bind (slot_at i) (\<lambda>s.
                   if length (s_data s) = length dst then act_return (s_data s) else act_panic)
     | None \<Rightarrow> (\<lambda>c. let (ok, data, dev) = dev_read (cache_offset c b) dst (c_dev c);
                       c = c\<lparr>c_dev := dev\<rparr>
                   in if ok then (Ok data, c) else (Err Io, c)))"

primrec read_each :: "nat \<Rightarrow> nat \<Rightarrow> bytes \<Rightarrow> ('d, bytes) cache_action" where
  "read_each 0 b out = act_return out"
| "read_each (Suc n) b out =
     act_bind (act_gets c_block_size) (\<lambda>bs.
     act_bind (read_one b (take bs out)) (\<lambda>chunk.
     act_bind (read_each n (b + 1) (drop bs out)) (\<lambda>rest. act_return (chunk @ rest))))"

definition cache_read_through :: "nat \<Rightarrow> bytes \<Rightarrow> ('d, bytes) cache_action" where
  "cache_read_through first out =
     act_bind (act_gets (\<lambda>c. length out div c_block_size c)) (\<lambda>n.
     act_bind (act_lift (u32_add first n)) (\<lambda>end.
     act_bind (act_gets c_index) (\<lambda>index.
     if \<not> list_ex (\<lambda>(b, _). first \<le> b \<and> b < end) index then
       (\<lambda>c. let (ok, data, dev) = dev_read (cache_offset c first) out (c_dev c);
                 c = c\<lparr>c_dev := dev\<rparr>
             in if ok then (Ok data, c) else (Err Io, c))
     else read_each n first out)))"

text \<open>An index out of range stays in the list, to panic in \<open>cache_write_back\<close>.\<close>

definition cache_flush :: "('d, unit) cache_action" where
  "cache_flush =
     act_bind (act_gets (\<lambda>c. filter (\<lambda>i. i < length (c_slots c) \<longrightarrow> s_dirty (c_slots c ! i)) (map snd (c_index c)))) (\<lambda>dirty.
     act_bind (act_fold (\<lambda>i ok. act_bind (act_try (cache_write_back i)) (\<lambda>r. act_return (ok \<and> r = Ok ()))) dirty True) (\<lambda>ok.
     if ok then act_return () else act_fail Io))"

lemma slot_keeps [keeps]:
  "act_keeps c_block_size (slot_at i)" "act_keeps c_block_size (slot_update i u)"
  by (simp_all add: act_keeps_def slot_at_def slot_update_def)

lemma slot_ops_keep [keeps]:
  "act_keeps c_block_size (cache_write_back i)" "act_keeps c_block_size (slot_room block)"
  "act_keeps c_block_size (slot_fill i block fresh)"
proof -
  show wb: "act_keeps c_block_size (cache_write_back i)" for i
    unfolding cache_write_back_def
    by (intro keeps) (simp add: act_keeps_def slot_update_def split: prod.split)
  show "act_keeps c_block_size (slot_room block)"
    unfolding slot_room_def by (intro keeps wb) simp_all
  show "act_keeps c_block_size (slot_fill i block fresh)"
    unfolding slot_fill_def
    by (intro keeps) (simp_all add: act_keeps_def slot_update_def slot_at_def act_bind_def act_run Let_def split: prod.split result.split)
qed

lemma cache_ops_keep [keeps]:
  "act_keeps c_block_size (cache_read block f)" "act_keeps c_block_size (cache_modify block f')"
  "act_keeps c_block_size (cache_zero block)"
  unfolding cache_read_def cache_modify_def cache_zero_def cache_slot_def
  by (intro keeps; simp)+

section \<open>What the cache relies on\<close>

text \<open>
  A device that behaves like an array of bytes: a read leaves it as it is and, when
  it succeeds, returns the bytes there; a write changes no byte outside its range
  and, when it succeeds, leaves the bytes written. A failed read may leave anything
  in the buffer, a failed write anything in its range.
\<close>

definition disk_like :: "'d device \<Rightarrow> ('d \<Rightarrow> bytes) \<Rightarrow> bool" where
  "disk_like dev content \<longleftrightarrow>
     (\<forall>off buf d. case d_read dev off buf d of (ok, buf', d') \<Rightarrow>
        content d' = content d \<and> length buf' = length buf \<and>
        (ok \<longrightarrow> off + length buf \<le> length (content d) \<and> buf' = slice off (off + length buf) (content d))) \<and>
     (\<forall>off buf d. case d_write dev off buf d of (ok, d') \<Rightarrow>
        length (content d') = length (content d) \<and>
        (\<forall>i < length (content d). i < off \<or> off + length buf \<le> i \<longrightarrow> content d' ! i = content d ! i) \<and>
        (ok \<longrightarrow> off + length buf \<le> length (content d) \<and> slice off (off + length buf) (content d') = buf)) \<and>
     (\<forall>d. content (snd (d_now dev d)) = content d)"

definition block_in :: "nat \<Rightarrow> bytes \<Rightarrow> nat \<Rightarrow> bytes option" where
  "block_in bs disk b = (if (b + 1) * bs \<le> length disk then Some (slice (b * bs) ((b + 1) * bs) disk) else None)"

definition disk_block :: "('d \<Rightarrow> bytes) \<Rightarrow> 'd cache \<Rightarrow> nat \<Rightarrow> bytes option" where
  "disk_block content c b = block_in (c_block_size c) (content (d_state (c_dev c))) b"

text \<open>What a block holds as the file system sees it.\<close>

definition cache_view :: "('d \<Rightarrow> bytes) \<Rightarrow> 'd cache \<Rightarrow> nat \<Rightarrow> bytes option" where
  "cache_view content c b =
     (case bt_get b (c_index c) of
        Some i \<Rightarrow> Some (s_data (c_slots c ! i))
      | None \<Rightarrow> disk_block content c b)"

text \<open>
  The cache invariant, with an exempt block: a block in the index has its own slot,
  which holds what the disk does unless it is dirty; any other slot is clean and
  marked with a block number no file system has.
\<close>

definition slot_indexed :: "'d cache \<Rightarrow> nat \<Rightarrow> bool" where
  "slot_indexed c i \<longleftrightarrow> bt_get (s_block (c_slots c ! i)) (c_index c) = Some i"

definition cache_wf_but :: "nat option \<Rightarrow> ('d \<Rightarrow> bytes) \<Rightarrow> 'd cache \<Rightarrow> bool" where
  "cache_wf_but x content c \<longleftrightarrow>
     disk_like (c_dev c) content \<and> 0 < c_block_size c \<and> bt_wf (c_index c) \<and> length (c_slots c) \<le> SLOTS \<and>
     (\<forall>b i. bt_get b (c_index c) = Some i \<longrightarrow>
        b \<noteq> u32_MAX \<and> i < length (c_slots c) \<and> s_block (c_slots c ! i) = b \<and>
        (s_dirty (c_slots c ! i) \<or> x = Some b \<or> disk_block content c b = Some (s_data (c_slots c ! i)))) \<and>
     (\<forall>i < length (c_slots c). length (s_data (c_slots c ! i)) = c_block_size c \<and>
        (slot_indexed c i \<or> s_block (c_slots c ! i) = u32_MAX \<and> \<not> s_dirty (c_slots c ! i)))"

abbreviation cache_wf :: "('d \<Rightarrow> bytes) \<Rightarrow> 'd cache \<Rightarrow> bool" where
  "cache_wf \<equiv> cache_wf_but None"

lemma cache_wf_index:
  assumes "cache_wf_but x content c" and "bt_get b (c_index c) = Some i"
  shows "b \<noteq> u32_MAX" "i < length (c_slots c)" "s_block (c_slots c ! i) = b"
    "s_dirty (c_slots c ! i) \<or> x = Some b \<or> disk_block content c b = Some (s_data (c_slots c ! i))"
  using assms unfolding cache_wf_but_def by blast+

lemma cache_wf_slot:
  assumes "cache_wf_but x content c" and "i < length (c_slots c)"
  shows "length (s_data (c_slots c ! i)) = c_block_size c"
    "bt_get (s_block (c_slots c ! i)) (c_index c) = Some i \<or>
       s_block (c_slots c ! i) = u32_MAX \<and> \<not> s_dirty (c_slots c ! i)"
  using assms unfolding cache_wf_but_def slot_indexed_def by blast+

lemma cache_wf_base:
  assumes "cache_wf_but x content c"
  shows "disk_like (c_dev c) content" "0 < c_block_size c" "bt_wf (c_index c)" "length (c_slots c) \<le> SLOTS"
  using assms unfolding cache_wf_but_def by blast+

lemma cache_view_length:
  assumes "cache_wf content c" and "cache_view content c b = Some d"
  shows "length d = c_block_size c"
proof (cases "bt_get b (c_index c)")
  case None
  then show ?thesis using assms(2) by (auto simp: cache_view_def disk_block_def block_in_def split: if_splits)
next
  case (Some i)
  then show ?thesis
    using assms(2) cache_wf_slot(1) [OF assms(1) cache_wf_index(2) [OF assms(1) Some]] by (simp add: cache_view_def)
qed

lemma block_in_write:
  assumes "length disk' = length disk"
    and "\<And>i. i < length disk \<Longrightarrow> i < b * bs \<or> (b + 1) * bs \<le> i \<Longrightarrow> disk' ! i = disk ! i"
    and "c \<noteq> b"
  shows "block_in bs disk' c = block_in bs disk c"
proof (cases "(c + 1) * bs \<le> length disk")
  case True
  have "slice (c * bs) ((c + 1) * bs) disk' = slice (c * bs) ((c + 1) * bs) disk"
  proof (rule nth_equalityI)
    fix i assume "i < length (slice (c * bs) ((c + 1) * bs) disk')"
    with True assms(1) have i: "i < bs" by simp
    have "c + 1 \<le> b \<or> b + 1 \<le> c" using assms(3) by linarith
    then have "(c + 1) * bs \<le> b * bs \<or> (b + 1) * bs \<le> c * bs" using mult_le_mono1 by blast
    with i have "c * bs + i < b * bs \<or> (b + 1) * bs \<le> c * bs + i" by auto
    moreover have "c * bs + i < length disk" using i True by simp
    ultimately show "slice (c * bs) ((c + 1) * bs) disk' ! i = slice (c * bs) ((c + 1) * bs) disk ! i"
      using assms(1,2) i True by (simp add: nth_slice)
  qed (use assms(1) True in simp)
  then show ?thesis using assms(1) by (simp add: block_in_def)
qed (use assms(1) in \<open>simp add: block_in_def\<close>)

lemma dev_read_law:
  assumes "disk_like dev content" and "dev_read off buf dev = (ok, buf', dev')"
  shows "disk_like dev' content" "content (d_state dev') = content (d_state dev)" "length buf' = length buf"
    "ok \<Longrightarrow> off + length buf \<le> length (content (d_state dev)) \<and>
      buf' = slice off (off + length buf) (content (d_state dev))"
proof -
  obtain d where d: "d_read dev off buf (d_state dev) = (ok, buf', d)" "dev' = dev\<lparr>d_state := d\<rparr>"
    using assms(2) by (auto simp: dev_read_def Let_def split: prod.splits)
  have law: "content d = content (d_state dev) \<and> length buf' = length buf \<and>
      (ok \<longrightarrow> off + length buf \<le> length (content (d_state dev)) \<and>
        buf' = slice off (off + length buf) (content (d_state dev)))"
    using assms(1) [unfolded disk_like_def, THEN conjunct1, THEN spec [of _ off], THEN spec [of _ buf],
      THEN spec [of _ "d_state dev"]] unfolding d(1) by simp
  show "disk_like dev' content" using assms(1) unfolding d(2) disk_like_def by simp
  show "content (d_state dev') = content (d_state dev)" using law d(2) by simp
  show "length buf' = length buf" using law by simp
  show "ok \<Longrightarrow> off + length buf \<le> length (content (d_state dev)) \<and>
      buf' = slice off (off + length buf) (content (d_state dev))" using law by simp
qed

lemma dev_write_law:
  assumes "disk_like dev content" and "dev_write off buf dev = (ok, dev')"
  shows "disk_like dev' content" "length (content (d_state dev')) = length (content (d_state dev))"
    "i < length (content (d_state dev)) \<Longrightarrow> i < off \<or> off + length buf \<le> i \<Longrightarrow>
      content (d_state dev') ! i = content (d_state dev) ! i"
    "ok \<Longrightarrow> off + length buf \<le> length (content (d_state dev)) \<and>
      slice off (off + length buf) (content (d_state dev')) = buf"
proof -
  obtain d where d: "d_write dev off buf (d_state dev) = (ok, d)" "dev' = dev\<lparr>d_state := d\<rparr>"
    using assms(2) by (auto simp: dev_write_def Let_def split: prod.splits)
  have law: "length (content d) = length (content (d_state dev)) \<and>
      (\<forall>i < length (content (d_state dev)). i < off \<or> off + length buf \<le> i \<longrightarrow>
        content d ! i = content (d_state dev) ! i) \<and>
      (ok \<longrightarrow> off + length buf \<le> length (content (d_state dev)) \<and> slice off (off + length buf) (content d) = buf)"
    using assms(1) [unfolded disk_like_def, THEN conjunct2, THEN conjunct1, THEN spec [of _ off],
      THEN spec [of _ buf], THEN spec [of _ "d_state dev"]] unfolding d(1) by simp
  show "disk_like dev' content" using assms(1) unfolding d(2) disk_like_def by simp
  show "length (content (d_state dev')) = length (content (d_state dev))" using law d(2) by simp
  show "i < length (content (d_state dev)) \<Longrightarrow> i < off \<or> off + length buf \<le> i \<Longrightarrow>
      content (d_state dev') ! i = content (d_state dev) ! i" using law unfolding d(2) by auto
  show "ok \<Longrightarrow> off + length buf \<le> length (content (d_state dev)) \<and>
      slice off (off + length buf) (content (d_state dev')) = buf" using law d(2) by simp
qed

section \<open>Writing back\<close>

lemma disk_block_write:
  assumes "disk_like (c_dev c) content" and "length data = c_block_size c"
    and "dev_write (cache_offset c b) data (c_dev c) = (ok, dev)"
  shows "d \<noteq> b \<Longrightarrow> disk_block content (c\<lparr>c_dev := dev\<rparr>) d = disk_block content c d"
    "ok \<Longrightarrow> disk_block content (c\<lparr>c_dev := dev\<rparr>) b = Some data"
proof -
  note w = dev_write_law [OF assms(1,3)]
  have off: "cache_offset c b + length data = (b + 1) * c_block_size c"
    by (simp add: cache_offset_def assms(2))
  show "disk_block content (c\<lparr>c_dev := dev\<rparr>) d = disk_block content c d" if "d \<noteq> b"
    unfolding disk_block_def
    by (simp, rule block_in_write [OF w(2) _ that], rule w(3))
       (simp_all add: off, simp add: cache_offset_def)
  show "disk_block content (c\<lparr>c_dev := dev\<rparr>) b = Some data" if ok
    using w(4) [OF that] w(2) unfolding off by (simp add: disk_block_def block_in_def cache_offset_def)
qed

lemma write_back_spec:
  assumes wf: "cache_wf content c" and i: "i < length (c_slots c)"
    and run: "cache_write_back i c = (r, c')"
  shows "cache_wf content c' \<and> cache_view content c' = cache_view content c \<and> c_index c' = c_index c \<and>
    c_block_size c' = c_block_size c \<and> (r = Ok () \<or> r = Err Io) \<and>
    (\<exists>f. c_slots c' = (c_slots c)[i := (c_slots c ! i)\<lparr>s_dirty := f\<rparr>] \<and> (f \<longrightarrow> s_dirty (c_slots c ! i)) \<and> (r = Ok () \<longrightarrow> \<not> f))"
proof (cases "s_dirty (c_slots c ! i)")
  case False
  with run i have "r = Ok ()" "c' = c"
    by (simp_all add: cache_write_back_def slot_at_def act_bind_def act_run)
  moreover have "c_slots c = (c_slots c)[i := (c_slots c ! i)\<lparr>s_dirty := False\<rparr>]"
  proof -
    have "(c_slots c ! i)\<lparr>s_dirty := False\<rparr> = c_slots c ! i" using False by (cases "c_slots c ! i") simp
    then show ?thesis by simp
  qed
  ultimately show ?thesis using wf by auto
next
  case True
  let ?s = "c_slots c ! i" let ?b = "s_block ?s"
  obtain ok dev where dev: "dev_write (cache_offset c ?b) (s_data ?s) (c_dev c) = (ok, dev)" by fastforce
  define f where "f = (\<not> ok)"
  have c': "r = (if ok then Ok () else Err Io)"
    "c' = c\<lparr>c_dev := dev, c_slots := (c_slots c)[i := ?s\<lparr>s_dirty := f\<rparr>]\<rparr>"
  proof -
    have "?s\<lparr>s_dirty := True\<rparr> = ?s" using True by (cases ?s) simp
    then have keep: "c\<lparr>c_dev := dev\<rparr> = c\<lparr>c_dev := dev, c_slots := (c_slots c)[i := ?s\<lparr>s_dirty := True\<rparr>]\<rparr>"
      by (cases c) simp
    show "r = (if ok then Ok () else Err Io)"
      "c' = c\<lparr>c_dev := dev, c_slots := (c_slots c)[i := ?s\<lparr>s_dirty := f\<rparr>]\<rparr>"
      using run i True dev
      by (auto simp: cache_write_back_def slot_at_def slot_update_def act_bind_def act_run f_def split: if_splits)
         (rule keep)
  qed
  have disk: "disk_like (c_dev c) content" and len: "length (s_data ?s) = c_block_size c"
    using cache_wf_base(1) [OF wf] cache_wf_slot(1) [OF wf i] .
  have idx: "bt_get ?b (c_index c) = Some i"
    using cache_wf_slot(2) [OF wf i] True by simp
  note db = disk_block_write [OF disk len dev]
  have dv: "disk_block content c' d = disk_block content (c\<lparr>c_dev := dev\<rparr>) d" for d
    by (simp add: disk_block_def c'(2))
  have other: "disk_block content c' d = disk_block content c d" if "d \<noteq> ?b" for d
    unfolding dv by (rule db(1) [OF that])
  have slots: "s_block (c_slots c' ! j) = s_block (c_slots c ! j) \<and> s_data (c_slots c' ! j) = s_data (c_slots c ! j)" for j
    using i by (cases "j = i") (simp_all add: c'(2))
  have dirty: "s_dirty (c_slots c' ! j) = (if j = i then f else s_dirty (c_slots c ! j))" for j
    using i by (simp add: c'(2))
  have same: "c_index c' = c_index c" "c_block_size c' = c_block_size c" "length (c_slots c') = length (c_slots c)"
    by (simp_all add: c'(2))
  have clean: "s_dirty (c_slots c' ! j) \<or> disk_block content c' b = Some (s_data (c_slots c' ! j))"
    if b: "bt_get b (c_index c) = Some j" for b j
  proof (cases "b = ?b")
    case True
    with b idx have "j = i" by simp
    then show ?thesis using True db(2) slots [of j] unfolding dv by (auto simp: dirty f_def)
  next
    case False
    then have "j \<noteq> i" using cache_wf_index(3) [OF wf b] by auto
    moreover have "s_dirty (c_slots c ! j) \<or> disk_block content c b = Some (s_data (c_slots c ! j))"
      using cache_wf_index(4) [OF wf b] by simp
    ultimately show ?thesis using slots [of j] by (simp add: dirty other [OF False])
  qed
  have "cache_wf content c'"
    unfolding cache_wf_but_def same slot_indexed_def
  proof (intro conjI allI impI)
    show "disk_like (c_dev c') content" using dev_write_law(1) [OF disk dev] by (simp add: c'(2))
    fix j assume j: "j < length (c_slots c)"
    show "bt_get (s_block (c_slots c' ! j)) (c_index c) = Some j \<or>
        s_block (c_slots c' ! j) = u32_MAX \<and> \<not> s_dirty (c_slots c' ! j)"
      using cache_wf_slot(2) [OF wf j] idx slots [of j] by (cases "j = i") (simp_all add: dirty)
    show "length (s_data (c_slots c' ! j)) = c_block_size c"
      using cache_wf_slot(1) [OF wf j] slots [of j] by simp
  next
    fix b j assume b: "bt_get b (c_index c) = Some j"
    show "b \<noteq> u32_MAX" "j < length (c_slots c)" by (rule cache_wf_index [OF wf b])+
    show "s_block (c_slots c' ! j) = b" using cache_wf_index(3) [OF wf b] slots [of j] by simp
    show "s_dirty (c_slots c' ! j) \<or> None = Some b \<or> disk_block content c' b = Some (s_data (c_slots c' ! j))"
      using clean [OF b] by blast
  qed (rule cache_wf_base [OF wf])+
  moreover have "cache_view content c' = cache_view content c"
  proof
    fix b
    show "cache_view content c' b = cache_view content c b"
    proof (cases "bt_get b (c_index c)")
      case None
      with idx have "b \<noteq> ?b" by auto
      then show ?thesis using None other by (simp add: cache_view_def same)
    next
      case (Some j)
      then show ?thesis using slots [of j] by (simp add: cache_view_def same)
    qed
  qed
  moreover have "f \<longrightarrow> s_dirty ?s" "r = Ok () \<longrightarrow> \<not> f" "r = Ok () \<or> r = Err Io"
    using True by (simp_all add: c'(1) f_def)
  ultimately show ?thesis using same by (simp add: c'(2)) blast
qed

section \<open>Making room\<close>

text \<open>The invariant while slot \<open>i\<close> is out of the index, about to be filled.\<close>

definition cache_wf_free :: "nat \<Rightarrow> ('d \<Rightarrow> bytes) \<Rightarrow> 'd cache \<Rightarrow> bool" where
  "cache_wf_free i content c \<longleftrightarrow>
     disk_like (c_dev c) content \<and> 0 < c_block_size c \<and> bt_wf (c_index c) \<and> length (c_slots c) \<le> SLOTS \<and>
     i < length (c_slots c) \<and>
     (\<forall>b j. bt_get b (c_index c) = Some j \<longrightarrow>
        j \<noteq> i \<and> b \<noteq> u32_MAX \<and> j < length (c_slots c) \<and> s_block (c_slots c ! j) = b \<and>
        (s_dirty (c_slots c ! j) \<or> disk_block content c b = Some (s_data (c_slots c ! j)))) \<and>
     (\<forall>j < length (c_slots c). length (s_data (c_slots c ! j)) = c_block_size c \<and>
        (j \<noteq> i \<longrightarrow> slot_indexed c j \<or> s_block (c_slots c ! j) = u32_MAX \<and> \<not> s_dirty (c_slots c ! j)))"

lemma cache_free_index:
  assumes "cache_wf_free i content c" and "bt_get b (c_index c) = Some j"
  shows "j \<noteq> i" "b \<noteq> u32_MAX" "j < length (c_slots c)" "s_block (c_slots c ! j) = b"
    "s_dirty (c_slots c ! j) \<or> disk_block content c b = Some (s_data (c_slots c ! j))"
  using assms unfolding cache_wf_free_def by blast+

lemma cache_free_slot:
  assumes "cache_wf_free i content c" and "j < length (c_slots c)"
  shows "length (s_data (c_slots c ! j)) = c_block_size c"
    "j \<noteq> i \<Longrightarrow> bt_get (s_block (c_slots c ! j)) (c_index c) = Some j \<or>
       s_block (c_slots c ! j) = u32_MAX \<and> \<not> s_dirty (c_slots c ! j)"
  using assms unfolding cache_wf_free_def slot_indexed_def by blast+

lemma cache_free_base:
  assumes "cache_wf_free i content c"
  shows "disk_like (c_dev c) content" "0 < c_block_size c" "bt_wf (c_index c)" "length (c_slots c) \<le> SLOTS"
    "i < length (c_slots c)"
  using assms unfolding cache_wf_free_def by blast+

lemma push_slot_free:
  assumes wf: "cache_wf content c" and "length (c_slots c) < SLOTS" and "length (s_data s) = c_block_size c"
    and c': "c' = c\<lparr>c_slots := c_slots c @ [s]\<rparr>"
  shows "cache_wf_free (length (c_slots c)) content c' \<and> cache_view content c' = cache_view content c"
proof -
  have old: "c_slots c' ! j = c_slots c ! j" if "j < length (c_slots c)" for j
    using that by (simp add: c' nth_append)
  have disk: "disk_block content c' = disk_block content c" by (simp add: fun_eq_iff disk_block_def c')
  have new: "c_slots c' ! length (c_slots c) = s" by (simp add: c')
  have "cache_wf_free (length (c_slots c)) content c'"
    unfolding cache_wf_free_def disk
  proof (intro conjI allI impI)
    fix b j assume "bt_get b (c_index c') = Some j"
    then have b: "bt_get b (c_index c) = Some j" by (simp add: c')
    note i = cache_wf_index [OF wf b]
    show "j \<noteq> length (c_slots c)" "b \<noteq> u32_MAX" "j < length (c_slots c')" "s_block (c_slots c' ! j) = b"
      using i old [OF i(2)] by (simp_all add: c')
    show "s_dirty (c_slots c' ! j) \<or> disk_block content c b = Some (s_data (c_slots c' ! j))"
      using i(4) old [OF i(2)] by simp
  next
    fix j assume j: "j < length (c_slots c')"
    show "length (s_data (c_slots c' ! j)) = c_block_size c'"
      using j new old [of j] cache_wf_slot(1) [OF wf, of j] assms(3) by (cases "j = length (c_slots c)") (simp_all add: c')
    assume "j \<noteq> length (c_slots c)"
    then have "j < length (c_slots c)" using j by (simp add: c')
    then show "slot_indexed c' j \<or> s_block (c_slots c' ! j) = u32_MAX \<and> \<not> s_dirty (c_slots c' ! j)"
      using cache_wf_slot(2) [OF wf, of j] by (simp add: slot_indexed_def old) (simp add: c')
  qed (use cache_wf_base [OF wf] assms(2) in \<open>simp_all add: c'\<close>)
  moreover have "cache_view content c' = cache_view content c"
  proof
    fix b
    show "cache_view content c' b = cache_view content c b"
    proof (cases "bt_get b (c_index c)")
      case (Some j)
      from old [OF cache_wf_index(2) [OF wf Some]] show ?thesis
        using Some by (simp add: cache_view_def c')
    next
      case None
      then have "bt_get b (c_index c') = None" by (simp add: c')
      with None show ?thesis by (simp add: cache_view_def disk)
    qed
  qed
  ultimately show ?thesis ..
qed

lemma drop_slot_free:
  assumes wf: "cache_wf content c" and i: "i < length (c_slots c)" and "\<not> s_dirty (c_slots c ! i)"
    and c': "c' = c\<lparr>c_index := bt_remove (s_block (c_slots c ! i)) (c_index c)\<rparr>"
  shows "cache_wf_free i content c' \<and> cache_view content c' = cache_view content c"
proof -
  let ?b = "s_block (c_slots c ! i)"
  have get: "bt_get b (c_index c') = (if b = ?b then None else bt_get b (c_index c))" for b
    by (simp add: c' bt_get_remove)
  have disk: "disk_block content c' = disk_block content c" by (simp add: fun_eq_iff disk_block_def c')
  have same: "c_slots c' = c_slots c" "c_block_size c' = c_block_size c" "c_dev c' = c_dev c" by (simp_all add: c')
  have "cache_wf_free i content c'"
    unfolding cache_wf_free_def disk same
  proof (intro conjI allI impI)
    fix b j assume "bt_get b (c_index c') = Some j"
    then have b: "bt_get b (c_index c) = Some j" and ne: "b \<noteq> ?b" by (simp_all add: get split: if_splits)
    note r = cache_wf_index [OF wf b]
    show "b \<noteq> u32_MAX" "j < length (c_slots c)" "s_block (c_slots c ! j) = b" by (rule r)+
    then show "j \<noteq> i" using ne by auto
    show "s_dirty (c_slots c ! j) \<or> disk_block content c b = Some (s_data (c_slots c ! j))" using r(4) by simp
  next
    fix j assume j: "j < length (c_slots c)"
    show "length (s_data (c_slots c ! j)) = c_block_size c" by (rule cache_wf_slot [OF wf j])
    assume "j \<noteq> i"
    show "slot_indexed c' j \<or> s_block (c_slots c ! j) = u32_MAX \<and> \<not> s_dirty (c_slots c ! j)"
    proof (cases "bt_get (s_block (c_slots c ! j)) (c_index c) = Some j")
      case True
      then have "s_block (c_slots c ! j) \<noteq> u32_MAX" by (rule cache_wf_index [OF wf])
      moreover have "bt_get ?b (c_index c) = Some i \<or> ?b = u32_MAX" using cache_wf_slot(2) [OF wf i] by auto
      ultimately have "s_block (c_slots c ! j) \<noteq> ?b" using True \<open>j \<noteq> i\<close> by auto
      then show ?thesis using True by (simp add: slot_indexed_def same get)
    qed (use cache_wf_slot(2) [OF wf j] in simp)
  qed (use cache_wf_base [OF wf] i in \<open>simp_all add: c'\<close>)
  moreover have "cache_view content c' = cache_view content c"
  proof
    fix b
    show "cache_view content c' b = cache_view content c b"
    proof (cases "b = ?b \<and> bt_get b (c_index c) \<noteq> None")
      case True
      then obtain j where j: "bt_get b (c_index c) = Some j" by auto
      from True have "b = ?b" ..
      with cache_wf_index(1) [OF wf j] have "bt_get b (c_index c) = Some i" using cache_wf_slot(2) [OF wf i] by simp
      with j have "j = i" by simp
      with cache_wf_index(4) [OF wf j] assms(3) have "disk_block content c b = Some (s_data (c_slots c ! i))" by simp
      with j True \<open>j = i\<close> show ?thesis by (simp add: cache_view_def disk get)
    next
      case False
      then have "bt_get b (c_index c') = bt_get b (c_index c)" by (auto simp: get)
      then show ?thesis unfolding cache_view_def disk same by simp
    qed
  qed
  ultimately show ?thesis ..
qed

lemma slot_room_spec:
  assumes wf: "cache_wf content c" and none: "bt_get block (c_index c) = None" and run: "slot_room block c = (r, c')"
  shows "cache_view content c' = cache_view content c \<and> bt_get block (c_index c') = None \<and>
    c_block_size c' = c_block_size c \<and>
    (r = Err Io \<and> cache_wf content c' \<or> (\<exists>i. r = Ok i \<and> cache_wf_free i content c'))"
proof (cases "length (c_slots c) < SLOTS")
  case True
  let ?s = "\<lparr>s_block = block, s_data = replicate (c_block_size c) 0, s_dirty = False, s_used = 0\<rparr> :: slot"
  from True run have "r = Ok (length (c_slots c))" and c': "c' = c\<lparr>c_slots := c_slots c @ [?s]\<rparr>"
    by (auto simp: slot_room_def act_simps)
  with push_slot_free [OF wf True _ c'] none show ?thesis by simp
next
  case False
  let ?n = "length (c_slots c)" let ?m = "min_by_key (\<lambda>i. s_used (c_slots c ! i)) [0..<?n]"
  have "0 < SLOTS" by (simp add: SLOTS_def)
  with False have "[0..<?n] \<noteq> []" by auto
  then obtain i where m: "?m = Some i" by (cases ?m) auto
  then have i: "i < ?n" using min_by_key_Some [OF m] by simp
  obtain q c1 where w: "cache_write_back i c = (q, c1)" by fastforce
  note ws = write_back_spec [OF wf i w]
  from ws have wf1: "cache_wf content c1" and v1: "cache_view content c1 = cache_view content c"
    and x1: "c_index c1 = c_index c" "c_block_size c1 = c_block_size c" by auto
  have run': "(r, c') = act_bind (cache_write_back i) (\<lambda>_. act_bind (slot_at i) (\<lambda>s.
      act_bind (act_update (\<lambda>c. c\<lparr>c_index := bt_remove (s_block s) (c_index c)\<rparr>)) (\<lambda>_. act_return i))) c"
    using run False m by (simp add: slot_room_def act_simps)
  show ?thesis
  proof (cases "q = Ok ()")
    case True
    then obtain f where f: "c_slots c1 = (c_slots c)[i := (c_slots c ! i)\<lparr>s_dirty := f\<rparr>]" "\<not> f" using ws by auto
    then have i1: "i < length (c_slots c1)" "\<not> s_dirty (c_slots c1 ! i)" using i by simp_all
    define c2 where "c2 = c1\<lparr>c_index := bt_remove (s_block (c_slots c1 ! i)) (c_index c1)\<rparr>"
    have "r = Ok i" "c' = c2"
      using run' w True i1 by (simp_all add: act_bind_def act_run slot_at_def c2_def)
    with drop_slot_free [OF wf1 i1 c2_def] v1 x1 none show ?thesis by (simp add: c2_def bt_get_remove)
  next
    case False
    with ws have "q = Err Io" by auto
    with run' w have "r = Err Io" "c' = c1" by (simp_all add: act_bind_def)
    with wf1 v1 x1 none show ?thesis by simp
  qed
qed

section \<open>Filling a slot\<close>

text \<open>
  The states after a slot that was free is filled with \<open>block\<close>, and after its read
  failed, from one whose device holds the same bytes.
\<close>

lemma fill_slot_wf:
  assumes free: "cache_wf_free i content c" and none: "bt_get block (c_index c) = None" and "block \<noteq> u32_MAX"
    and dev: "disk_like dev content" "content (d_state dev) = content (d_state (c_dev c))"
    and s: "s_block s = block" "length (s_data s) = c_block_size c"
    and x: "x = Some block \<or> disk_block content c block = Some (s_data s)"
    and c': "c' = c\<lparr>c_dev := dev, c_slots := (c_slots c)[i := s], c_index := bt_insert block i (c_index c)\<rparr>"
  shows "cache_wf_but x content c' \<and> cache_view content c' = (cache_view content c)(block := Some (s_data s))"
proof -
  note base = cache_free_base [OF free]
  have get: "bt_get b (c_index c') = (if b = block then Some i else bt_get b (c_index c))" for b
    by (simp add: c' bt_get_insert base)
  have disk: "disk_block content c' = disk_block content c"
    by (simp add: fun_eq_iff disk_block_def c' dev(2))
  have slot: "c_slots c' ! j = (if j = i then s else c_slots c ! j)" for j
    using base(5) by (simp add: c')
  have n: "length (c_slots c') = length (c_slots c)" by (simp add: c')
  have wf: "cache_wf_but x content c'"
    unfolding cache_wf_but_def disk slot_indexed_def
  proof (intro conjI allI impI)
    fix b j assume b: "bt_get b (c_index c') = Some j"
    show "b \<noteq> u32_MAX" "j < length (c_slots c')" "s_block (c_slots c' ! j) = b"
      using b cache_free_index(1-4) [OF free, of b j] assms(3) base(5) s(1)
      unfolding n by (auto simp: get slot split: if_splits)
    show "s_dirty (c_slots c' ! j) \<or> x = Some b \<or> disk_block content c b = Some (s_data (c_slots c' ! j))"
      using b cache_free_index(1,5) [OF free, of b j] x by (auto simp: get slot split: if_splits)
  next
    fix j assume j: "j < length (c_slots c')"
    then have "j < length (c_slots c)" by (simp add: c')
    note f = cache_free_slot [OF free this]
    show "length (s_data (c_slots c' ! j)) = c_block_size c'"
      using f(1) s(2) unfolding slot by (simp add: c')
    show "bt_get (s_block (c_slots c' ! j)) (c_index c') = Some j \<or>
        s_block (c_slots c' ! j) = u32_MAX \<and> \<not> s_dirty (c_slots c' ! j)"
    proof (cases "j = i")
      case False
      from f(2) [OF this] none show ?thesis using False by (auto simp: slot get)
    qed (simp add: slot get s)
  qed (use base dev in \<open>simp_all add: c'\<close>)
  have "cache_view content c' = (cache_view content c)(block := Some (s_data s))"
  proof
    fix b
    show "cache_view content c' b = ((cache_view content c)(block := Some (s_data s))) b"
    proof (cases "bt_get b (c_index c)")
      case None
      then show ?thesis by (simp add: cache_view_def get disk slot)
    next
      case (Some j)
      with none cache_free_index(1) [OF free Some] show ?thesis by (auto simp: cache_view_def get slot)
    qed
  qed
  with wf show ?thesis ..
qed

lemma fail_slot_wf:
  assumes free: "cache_wf_free i content c"
    and dev: "disk_like dev content" "content (d_state dev) = content (d_state (c_dev c))"
    and s: "s_block s = u32_MAX" "length (s_data s) = c_block_size c" "\<not> s_dirty s"
    and c': "c' = c\<lparr>c_dev := dev, c_slots := (c_slots c)[i := s]\<rparr>"
  shows "cache_wf content c' \<and> cache_view content c' = cache_view content c"
proof -
  note base = cache_free_base [OF free]
  have disk: "disk_block content c' = disk_block content c"
    by (simp add: fun_eq_iff disk_block_def c' dev(2))
  have slot: "c_slots c' ! j = (if j = i then s else c_slots c ! j)" for j
    using base(5) by (simp add: c')
  have idx: "c_index c' = c_index c" by (simp add: c')
  have wf: "cache_wf content c'"
    unfolding cache_wf_but_def disk slot_indexed_def idx
  proof (intro conjI allI impI)
    fix b j assume b: "bt_get b (c_index c) = Some j"
    note f = cache_free_index [OF free b]
    show "b \<noteq> u32_MAX" by (rule f)
    show "j < length (c_slots c')" using f(3) by (simp add: c')
    show "s_block (c_slots c' ! j) = b" using f(1,4) by (simp add: slot)
    show "s_dirty (c_slots c' ! j) \<or> None = Some b \<or> disk_block content c b = Some (s_data (c_slots c' ! j))"
      using f(1,5) by (simp add: slot)
  next
    fix j assume j: "j < length (c_slots c')"
    then have "j < length (c_slots c)" by (simp add: c')
    note f = cache_free_slot [OF free this]
    show "length (s_data (c_slots c' ! j)) = c_block_size c'"
      using f(1) s(2) unfolding slot by (simp add: c')
    show "bt_get (s_block (c_slots c' ! j)) (c_index c) = Some j \<or>
        s_block (c_slots c' ! j) = u32_MAX \<and> \<not> s_dirty (c_slots c' ! j)"
      using f(2) s by (cases "j = i") (simp_all add: slot)
  qed (use base dev in \<open>simp_all add: c'\<close>)
  have "cache_view content c' = cache_view content c"
  proof
    fix b
    show "cache_view content c' b = cache_view content c b"
    proof (cases "bt_get b (c_index c)")
      case None
      then show ?thesis by (simp add: cache_view_def idx disk)
    next
      case (Some j)
      with cache_free_index(1) [OF free Some] show ?thesis by (simp add: cache_view_def idx slot)
    qed
  qed
  with wf show ?thesis ..
qed

lemma slot_fill_spec:
  assumes free: "cache_wf_free i content c" and none: "bt_get block (c_index c) = None" and "block \<noteq> u32_MAX"
    and run: "slot_fill i block fresh c = (r, c')"
  shows "r = Err Io \<and> \<not> fresh \<and> cache_wf content c' \<and> cache_view content c' = cache_view content c \<or>
    r = Ok i \<and> bt_get block (c_index c') = Some i \<and>
      cache_wf_but (if fresh then Some block else None) content c' \<and>
      (if fresh then \<exists>d. cache_view content c' = (cache_view content c)(block := Some d)
       else cache_view content c' = cache_view content c)"
proof -
  note base = cache_free_base [OF free]
  let ?s = "(c_slots c ! i)\<lparr>s_block := block, s_dirty := False, s_used := c_tick c\<rparr>"
  have len: "length (s_data ?s) = c_block_size c" using cache_free_slot(1) [OF free base(5)] by simp
  have view: "cache_view content c block = disk_block content c block" by (simp add: cache_view_def none)
  show ?thesis
  proof (cases fresh)
    case True
    let ?z = "?s\<lparr>s_data := replicate (length (s_data ?s)) 0\<rparr>"
    have c': "r = Ok i" "c' = c\<lparr>c_dev := c_dev c, c_slots := (c_slots c)[i := ?z], c_index := bt_insert block i (c_index c)\<rparr>"
      using run base(5) True by (cases c; auto simp: slot_fill_def slot_update_def act_bind_def act_run)+
    have "cache_wf_but (Some block) content c' \<and> cache_view content c' = (cache_view content c)(block := Some (s_data ?z))"
      by (rule fill_slot_wf [OF free none assms(3) base(1) refl _ _ _ c'(2)]) (use len in simp_all)
    moreover have "bt_get block (c_index c') = Some i" by (simp add: c'(2) bt_get_insert base)
    ultimately show ?thesis using True c'(1) by auto
  next
    case False
    obtain ok data dev where rd: "dev_read (cache_offset c block) (s_data ?s) (c_dev c) = (ok, data, dev)"
      by (cases "dev_read (cache_offset c block) (s_data ?s) (c_dev c)")
    note law = dev_read_law [OF base(1) rd]
    have rd': "dev_read (cache_offset (c\<lparr>c_slots := (c_slots c)[i := ?s]\<rparr>) block) (s_data (c_slots c ! i)) (c_dev c) = (ok, data, dev)"
      using rd by (simp add: cache_offset_def)
    show ?thesis
    proof (cases ok)
      case True
      let ?d = "?s\<lparr>s_data := data\<rparr>"
      have c': "r = Ok i" "c' = c\<lparr>c_dev := dev, c_slots := (c_slots c)[i := ?d], c_index := bt_insert block i (c_index c)\<rparr>"
        using run base(5) True False rd'
        by (auto simp: slot_fill_def slot_update_def slot_at_def act_bind_def act_run)
      have d: "disk_block content c block = Some data"
        using law(4) [OF True] len by (simp add: disk_block_def block_in_def cache_offset_def add.commute)
      have "cache_wf_but None content c' \<and> cache_view content c' = (cache_view content c)(block := Some (s_data ?d))"
        by (rule fill_slot_wf [OF free none assms(3) law(1,2) _ _ _ c'(2)]) (use len law(3) d in simp_all)
      moreover have "bt_get block (c_index c') = Some i" by (simp add: c'(2) bt_get_insert base)
      moreover have "(cache_view content c)(block := Some data) = cache_view content c"
        using d view by auto
      ultimately show ?thesis using False c'(1) by simp
    next
      case False
      let ?d = "?s\<lparr>s_data := data, s_block := u32_MAX, s_used := 0\<rparr>"
      have c': "r = Err Io" "c' = c\<lparr>c_dev := dev, c_slots := (c_slots c)[i := ?d]\<rparr>"
        using run base(5) False \<open>\<not> fresh\<close> rd'
        by (auto simp: slot_fill_def slot_update_def slot_at_def act_bind_def act_run)
      have "cache_wf content c' \<and> cache_view content c' = cache_view content c"
        by (rule fail_slot_wf [OF free law(1,2) _ _ _ c'(2)]) (use len law(3) in simp_all)
      then show ?thesis using c'(1) \<open>\<not> fresh\<close> by simp
    qed
  qed
qed

section \<open>The cache is a store of blocks\<close>

text \<open>A slot that keeps its block, and dirty or not holds the same or, dirty, new data.\<close>

lemma set_slot_wf:
  assumes wf: "cache_wf_but x content c" and b: "bt_get b (c_index c) = Some i"
    and s: "s_block s = b" "length (s_data s) = c_block_size c"
    and keep: "s_dirty s \<and> (x = None \<or> x = Some b) \<and> y = None \<or>
      y = x \<and> s_dirty s = s_dirty (c_slots c ! i) \<and> s_data s = s_data (c_slots c ! i)"
    and c': "c' = c\<lparr>c_slots := (c_slots c)[i := s], c_tick := t\<rparr>"
  shows "cache_wf_but y content c' \<and> cache_view content c' = (cache_view content c)(b := Some (s_data s))"
proof -
  note base = cache_wf_base [OF wf] and bi = cache_wf_index [OF wf b]
  have disk: "disk_block content c' = disk_block content c" by (simp add: fun_eq_iff disk_block_def c')
  have slot: "c_slots c' ! j = (if j = i then s else c_slots c ! j)" for j using bi(2) by (simp add: c')
  have same: "c_index c' = c_index c" "length (c_slots c') = length (c_slots c)" "c_block_size c' = c_block_size c"
    "c_dev c' = c_dev c" by (simp_all add: c')
  have uniq: "d = b" if "bt_get d (c_index c) = Some i" for d
    using cache_wf_index(3) [OF wf that] bi(3) by simp
  have "cache_wf_but y content c'"
    unfolding cache_wf_but_def disk slot_indexed_def same
  proof (intro conjI allI impI)
    fix d j assume d: "bt_get d (c_index c) = Some j"
    note f = cache_wf_index [OF wf d]
    show "d \<noteq> u32_MAX" "j < length (c_slots c)" by (rule f)+
    show "s_block (c_slots c' ! j) = d" using f(3) s(1) uniq d by (auto simp: slot)
    show "s_dirty (c_slots c' ! j) \<or> y = Some d \<or> disk_block content c d = Some (s_data (c_slots c' ! j))"
    proof (cases "j = i")
      case True
      with d uniq have "d = b" by simp
      with True f(4) keep show ?thesis by (auto simp: slot)
    next
      case False
      with d b have "d \<noteq> b" by auto
      with False f(4) keep show ?thesis by (auto simp: slot)
    qed
  next
    fix j assume j: "j < length (c_slots c)"
    note f = cache_wf_slot [OF wf j]
    show "length (s_data (c_slots c' ! j)) = c_block_size c" using f(1) s(2) by (simp add: slot)
    show "bt_get (s_block (c_slots c' ! j)) (c_index c) = Some j \<or>
        s_block (c_slots c' ! j) = u32_MAX \<and> \<not> s_dirty (c_slots c' ! j)"
      using f(2) b s(1) by (cases "j = i") (simp_all add: slot)
  qed (rule base)+
  moreover have "cache_view content c' = (cache_view content c)(b := Some (s_data s))"
  proof
    fix d
    show "cache_view content c' d = ((cache_view content c)(b := Some (s_data s))) d"
    proof (cases "bt_get d (c_index c)")
      case None
      with b show ?thesis by (auto simp: cache_view_def same disk)
    next
      case (Some j)
      have "d = b \<longleftrightarrow> j = i"
      proof
        assume "d = b" with Some b show "j = i" by simp
      next
        assume "j = i" with Some uniq show "d = b" by simp
      qed
      with Some show ?thesis by (simp add: cache_view_def same slot)
    qed
  qed
  ultimately show ?thesis ..
qed

lemma tick_wf:
  assumes "cache_wf_but x content c"
  shows "cache_wf_but x content (c\<lparr>c_tick := t\<rparr>) \<and> cache_view content (c\<lparr>c_tick := t\<rparr>) = cache_view content c"
proof -
  have d: "disk_block content (c\<lparr>c_tick := t\<rparr>) = disk_block content c" by (simp add: fun_eq_iff disk_block_def)
  have "cache_view content (c\<lparr>c_tick := t\<rparr>) = cache_view content c"
    by (simp add: fun_eq_iff cache_view_def d split: option.split)
  then show ?thesis using assms by (simp add: cache_wf_but_def slot_indexed_def d)
qed

lemma cache_slot_spec:
  assumes wf: "cache_wf content c" and "block \<noteq> u32_MAX" and run: "cache_slot block fresh c = (r, c')"
  shows "r = Err Io \<and> cache_wf content c' \<and> cache_view content c' = cache_view content c \<or>
    (\<exists>i. r = Ok i \<and> bt_get block (c_index c') = Some i \<and>
      cache_wf_but (if fresh then Some block else None) content c' \<and>
      (if fresh then \<exists>d. cache_view content c' = (cache_view content c)(block := Some d)
       else cache_view content c' = cache_view content c))"
proof -
  define c1 where "c1 = c\<lparr>c_tick := c_tick c + 1\<rparr>"
  have wf1: "cache_wf content c1" and v1: "cache_view content c1 = cache_view content c"
    using tick_wf [OF wf] by (simp_all add: c1_def)
  show ?thesis
  proof (cases "bt_get block (c_index c1)")
    case (Some i)
    let ?s = "(c_slots c1 ! i)\<lparr>s_used := c_tick c1\<rparr>"
    note bi = cache_wf_index [OF wf1 Some]
    have c': "r = Ok i" "c' = c1\<lparr>c_slots := (c_slots c1)[i := ?s], c_tick := c_tick c1\<rparr>"
      using run Some bi(2) by (cases c; auto simp: cache_slot_def act_simps c1_def slot_update_def act_bind_def)+
    have "cache_wf_but None content c' \<and> cache_view content c' = (cache_view content c1)(block := Some (s_data ?s))"
      by (rule set_slot_wf [OF wf1 Some _ _ _ c'(2)])
         (use bi cache_wf_slot(1) [OF wf1 bi(2)] in simp_all)
    moreover have "(cache_view content c)(block := Some (s_data ?s)) = cache_view content c"
    proof -
      have "cache_view content c1 block = Some (s_data ?s)" using Some by (simp add: cache_view_def)
      then show ?thesis using v1 by (metis fun_upd_triv)
    qed
    ultimately have wf': "cache_wf content c'" and view: "cache_view content c' = cache_view content c"
      and view': "cache_view content c' = (cache_view content c)(block := Some (s_data ?s))"
      using v1 by simp_all
    have wfb: "cache_wf_but (Some block) content c'"
      using wf' unfolding cache_wf_but_def by blast
    have idx: "bt_get block (c_index c') = Some i" using Some by (simp add: c'(2))
    have ex: "\<exists>d. cache_view content c = (cache_view content c)(block := Some d)"
      using view' unfolding view by (rule exI)
    show ?thesis
      by (rule disjI2, rule exI [of _ i]) (cases fresh; simp only: if_True if_False c'(1) idx wfb ex wf' view simp_thms)
  next
    case None
    obtain q c2 where room: "slot_room block c1 = (q, c2)" by fastforce
    note rs = slot_room_spec [OF wf1 None room]
    have run': "(r, c') = act_bind (slot_room block) (\<lambda>i. slot_fill i block fresh) c1"
      using run None by (simp add: cache_slot_def act_simps c1_def)
    show ?thesis
    proof (cases "\<exists>i. q = Ok i")
      case True
      then obtain i where q: "q = Ok i" ..
      with rs have free: "cache_wf_free i content c2" and none: "bt_get block (c_index c2) = None"
        and v2: "cache_view content c2 = cache_view content c" using v1 by auto
      have "slot_fill i block fresh c2 = (r, c')" using run' room q by (simp add: act_bind_def)
      from slot_fill_spec [OF free none assms(2) this] show ?thesis unfolding v2 by blast
    next
      case False
      with rs have "q = Err Io" and "cache_wf content c2" and "cache_view content c2 = cache_view content c"
        using v1 by auto
      moreover from \<open>q = Err Io\<close> run' room have "r = Err Io" "c' = c2" by (simp_all add: act_bind_def)
      ultimately show ?thesis by simp
    qed
  qed
qed

lemma cache_read_spec:
  assumes wf: "cache_wf content c" and "block \<noteq> u32_MAX" and run: "cache_read block f c = (r, c')"
  shows "cache_wf content c' \<and> cache_view content c' = cache_view content c \<and>
    (r = Err Io \<or> (\<exists>d. cache_view content c block = Some d \<and> length d = c_block_size c' \<and> r = f d))"
proof -
  obtain q c1 where q: "cache_slot block False c = (q, c1)" by fastforce
  from cache_slot_spec [OF assms(1,2) q] consider
    (err) "q = Err Io" "cache_wf content c1" "cache_view content c1 = cache_view content c"
    | (ok) i where "q = Ok i" "bt_get block (c_index c1) = Some i" "cache_wf content c1"
        "cache_view content c1 = cache_view content c" by auto
  then show ?thesis
  proof cases
    case err
    with run q show ?thesis by (simp add: cache_read_def act_bind_def)
  next
    case ok
    note bi = cache_wf_index [OF ok(3) ok(2)]
    have "r = f (s_data (c_slots c1 ! i))" "c' = c1"
      using run q ok(1) bi(2) by (auto simp: cache_read_def act_bind_def slot_at_def act_run)
    moreover have "cache_view content c block = Some (s_data (c_slots c1 ! i))"
      using ok(2) unfolding ok(4) [symmetric] by (simp add: cache_view_def)
    ultimately show ?thesis using ok cache_wf_slot(1) [OF ok(3) bi(2)] by simp
  qed
qed

lemma cache_modify_spec:
  assumes wf: "cache_wf content c" and "block \<noteq> u32_MAX" and run: "cache_modify block f c = (r, c')"
    and len: "\<And>d a d'. f d = Ok (a, d') \<Longrightarrow> length d' = length d"
  shows "r = Err Io \<and> cache_wf content c' \<and> cache_view content c' = cache_view content c \<or>
    (\<exists>d. cache_view content c block = Some d \<and>
      (case f d of
         Ok (a, d') \<Rightarrow> r = Ok a \<and> cache_wf content c' \<and> cache_view content c' = (cache_view content c)(block := Some d')
       | Err e \<Rightarrow> r = Err e \<and> cache_wf content c' \<and> cache_view content c' = cache_view content c
       | Panic \<Rightarrow> r = Panic))"
proof -
  obtain q c1 where q: "cache_slot block False c = (q, c1)" by fastforce
  from cache_slot_spec [OF assms(1,2) q] consider
    (err) "q = Err Io" "cache_wf content c1" "cache_view content c1 = cache_view content c"
    | (ok) i where "q = Ok i" "bt_get block (c_index c1) = Some i" "cache_wf content c1"
        "cache_view content c1 = cache_view content c" by auto
  then show ?thesis
  proof cases
    case err
    with run q show ?thesis by (simp add: cache_modify_def act_bind_def)
  next
    case ok
    note bi = cache_wf_index [OF ok(3) ok(2)] and ls = cache_wf_slot(1) [OF ok(3) cache_wf_index(2) [OF ok(3) ok(2)]]
    let ?s = "c_slots c1 ! i" let ?d = "s_data ?s"
    have view: "cache_view content c block = Some ?d"
      using ok(2) unfolding ok(4) [symmetric] by (simp add: cache_view_def)
    define c2 where "c2 = c1\<lparr>c_slots := (c_slots c1)[i := ?s\<lparr>s_dirty := True\<rparr>], c_tick := c_tick c1\<rparr>"
    have "cache_wf content c2 \<and> cache_view content c2 = (cache_view content c1)(block := Some (s_data (?s\<lparr>s_dirty := True\<rparr>)))"
      by (rule set_slot_wf [OF ok(3,2) _ _ _ c2_def]) (use bi ls in simp_all)
    then have 2: "cache_wf content c2" "cache_view content c2 = cache_view content c"
      using ok(4) view by auto
    have c2: "slot_update i (\<lambda>s. s\<lparr>s_dirty := True\<rparr>) c1 = (Ok (), c2)"
      using bi(2) by (cases c1) (simp add: slot_update_def c2_def)
    have s2: "slot_at i c2 = (Ok (?s\<lparr>s_dirty := True\<rparr>), c2)"
      using bi(2) by (simp add: slot_at_def c2_def)
    have b2: "bt_get block (c_index c2) = Some i" using ok(2) by (simp add: c2_def)
    note run' = run [unfolded cache_modify_def]
    note steps = q [unfolded ok(1)] c2 s2
    show ?thesis
    proof (cases "f ?d")
      case (Ok p)
      obtain a d' where p: "p = (a, d')" by fastforce
      let ?s3 = "?s\<lparr>s_dirty := True, s_data := d'\<rparr>"
      define c3 where "c3 = c2\<lparr>c_slots := (c_slots c2)[i := ?s3], c_tick := c_tick c2\<rparr>"
      have "r = Ok a" "c' = c3"
        using run' Ok p bi(2) steps by (auto simp: act_run act_bind_def slot_update_def c2_def c3_def)
      moreover have "cache_wf content c3 \<and> cache_view content c3 = (cache_view content c2)(block := Some (s_data ?s3))"
        by (rule set_slot_wf [OF 2(1) b2 _ _ _ c3_def])
           (use bi ls len [of ?d a d'] Ok p in \<open>simp_all add: c2_def\<close>)
      ultimately show ?thesis using view Ok p 2 by simp
    next
      case (Err e)
      then have "r = Err e" "c' = c2" using run' steps by (auto simp: act_bind_def act_run)
      then show ?thesis using view Err 2 by simp
    next
      case Panic
      then have "r = Panic" using run' steps by (auto simp: act_bind_def act_run)
      then show ?thesis using view Panic by simp
    qed
  qed
qed

lemma cache_zero_spec:
  assumes wf: "cache_wf content c" and "block \<noteq> u32_MAX" and run: "cache_zero block c = (r, c')"
  shows "cache_wf content c' \<and>
    (r = Err Io \<and> cache_view content c' = cache_view content c \<or>
     r = Ok () \<and> cache_view content c' = (cache_view content c)(block := Some (replicate (c_block_size c') 0)))"
proof -
  obtain q c1 where q: "cache_slot block True c = (q, c1)" by fastforce
  from cache_slot_spec [OF assms(1,2) q] consider
    (err) "q = Err Io" "cache_wf content c1" "cache_view content c1 = cache_view content c"
    | (ok) i d where "q = Ok i" "bt_get block (c_index c1) = Some i" "cache_wf_but (Some block) content c1"
        "cache_view content c1 = (cache_view content c)(block := Some d)" by auto
  then show ?thesis
  proof cases
    case err
    with run q show ?thesis by (simp add: cache_zero_def act_bind_def)
  next
    case ok
    note bi = cache_wf_index [OF ok(3) ok(2)] and ls = cache_wf_slot(1) [OF ok(3) cache_wf_index(2) [OF ok(3) ok(2)]]
    let ?s = "(c_slots c1 ! i)\<lparr>s_data := replicate (length (s_data (c_slots c1 ! i))) 0, s_dirty := True\<rparr>"
    have c': "r = Ok ()" "c' = c1\<lparr>c_slots := (c_slots c1)[i := ?s], c_tick := c_tick c1\<rparr>"
      using run q ok(1) bi(2) by (cases c1; auto simp: cache_zero_def act_bind_def slot_update_def)+
    have "cache_wf content c' \<and> cache_view content c' = (cache_view content c1)(block := Some (s_data ?s))"
      by (rule set_slot_wf [OF ok(3,2) _ _ _ c'(2)]) (use bi ls in simp_all)
    moreover have "c_block_size c' = c_block_size c1" by (simp add: c'(2))
    ultimately show ?thesis using c'(1) ok(4) ls by simp
  qed
qed

section \<open>Flushing and reading through\<close>

definition flush_slot :: "nat \<Rightarrow> bool \<Rightarrow> ('d, bool) cache_action" where
  "flush_slot i ok = act_bind (act_try (cache_write_back i)) (\<lambda>r. act_return (ok \<and> r = Ok ()))"

lemma flush_slot_spec:
  assumes wf: "cache_wf content c" and i: "i < length (c_slots c)" and run: "flush_slot i ok c = (r, c')"
  shows "cache_wf content c' \<and> cache_view content c' = cache_view content c \<and> c_index c' = c_index c \<and>
    length (c_slots c') = length (c_slots c) \<and> (\<forall>j. s_dirty (c_slots c' ! j) \<longrightarrow> s_dirty (c_slots c ! j)) \<and>
    (\<exists>ok'. r = Ok ok' \<and> (ok' \<longrightarrow> ok \<and> \<not> s_dirty (c_slots c' ! i)))"
proof -
  obtain q c1 where q: "cache_write_back i c = (q, c1)" by fastforce
  note ws = write_back_spec [OF wf i q]
  then obtain f where f: "c_slots c1 = (c_slots c)[i := (c_slots c ! i)\<lparr>s_dirty := f\<rparr>]"
    "f \<longrightarrow> s_dirty (c_slots c ! i)" "q = Ok () \<longrightarrow> \<not> f" by blast
  have "q = Ok () \<or> q = Err Io" using ws by blast
  then have "r = Ok (ok \<and> q = Ok ())" "c' = c1"
    using run q by (auto simp: flush_slot_def act_bind_def act_try_def act_run)
  moreover have "s_dirty (c_slots c1 ! j) = (if j = i then f else s_dirty (c_slots c ! j))" for j
    using f(1) i by simp
  ultimately show ?thesis using ws f i by simp
qed

lemma flush_slots_spec:
  assumes "cache_wf content c" and "\<forall>i \<in> set is. i < length (c_slots c)" and "act_fold flush_slot is ok c = (r, c')"
  shows "cache_wf content c' \<and> cache_view content c' = cache_view content c \<and> c_index c' = c_index c \<and>
    length (c_slots c') = length (c_slots c) \<and> (\<forall>j. s_dirty (c_slots c' ! j) \<longrightarrow> s_dirty (c_slots c ! j)) \<and>
    (\<exists>ok'. r = Ok ok' \<and> (ok' \<longrightarrow> ok \<and> (\<forall>i \<in> set is. \<not> s_dirty (c_slots c' ! i))))"
  using assms
proof (induction "is" arbitrary: ok c)
  case Nil
  then show ?case by (auto simp: act_run)
next
  case (Cons i js)
  obtain q c1 where q: "flush_slot i ok c = (q, c1)" by fastforce
  have "i < length (c_slots c)" using Cons.prems(2) by simp
  note fs = flush_slot_spec [OF Cons.prems(1) this q]
  then obtain ok1 where ok1: "q = Ok ok1" "ok1 \<longrightarrow> ok \<and> \<not> s_dirty (c_slots c1 ! i)" by blast
  have "act_fold flush_slot js ok1 c1 = (r, c')" using Cons.prems(3) q ok1(1) by (simp add: act_bind_def)
  moreover have "\<forall>i \<in> set js. i < length (c_slots c1)" using Cons.prems(2) fs by simp
  moreover have "cache_wf content c1" using fs by blast
  ultimately have IH: "cache_wf content c' \<and> cache_view content c' = cache_view content c1 \<and> c_index c' = c_index c1 \<and>
    length (c_slots c') = length (c_slots c1) \<and> (\<forall>j. s_dirty (c_slots c' ! j) \<longrightarrow> s_dirty (c_slots c1 ! j)) \<and>
    (\<exists>ok'. r = Ok ok' \<and> (ok' \<longrightarrow> ok1 \<and> (\<forall>i \<in> set js. \<not> s_dirty (c_slots c' ! i))))"
    by (intro Cons.IH)
  then obtain ok' where ok': "r = Ok ok'" "ok' \<longrightarrow> ok1 \<and> (\<forall>i \<in> set js. \<not> s_dirty (c_slots c' ! i))" by blast
  have "ok' \<longrightarrow> ok \<and> (\<forall>i \<in> set (i # js). \<not> s_dirty (c_slots c' ! i))"
    using ok1(2) ok'(2) IH by auto
  with IH fs ok'(1) show ?case by auto
qed

lemma cache_flush_spec:
  assumes wf: "cache_wf content c" and run: "cache_flush c = (r, c')"
  shows "cache_wf content c' \<and> cache_view content c' = cache_view content c \<and>
    (r = Err Io \<or> r = Ok () \<and> disk_block content c' = cache_view content c)"
proof -
  let ?P = "\<lambda>i. i < length (c_slots c) \<longrightarrow> s_dirty (c_slots c ! i)"
  let ?is = "filter ?P (map snd (c_index c))"
  have less: "\<forall>i \<in> set ?is. i < length (c_slots c)"
  proof
    fix i assume "i \<in> set ?is"
    then obtain b where "(b, i) \<in> set (c_index c)" by auto
    then have "bt_get b (c_index c) = Some i" by (rule bt_in_get [OF cache_wf_base(3) [OF wf]])
    then show "i < length (c_slots c)" by (rule cache_wf_index [OF wf])
  qed
  obtain q c1 where q: "act_fold flush_slot ?is True c = (q, c1)" by fastforce
  note fs = flush_slots_spec [OF wf less q]
  then obtain ok where ok: "q = Ok ok" "ok \<longrightarrow> (\<forall>i \<in> set ?is. \<not> s_dirty (c_slots c1 ! i))" by blast
  have fold: "act_fold (\<lambda>i ok. act_bind (act_try (cache_write_back i)) (\<lambda>r. act_return (ok \<and> r = Ok ()))) ?is True c = (q, c1)"
    using q by (simp add: flush_slot_def [abs_def])
  have c': "r = (if ok then Ok () else Err Io)" "c' = c1"
    using run fold ok(1) by (auto simp: cache_flush_def act_bind_def act_run split: if_splits)
  have wf1: "cache_wf content c1" and v1: "cache_view content c1 = cache_view content c" using fs by blast+
  have "disk_block content c1 = cache_view content c" if ok
  proof
    fix b
    show "disk_block content c1 b = cache_view content c b"
    proof (cases "bt_get b (c_index c1)")
      case None
      then show ?thesis unfolding v1 [symmetric] by (simp add: cache_view_def)
    next
      case (Some i)
      note bi = cache_wf_index [OF wf1 Some]
      have "i \<in> set (map snd (c_index c))" using Some fs bt_get_in by (metis (no_types, lifting) image_eqI list.set_map snd_conv)
      then have "\<not> s_dirty (c_slots c1 ! i)" using ok(2) that fs by (cases "?P i") auto
      with bi(4) have "disk_block content c1 b = Some (s_data (c_slots c1 ! i))" by simp
      with Some show ?thesis unfolding v1 [symmetric] by (simp add: cache_view_def)
    qed
  qed
  with wf1 v1 show ?thesis unfolding c' by simp
qed

lemma read_device_spec:
  assumes wf: "cache_wf content c" and rd: "dev_read off buf (c_dev c) = (ok, data, dev)"
  shows "cache_wf content (c\<lparr>c_dev := dev\<rparr>) \<and> cache_view content (c\<lparr>c_dev := dev\<rparr>) = cache_view content c"
proof -
  note law = dev_read_law [OF cache_wf_base(1) [OF wf] rd]
  have d: "disk_block content (c\<lparr>c_dev := dev\<rparr>) = disk_block content c"
    by (simp add: fun_eq_iff disk_block_def law(2))
  have "cache_view content (c\<lparr>c_dev := dev\<rparr>) = cache_view content c"
    by (simp add: fun_eq_iff cache_view_def d split: option.split)
  then show ?thesis using wf law(1) by (simp add: cache_wf_but_def slot_indexed_def d)
qed

lemma read_one_spec:
  assumes wf: "cache_wf content c" and len: "length dst = c_block_size c" and run: "read_one b dst c = (r, c')"
  shows "cache_wf content c' \<and> cache_view content c' = cache_view content c \<and> c_block_size c' = c_block_size c \<and>
    (r = Err Io \<or> (\<exists>d. r = Ok d \<and> cache_view content c b = Some d \<and> length d = c_block_size c))"
proof (cases "bt_get b (c_index c)")
  case (Some i)
  note bi = cache_wf_index [OF wf Some] and ls = cache_wf_slot(1) [OF wf cache_wf_index(2) [OF wf Some]]
  have "r = Ok (s_data (c_slots c ! i))" "c' = c"
    using run Some bi(2) ls len by (auto simp: read_one_def act_simps act_bind_def slot_at_def)
  then show ?thesis using wf Some ls by (simp add: cache_view_def)
next
  case None
  obtain ok data dev where rd: "dev_read (cache_offset c b) dst (c_dev c) = (ok, data, dev)"
    by (cases "dev_read (cache_offset c b) dst (c_dev c)")
  note law = dev_read_law [OF cache_wf_base(1) [OF wf] rd] and same = read_device_spec [OF wf rd]
  have c': "c' = c\<lparr>c_dev := dev\<rparr>" "r = (if ok then Ok data else Err Io)"
    using run None rd by (auto simp: read_one_def act_simps Let_def split: if_splits)
  have "cache_view content c b = Some data" if ok
    using law(4) [OF that] len None
    by (simp add: cache_view_def disk_block_def block_in_def cache_offset_def add.commute)
  then show ?thesis using same law(3) len unfolding c' by auto
qed

lemma slice_drop: "slice (bs + a) (bs + b) xs = slice a b (drop bs xs)"
  by (simp add: slice_def add.commute)

lemma read_each_spec:
  assumes "cache_wf content c" and "length out = n * c_block_size c" and "read_each n b out c = (r, c')"
  shows "cache_wf content c' \<and> cache_view content c' = cache_view content c \<and> c_block_size c' = c_block_size c \<and>
    (r = Err Io \<or> (\<exists>out'. r = Ok out' \<and> length out' = length out \<and>
      (\<forall>k < n. cache_view content c (b + k) = Some (slice (k * c_block_size c) ((k + 1) * c_block_size c) out'))))"
  using assms
proof (induction n arbitrary: b out c r c')
  case 0
  then show ?case by (auto simp: act_run)
next
  case (Suc n)
  let ?bs = "c_block_size c"
  obtain q c1 where q: "read_one b (take ?bs out) c = (q, c1)" by fastforce
  have "length (take ?bs out) = ?bs" using Suc.prems(2) by simp
  note one = read_one_spec [OF Suc.prems(1) this q]
  show ?case
  proof (cases "q = Err Io")
    case True
    with Suc.prems(3) q have "r = Err Io" "c' = c1" by (auto simp: act_simps act_bind_def)
    with one show ?thesis by simp
  next
    case False
    with one obtain d where d: "q = Ok d" "cache_view content c b = Some d" "length d = ?bs" by blast
    obtain p c2 where p: "read_each n (b + 1) (drop ?bs out) c1 = (p, c2)" by fastforce
    have "length (drop ?bs out) = n * c_block_size c1" using Suc.prems(2) one by simp
    then have IH: "cache_wf content c2 \<and> cache_view content c2 = cache_view content c1 \<and> c_block_size c2 = c_block_size c1 \<and>
      (p = Err Io \<or> (\<exists>out'. p = Ok out' \<and> length out' = length (drop ?bs out) \<and>
        (\<forall>k < n. cache_view content c1 (b + 1 + k) = Some (slice (k * c_block_size c1) ((k + 1) * c_block_size c1) out'))))"
      using Suc.IH [OF _ _ p] one by blast
    have run: "(r, c') = act_bind (read_each n (b + 1) (drop ?bs out)) (\<lambda>rest. act_return (d @ rest)) c1"
      using Suc.prems(3) q d(1) by (simp add: act_simps act_bind_def)
    show ?thesis
    proof (cases "p = Err Io")
      case True
      with run p have "r = Err Io" "c' = c2" by (auto simp: act_bind_def)
      with IH one show ?thesis by simp
    next
      case False
      with IH obtain rest where rest: "p = Ok rest" "length rest = length (drop ?bs out)"
        "\<And>k. k < n \<Longrightarrow> cache_view content c1 (b + 1 + k) = Some (slice (k * c_block_size c1) ((k + 1) * c_block_size c1) rest)"
        by blast
      have r: "r = Ok (d @ rest)" "c' = c2" using run p rest(1) by (auto simp: act_bind_def act_run)
      have "cache_view content c (b + k) = Some (slice (k * ?bs) ((k + 1) * ?bs) (d @ rest))" if "k < Suc n" for k
      proof (cases k)
        case 0
        then show ?thesis using d(2,3) by (simp add: slice_def)
      next
        case (Suc j)
        have "slice (Suc j * ?bs) ((Suc j + 1) * ?bs) (d @ rest) = slice (j * ?bs) ((j + 1) * ?bs) rest"
          using slice_drop [of ?bs "j * ?bs" "(j + 1) * ?bs" "d @ rest"] d(3) by simp
        moreover have "cache_view content c (b + Suc j) = Some (slice (j * ?bs) ((j + 1) * ?bs) rest)"
          using rest(3) [of j] that Suc one by simp
        ultimately show ?thesis using Suc by simp
      qed
      moreover have "length (d @ rest) = length out" using d(3) rest(2) Suc.prems(2) by simp
      ultimately show ?thesis using r IH one by auto
    qed
  qed
qed

lemma slice_slice:
  assumes "a \<le> b" and "b \<le> n"
  shows "slice a b (slice off (off + n) xs) = slice (off + a) (off + b) xs"
  using assms by (simp add: slice_def drop_take add.commute)

lemma cache_read_through_spec:
  assumes wf: "cache_wf content c" and len: "length out = n * c_block_size c"
    and run: "cache_read_through first out c = (r, c')" and "first + n \<le> u32_MAX"
  shows "cache_wf content c' \<and> cache_view content c' = cache_view content c \<and> c_block_size c' = c_block_size c \<and>
    (r = Err Io \<or> (\<exists>out'. r = Ok out' \<and> length out' = length out \<and>
      (\<forall>k < n. cache_view content c (first + k) = Some (slice (k * c_block_size c) ((k + 1) * c_block_size c) out'))))"
proof -
  let ?bs = "c_block_size c"
  have n: "length out div ?bs = n" using len cache_wf_base(2) [OF wf] by simp
  show ?thesis
  proof (cases "list_ex (\<lambda>(b, _). first \<le> b \<and> b < first + n) (c_index c)")
    case True
    have "read_each n first out c = (r, c')"
      using run True n assms(4) by (simp add: cache_read_through_def act_simps u32_add_def)
    from read_each_spec [OF wf len this] show ?thesis .
  next
    case False
    obtain ok data dev where rd: "dev_read (cache_offset c first) out (c_dev c) = (ok, data, dev)"
      by (cases "dev_read (cache_offset c first) out (c_dev c)")
    note law = dev_read_law [OF cache_wf_base(1) [OF wf] rd] and same = read_device_spec [OF wf rd]
    have c': "c' = c\<lparr>c_dev := dev\<rparr>" "r = (if ok then Ok data else Err Io)"
      using run False n assms(4) rd
      by (auto simp: cache_read_through_def act_simps u32_add_def Let_def split: if_splits)
    have "cache_view content c (first + k) = Some (slice (k * ?bs) ((k + 1) * ?bs) data)" if "k < n" ok for k
    proof -
      have "bt_get (first + k) (c_index c) = None"
      proof (rule ccontr)
        assume "bt_get (first + k) (c_index c) \<noteq> None"
        then obtain i where "(first + k, i) \<in> set (c_index c)" using bt_get_in by fastforce
        with False that(1) show False by (force simp: list_ex_iff)
      qed
      moreover have kn: "(k + 1) * ?bs \<le> n * ?bs" using that(1) by (intro mult_le_mono1) simp
      moreover have "slice (k * ?bs) ((k + 1) * ?bs) data =
          slice (first * ?bs + k * ?bs) (first * ?bs + (k + 1) * ?bs) (content (d_state (c_dev c)))"
        using law(4) [OF that(2)] len kn by (simp only: cache_offset_def) (rule slice_slice; simp)
      moreover have "first * ?bs + (k + 1) * ?bs \<le> length (content (d_state (c_dev c)))"
        using law(4) [OF that(2)] len kn by (simp add: cache_offset_def)
      ultimately show ?thesis
        by (simp add: cache_view_def disk_block_def block_in_def add_mult_distrib add.assoc add.commute add.left_commute)
    qed
    then show ?thesis using same law(3) unfolding c' by auto
  qed
qed

lemma cache_new_wf:
  assumes "disk_like dev content" and "0 < bs"
  shows "cache_wf content (cache_new dev bs)"
    "cache_view content (cache_new dev bs) = block_in bs (content (d_state dev))"
  using assms by (simp_all add: cache_wf_but_def cache_new_def cache_view_def disk_block_def fun_eq_iff)

text \<open>
  C31. The write-back cache is a store of blocks. Over a device that
  behaves like an array of bytes, whose reads and writes may fail at any time, a read of
  a block sees what was last put there and changes nothing; a change or zeroing of a
  block replaces that block alone, and a failing one changes none; evictions
  are invisible; a whole-block read sees cached and uncached blocks alike; a
  flush changes nothing and, when it succeeds, leaves every block on the device.
\<close>
theorem cache_is_store:
  assumes "cache_wf content c" and "block \<noteq> u32_MAX"
    and "\<And>d a d'. f d = Ok (a, d') \<Longrightarrow> length d' = length d"
  shows "(\<forall>g r c'. cache_read block g c = (r, c') \<longrightarrow>
      cache_wf content c' \<and> cache_view content c' = cache_view content c \<and>
      (r = Err Io \<or> (\<exists>d. cache_view content c block = Some d \<and> r = g d))) \<and>
    (\<forall>r c'. cache_modify block f c = (r, c') \<longrightarrow>
      r = Err Io \<and> cache_wf content c' \<and> cache_view content c' = cache_view content c \<or>
      (\<exists>d. cache_view content c block = Some d \<and>
        (case f d of
           Ok (a, d') \<Rightarrow> r = Ok a \<and> cache_wf content c' \<and> cache_view content c' = (cache_view content c)(block := Some d')
         | Err e \<Rightarrow> r = Err e \<and> cache_wf content c' \<and> cache_view content c' = cache_view content c
         | Panic \<Rightarrow> r = Panic))) \<and>
    (\<forall>r c'. cache_zero block c = (r, c') \<longrightarrow> cache_wf content c' \<and>
      (r = Err Io \<and> cache_view content c' = cache_view content c \<or>
       r = Ok () \<and> cache_view content c' = (cache_view content c)(block := Some (replicate (c_block_size c') 0)))) \<and>
    (\<forall>r c'. cache_flush c = (r, c') \<longrightarrow> cache_wf content c' \<and> cache_view content c' = cache_view content c \<and>
      (r = Err Io \<or> r = Ok () \<and> disk_block content c' = cache_view content c)) \<and>
    (\<forall>n out r c'. length out = n * c_block_size c \<and> block + n \<le> u32_MAX \<and>
      cache_read_through block out c = (r, c') \<longrightarrow>
      cache_wf content c' \<and> cache_view content c' = cache_view content c \<and>
      (r = Err Io \<or> (\<exists>out'. r = Ok out' \<and> length out' = length out \<and>
        (\<forall>k < n. cache_view content c (block + k) =
           Some (slice (k * c_block_size c) ((k + 1) * c_block_size c) out')))))"
  (is "?read \<and> ?modify \<and> ?zero \<and> ?flush \<and> ?through")
proof -
  have ?read using cache_read_spec [OF assms(1,2)] by blast
  moreover have ?modify by (intro allI impI, rule cache_modify_spec [OF assms(1,2) _ assms(3)])
  moreover have ?zero using cache_zero_spec [OF assms(1,2)] by blast
  moreover have ?flush using cache_flush_spec [OF assms(1)] by blast
  moreover have ?through using cache_read_through_spec [OF assms(1)] by blast
  ultimately show ?thesis by (intro conjI)
qed

text \<open>A disk in memory, which fails past its end.\<close>

definition ram_disk :: "bytes \<Rightarrow> bytes device" where
  "ram_disk disk = \<lparr>d_state = disk,
     d_read = (\<lambda>off buf d. if off + length buf \<le> length d then (True, slice off (off + length buf) d, d) else (False, buf, d)),
     d_write = (\<lambda>off buf d. if off + length buf \<le> length d then (True, splice off buf d) else (False, d)),
     d_now = (\<lambda>d. (0, d))\<rparr>"

lemma slice_splice_same: "off + length v \<le> length d \<Longrightarrow> slice off (off + length v) (splice off v d) = v"
  by (simp add: slice_def splice_def)

lemma ram_disk_like: "disk_like (ram_disk disk) (\<lambda>d. d)"
  by (auto simp: disk_like_def ram_disk_def nth_splice slice_splice_same)

theorem cache_is_store_witness:
  "\<exists>c'. cache_read 1 Ok (cache_new (ram_disk [1, 2, 3, 4]) 2) = (Ok [3, 4], c') \<and>
     cache_view (\<lambda>d. d) c' 0 = Some [1, 2]"
proof -
  let ?c = "cache_new (ram_disk [1, 2, 3, 4]) 2"
  have wf: "cache_wf (\<lambda>d. d) ?c" by (rule cache_new_wf [OF ram_disk_like]) simp
  have view: "cache_view (\<lambda>d. d) ?c 0 = Some [1, 2]" "cache_view (\<lambda>d. d) ?c 1 = Some [3, 4]"
    by (simp_all add: cache_new_wf(2) [OF ram_disk_like] block_in_def slice_def) (simp_all add: ram_disk_def)
  have one: "(1 :: nat) \<noteq> u32_MAX" by (simp add: u32_MAX_def)
  obtain r c' where run: "cache_read 1 Ok ?c = (r, c')" by fastforce
  moreover have "fst (cache_read 1 Ok ?c) \<noteq> Err Io" by code_simp
  ultimately show ?thesis
    using cache_is_store [OF wf one, of "\<lambda>d. Ok ((), d)", THEN conjunct1] view by fastforce
qed

end
