(* ===== verification/Ext2_Alloc.thy ===== *)
theory Ext2_Alloc
  imports Ext2_Cache
begin

text \<open>
  A mounted ext2 file system: its state, mounting, flushing, and the allocation of
  blocks and inodes in the group bitmaps (\<^verbatim>\<open>modules/ext2/ext2fs/src/fs.rs\<close>, up to the
  path walk). The lemmas show that the bitmap scan is first fit from the goal, that the
  bitmaps in the cache are the pool of bits an allocator needs (\<open>bit_pool\<close>), that mounting
  establishes the invariant of a mounted file system, and that the block allocator keeps it
  and hands out only blocks no bitmap marks, each once.
\<close>

section \<open>State\<close>

record 'd fs =
  f_cache :: "'d cache"
  f_geo :: geometry
  f_sb :: bytes
  f_sb_dirty :: bool
  f_gdt :: bytes
  f_gdt_dirty :: "bool list"
  f_last_alloc :: nat
  f_resolved :: "(string \<times> nat) list"

type_synonym ('d, 'a) fs_action = "('d fs, 'a, ext2_error) action"

record usage =
  us_block_size :: nat
  us_blocks :: nat
  us_free_blocks :: nat
  us_inodes :: nat
  us_free_inodes :: nat

definition in_cache :: "('d, 'a) cache_action \<Rightarrow> ('d, 'a) fs_action" where
  "in_cache m = act_on f_cache (\<lambda>c s. s\<lparr>f_cache := c\<rparr>) m"

definition gd32 :: "'d fs \<Rightarrow> nat \<Rightarrow> nat \<Rightarrow> (nat, ext2_error) result" where
  "gd32 s g field = bind_result (get32 (f_gdt s) (g * GD_SIZE + field)) (\<lambda>w. Ok (unat w))"

definition gd16 :: "'d fs \<Rightarrow> nat \<Rightarrow> nat \<Rightarrow> (nat, ext2_error) result" where
  "gd16 s g field = bind_result (get16 (f_gdt s) (g * GD_SIZE + field)) (\<lambda>w. Ok (unat w))"

section \<open>Mounting\<close>

definition group_on_disk :: "'d fs \<Rightarrow> nat \<Rightarrow> (unit, ext2_error) result" where
  "group_on_disk s g =
     bind_result (gd32 s g G_BLOCK_BITMAP) (\<lambda>bb.
     bind_result (gd32 s g G_INODE_BITMAP) (\<lambda>ib.
     bind_result (gd32 s g G_INODE_TABLE) (\<lambda>it.
     if list_ex (\<lambda>b. b < first_data_block (f_geo s) \<or> blocks_count (f_geo s) \<le> b) [bb, ib, it]
     then Err Unsupported else Ok ())))"

definition mount :: "'d device \<Rightarrow> ('d fs, ext2_error) result" where
  "mount dev =
     (case dev_read SB_OFFSET (replicate SB_SIZE 0) dev of (ok, sb, dev) \<Rightarrow>
      if \<not> ok then Err Io else
      bind_result (geometry_parse sb) (\<lambda>geo.
      let n = gdt_blocks geo in
      case dev_read ((first_data_block geo + 1) * block_size geo) (replicate (n * block_size geo) 0) dev of
        (ok, gdt, dev) \<Rightarrow>
      if \<not> ok then Err Io else
      let s = \<lparr>f_cache = cache_new dev (block_size geo), f_geo = geo, f_sb = sb, f_sb_dirty = False,
               f_gdt = gdt, f_gdt_dirty = replicate n False, f_last_alloc = 0, f_resolved = []\<rparr>
      in bind_result (foldl_result (\<lambda>_ g. group_on_disk s g) () [0..<groups geo]) (\<lambda>_. Ok s)))"

definition fs_usage :: "'d fs \<Rightarrow> (usage, ext2_error) result" where
  "fs_usage s =
     bind_result (get32 (f_sb s) S_FREE_BLOCKS) (\<lambda>fb.
     bind_result (get32 (f_sb s) S_FREE_INODES) (\<lambda>fi.
     Ok \<lparr>us_block_size = block_size (f_geo s),
         us_blocks = blocks_count (f_geo s) - first_data_block (f_geo s), us_free_blocks = unat fb,
         us_inodes = inodes_count (f_geo s), us_free_inodes = unat fi\<rparr>))"

section \<open>Superblock and descriptors\<close>

definition gd16_add :: "nat \<Rightarrow> nat \<Rightarrow> int \<Rightarrow> ('d, unit) fs_action" where
  "gd16_add g field delta =
     (let off = g * GD_SIZE + field in
      act_bind (act_gets (\<lambda>s. (f_gdt s, off div block_size (f_geo s)))) (\<lambda>(gdt, k).
      act_bind (act_lift (get16 gdt off)) (\<lambda>v.
      act_bind (act_lift (put16 gdt off (word_of_int (uint v + delta)))) (\<lambda>gdt.
      act_bind (act_update (\<lambda>s. s\<lparr>f_gdt := gdt\<rparr>)) (\<lambda>_.
      act_bind (act_gets (\<lambda>s. k < length (f_gdt_dirty s))) (\<lambda>ok.
      if ok then act_update (\<lambda>s. s\<lparr>f_gdt_dirty := (f_gdt_dirty s)[k := True]\<rparr>) else act_panic))))))"

definition sb32_add :: "nat \<Rightarrow> int \<Rightarrow> ('d, unit) fs_action" where
  "sb32_add field delta =
     act_bind (act_gets f_sb) (\<lambda>sb.
     act_bind (act_lift (get32 sb field)) (\<lambda>v.
     act_bind (act_lift (put32 sb field (word_of_int (uint v + delta)))) (\<lambda>sb.
     act_update (\<lambda>s. s\<lparr>f_sb := sb, f_sb_dirty := True\<rparr>))))"

definition fs_write_dev :: "nat \<Rightarrow> bytes \<Rightarrow> ('d, unit) fs_action" where
  "fs_write_dev off data s =
     (let (ok, dev) = dev_write off data (c_dev (f_cache s));
          s = s\<lparr>f_cache := (f_cache s)\<lparr>c_dev := dev\<rparr>\<rparr>
      in if ok then (Ok (), s) else (Err Io, s))"

definition fs_now :: "('d, u32) fs_action" where
  "fs_now s = (let (t, dev) = dev_now (c_dev (f_cache s)) in (Ok t, s\<lparr>f_cache := (f_cache s)\<lparr>c_dev := dev\<rparr>\<rparr>))"

definition flush_gdt_block :: "nat \<Rightarrow> unit \<Rightarrow> ('d, unit) fs_action" where
  "flush_gdt_block i _ =
     act_bind (act_gets (\<lambda>s. (f_gdt_dirty s ! i, block_size (f_geo s), first_data_block (f_geo s), f_gdt s))) (\<lambda>(dirty, bs, first, gdt).
     if dirty then
       act_bind (act_lift (get_range (i * bs) ((i + 1) * bs) gdt)) (\<lambda>data.
       act_bind (fs_write_dev ((first + 1 + i) * bs) data) (\<lambda>_.
       act_update (\<lambda>s. s\<lparr>f_gdt_dirty := (f_gdt_dirty s)[i := False]\<rparr>)))
     else act_return ())"

definition fs_flush :: "('d, unit) fs_action" where
  "fs_flush =
     act_bind (in_cache cache_flush) (\<lambda>_.
     act_bind (act_gets (\<lambda>s. length (f_gdt_dirty s))) (\<lambda>n.
     act_bind (act_fold flush_gdt_block [0..<n] ()) (\<lambda>_.
     act_bind (act_gets f_sb_dirty) (\<lambda>dirty.
     if dirty then
       act_bind fs_now (\<lambda>now.
       act_bind (act_gets f_sb) (\<lambda>sb.
       act_bind (act_lift (put32 sb S_WTIME now)) (\<lambda>sb.
       act_bind (act_update (\<lambda>s. s\<lparr>f_sb := sb\<rparr>)) (\<lambda>_.
       act_bind (fs_write_dev SB_OFFSET sb) (\<lambda>_.
       act_update (\<lambda>s. s\<lparr>f_sb_dirty := False\<rparr>))))))
     else act_return ()))))"

definition unmount :: "('d, 'd device) fs_action" where
  "unmount = act_bind fs_flush (\<lambda>_. act_gets (\<lambda>s. c_dev (f_cache s)))"

text \<open>\<^verbatim>\<open>op\<close>: an operation that changes the tree, flushed also when it failed.\<close>

definition fs_op :: "('d, 'a) fs_action \<Rightarrow> ('d, 'a) fs_action" where
  "fs_op f =
     act_bind (act_try f) (\<lambda>r.
     act_bind (act_update (\<lambda>s. s\<lparr>f_resolved := []\<rparr>)) (\<lambda>_.
     act_bind (act_try fs_flush) (\<lambda>flushed.
     act_bind (act_lift r) (\<lambda>v.
     act_bind (act_lift flushed) (\<lambda>_. act_return v)))))"

section \<open>Bitmaps\<close>

definition bit_mask :: "nat \<Rightarrow> u8" where
  "bit_mask i = push_bit (i mod 8) 1"

function scan_bits :: "bytes \<Rightarrow> nat \<Rightarrow> nat \<Rightarrow> (nat option, 'e) result" where
  "scan_bits bm i hi =
     (if \<not> i < hi then Ok None
      else if length bm \<le> i div 8 then Panic
      else if i mod 8 = 0 \<and> i + 8 \<le> hi \<and> bm ! (i div 8) = 0xFF then scan_bits bm (i + 8) hi
      else if bm ! (i div 8) AND bit_mask i = 0 then Ok (Some i)
      else scan_bits bm (i + 1) hi)"
  by pat_completeness auto
termination
  by (relation "measure (\<lambda>(bm, i, hi). hi - i)") auto

declare scan_bits.simps [simp del]

definition take_bit_in :: "bytes \<Rightarrow> nat \<Rightarrow> nat \<Rightarrow> (nat option \<times> bytes, 'e) result" where
  "take_bit_in bm bits start =
     bind_result (scan_bits bm (min start bits) bits) (\<lambda>found.
     bind_result (case found of Some i \<Rightarrow> Ok (Some i) | None \<Rightarrow> scan_bits bm 0 (min start bits)) (\<lambda>found.
     case found of
       None \<Rightarrow> Ok (None, bm)
     | Some i \<Rightarrow>
         if i div 8 < length bm then Ok (Some i, bm[i div 8 := bm ! (i div 8) OR bit_mask i]) else Panic))"

definition fs_take_bit :: "nat \<Rightarrow> nat \<Rightarrow> nat \<Rightarrow> ('d, nat option) fs_action" where
  "fs_take_bit block bits start = in_cache (cache_modify block (\<lambda>bm. take_bit_in bm bits start))"

definition clear_bit_in :: "bytes \<Rightarrow> nat \<Rightarrow> (bool \<times> bytes, 'e) result" where
  "clear_bit_in bm i =
     (if i div 8 < length bm
      then Ok (bm ! (i div 8) AND bit_mask i \<noteq> 0, bm[i div 8 := bm ! (i div 8) AND NOT (bit_mask i)])
      else Panic)"

definition fs_clear_bit :: "nat \<Rightarrow> nat \<Rightarrow> ('d, bool) fs_action" where
  "fs_clear_bit block i = in_cache (cache_modify block (\<lambda>bm. clear_bit_in bm i))"

section \<open>Allocation\<close>

text \<open>Block \<open>b\<close> of group \<open>g\<close>, whose bit was just taken.\<close>

definition alloc_finish :: "nat \<Rightarrow> nat \<Rightarrow> ('d, nat) fs_action" where
  "alloc_finish g b =
     act_bind (gd16_add g G_FREE_BLOCKS (- 1)) (\<lambda>_.
     act_bind (sb32_add S_FREE_BLOCKS (- 1)) (\<lambda>_.
     act_bind (in_cache (cache_zero b)) (\<lambda>_.
     act_bind (act_update (\<lambda>s. s\<lparr>f_last_alloc := b + 1\<rparr>)) (\<lambda>_.
     act_return b))))"

text \<open>The loop of \<^verbatim>\<open>alloc_block\<close> over \<open>k\<close>.\<close>

primrec alloc_block_in :: "nat \<Rightarrow> nat \<Rightarrow> nat list \<Rightarrow> ('d, nat) fs_action" where
  "alloc_block_in goal g0 [] = act_fail NoSpace"
| "alloc_block_in goal g0 (k # ks) =
     act_bind (act_gets f_geo) (\<lambda>geo.
     act_bind (act_lift (u32_add g0 k)) (\<lambda>gk.
     let g = gk mod groups geo in
     act_bind (\<lambda>s. (gd16 s g G_FREE_BLOCKS, s)) (\<lambda>free.
     if free = 0 then alloc_block_in goal g0 ks
     else
       let first = group_first geo g;
           start = (if k = 0 then goal - first else 0)
       in
       act_bind (\<lambda>s. (gd32 s g G_BLOCK_BITMAP, s)) (\<lambda>bitmap.
       act_bind (fs_take_bit bitmap (group_blocks geo g) start) (\<lambda>found.
       case found of
         None \<Rightarrow> alloc_block_in goal g0 ks
       | Some i \<Rightarrow> alloc_finish g (first + i))))))"

definition alloc_block :: "('d, nat) fs_action" where
  "alloc_block =
     act_bind (act_gets (\<lambda>s. (f_last_alloc s, f_geo s))) (\<lambda>(goal, geo).
     alloc_block_in goal (min (group_of_block geo goal) (groups geo - 1)) [0..<groups geo])"

definition free_block :: "nat \<Rightarrow> ('d, unit) fs_action" where
  "free_block b =
     act_bind (act_gets f_geo) (\<lambda>geo.
     if b < first_data_block geo \<or> blocks_count geo \<le> b then act_fail Invalid
     else
       let g = group_of_block geo b in
       act_bind (\<lambda>s. (gd32 s g G_BLOCK_BITMAP, s)) (\<lambda>bitmap.
       act_bind (fs_clear_bit bitmap (b - group_first geo g)) (\<lambda>was.
       if was then
         act_bind (gd16_add g G_FREE_BLOCKS 1) (\<lambda>_. sb32_add S_FREE_BLOCKS 1)
       else act_return ())))"

primrec alloc_inode_in :: "nat \<Rightarrow> bool \<Rightarrow> nat list \<Rightarrow> ('d, nat) fs_action" where
  "alloc_inode_in g0 dir [] = act_fail NoSpace"
| "alloc_inode_in g0 dir (k # ks) =
     act_bind (act_gets f_geo) (\<lambda>geo.
     act_bind (act_lift (u32_add g0 k)) (\<lambda>gk.
     let g = gk mod groups geo; ipg = inodes_per_group geo in
     act_bind (\<lambda>s. (gd16 s g G_FREE_INODES, s)) (\<lambda>free.
     if free = 0 then alloc_inode_in g0 dir ks
     else
       let start = (if g = 0 then first_ino geo - 1 else 0) in
       act_bind (\<lambda>s. (gd32 s g G_INODE_BITMAP, s)) (\<lambda>bitmap.
       act_bind (fs_take_bit bitmap ipg start) (\<lambda>found.
       case found of
         None \<Rightarrow> alloc_inode_in g0 dir ks
       | Some i \<Rightarrow>
           if g = 0 \<and> i < start then
             act_bind (fs_clear_bit bitmap i) (\<lambda>_. alloc_inode_in g0 dir ks)
           else
             act_bind (gd16_add g G_FREE_INODES (- 1)) (\<lambda>_.
             act_bind (sb32_add S_FREE_INODES (- 1)) (\<lambda>_.
             act_bind (act_when dir (gd16_add g G_USED_DIRS 1)) (\<lambda>_.
             act_return (g * ipg + i + 1)))))))))"

definition alloc_inode :: "nat \<Rightarrow> bool \<Rightarrow> ('d, nat) fs_action" where
  "alloc_inode near dir =
     act_bind (act_gets f_geo) (\<lambda>geo.
     alloc_inode_in ((max near 1 - 1) div inodes_per_group geo) dir [0..<groups geo])"

definition free_inode :: "nat \<Rightarrow> bool \<Rightarrow> ('d, unit) fs_action" where
  "free_inode ino dir =
     act_bind (act_gets f_geo) (\<lambda>geo.
     act_bind (act_lift (usize_sub ino 1)) (\<lambda>n.
     let g = n div inodes_per_group geo; i = n mod inodes_per_group geo in
     act_bind (\<lambda>s. (gd32 s g G_INODE_BITMAP, s)) (\<lambda>bitmap.
     act_bind (fs_clear_bit bitmap i) (\<lambda>was.
     if was then
       act_bind (gd16_add g G_FREE_INODES 1) (\<lambda>_.
       act_bind (sb32_add S_FREE_INODES 1) (\<lambda>_.
       act_when dir (gd16_add g G_USED_DIRS (- 1))))
     else act_return ()))))"

section \<open>The bitmap scan\<close>

definition marked :: "bytes \<Rightarrow> nat \<Rightarrow> bool" where
  "marked bm i \<longleftrightarrow> bit (bm ! (i div 8)) (i mod 8)"

lemma mask_marked: "bm ! (i div 8) AND bit_mask i = 0 \<longleftrightarrow> \<not> marked bm i"
  by (simp add: bit_mask_def marked_def push_bit_eq_mult and_exp_eq_0_iff_not_bit)

lemma full_marked: "bm ! (i div 8) = 0xFF \<Longrightarrow> marked bm i"
proof -
  have "(0xFF :: u8) = - 1" by simp
  then show "bm ! (i div 8) = 0xFF \<Longrightarrow> marked bm i"
    by (simp only: marked_def bit_minus_1_iff) (simp add: possible_bit_def)
qed

lemma scan_bits_spec:
  assumes "hi \<le> 8 * length bm"
  shows "scan_bits bm i hi = Ok (List.find (\<lambda>j. \<not> marked bm j) [i..<hi])"
  using assms
proof (induction bm i hi rule: scan_bits.induct)
  case (1 bm i hi)
  show ?case
  proof (cases "i < hi")
    case True
    then have len: "\<not> length bm \<le> i div 8" using 1(3) by auto
    have up: "[i..<hi] = i # [i + 1..<hi]" using True by (simp add: upt_conv_Cons)
    show ?thesis
    proof (cases "i mod 8 = 0 \<and> i + 8 \<le> hi \<and> bm ! (i div 8) = 0xFF")
      case skip: True
      have "marked bm j" if "j \<in> set [i..<i + 8]" for j
      proof (rule full_marked)
        have "j div 8 = i div 8" using that skip by auto
        then show "bm ! (j div 8) = 0xFF" using skip by simp
      qed
      then have "List.find (\<lambda>j. \<not> marked bm j) [i..<i + 8] = None" by (auto simp: find_None_iff)
      moreover have "[i..<hi] = [i..<i + 8] @ [i + 8..<hi]" 
        using skip upt_add_eq_append [of i "i + 8" "hi - (i + 8)"] by simp
      ultimately have "List.find (\<lambda>j. \<not> marked bm j) [i..<hi] = List.find (\<lambda>j. \<not> marked bm j) [i + 8..<hi]"
        by (simp only: find_append) simp
      with 1(1) [OF _ len skip] True len skip 1(3) show ?thesis by (subst scan_bits.simps) simp
    next
      case False
      with 1(2) [OF _ len False] True len 1(3) show ?thesis
        unfolding up by (subst scan_bits.simps) (auto simp: mask_marked)
    qed
  qed (subst scan_bits.simps, simp)
qed

lemma marked_upd:
  assumes "i div 8 < length bm"
  shows "marked (bm[i div 8 := bm ! (i div 8) OR bit_mask i]) j \<longleftrightarrow> j = i \<or> marked bm j"
    and "marked (bm[i div 8 := bm ! (i div 8) AND NOT (bit_mask i)]) j \<longleftrightarrow> j \<noteq> i \<and> marked bm j"
proof -
  have eq: "j = i \<longleftrightarrow> j div 8 = i div 8 \<and> j mod 8 = i mod 8" by (metis mult_div_mod_eq)
  have m: "bit (bit_mask i) k \<longleftrightarrow> k = i mod 8" for k
    unfolding bit_mask_def bit_push_bit_iff bit_1_iff by (auto simp: possible_bit_def)
  show "marked (bm[i div 8 := bm ! (i div 8) OR bit_mask i]) j \<longleftrightarrow> j = i \<or> marked bm j"
    unfolding marked_def eq using assms by (auto simp: nth_list_update bit_or_iff m)
  show "marked (bm[i div 8 := bm ! (i div 8) AND NOT (bit_mask i)]) j \<longleftrightarrow> j \<noteq> i \<and> marked bm j"
    unfolding marked_def eq using assms by (auto simp: nth_list_update bit_and_iff bit_not_iff m possible_bit_def)
qed

lemma take_bit_in_spec:
  assumes "bits \<le> 8 * length bm"
    and hit_def: "hit = List.find (\<lambda>i. \<not> marked bm i) ([min start bits..<bits] @ [0..<min start bits])"
  shows "take_bit_in bm bits start =
    Ok (hit, case hit of None \<Rightarrow> bm | Some i \<Rightarrow> bm[i div 8 := bm ! (i div 8) OR bit_mask i])"
proof -
  have b: "min start bits \<le> 8 * length bm" using assms(1) by simp
  have "i < bits" if "hit = Some i" for i
    using find_Some_in_set [OF that [unfolded hit_def]] by auto
  then have "i div 8 < length bm" if "hit = Some i" for i using that assms(1) by fastforce
  then show ?thesis
    unfolding take_bit_in_def scan_bits_spec [OF assms(1)] scan_bits_spec [OF b]
    by (auto simp: hit_def find_append split: option.splits)
qed

section \<open>Bitmaps in the cache\<close>

text \<open>
  What an allocator relies on: bitmaps of \<open>cap\<close> bits in numbered blocks, a scan that takes the
  first clear bit from a start on, around the end, and the clearing of a bit. A failure of the
  device leaves every bit as it was.
\<close>

locale bit_pool =
  fixes inv :: "'s \<Rightarrow> bool"
    and cap :: "'s \<Rightarrow> nat"
    and bitmap :: "nat \<Rightarrow> bool"
    and used :: "'s \<Rightarrow> nat \<Rightarrow> nat \<Rightarrow> bool"
    and acquire :: "nat \<Rightarrow> nat \<Rightarrow> nat \<Rightarrow> ('s, nat option, ext2_error) action"
    and release :: "nat \<Rightarrow> nat \<Rightarrow> ('s, bool, ext2_error) action"
  assumes acquire_law: "inv s \<Longrightarrow> bitmap b \<Longrightarrow> n \<le> cap s \<Longrightarrow> acquire b n start s = (r, s') \<Longrightarrow>
      inv s' \<and> cap s' = cap s \<and>
      (r = Err Io \<and> used s' = used s \<or>
       (\<exists>hit. r = Ok hit \<and> hit = List.find (\<lambda>i. \<not> used s b i) ([min start n..<n] @ [0..<min start n]) \<and>
         (\<forall>c i. used s' c i \<longleftrightarrow> used s c i \<or> c = b \<and> hit = Some i)))"
    and release_law: "inv s \<Longrightarrow> bitmap b \<Longrightarrow> i < cap s \<Longrightarrow> release b i s = (q, s') \<Longrightarrow>
      inv s' \<and> cap s' = cap s \<and>
      (q = Err Io \<and> used s' = used s \<or>
       q = Ok (used s b i) \<and> (\<forall>c j. used s' c j \<longleftrightarrow> used s c j \<and> \<not> (c = b \<and> j = i)))"
begin

lemma acquired:
  assumes "inv s" and "bitmap b" and "n \<le> cap s" and "acquire b n start s = (Ok (Some i), s')"
  shows "i < n" and "\<not> used s b i" and "used s' c j \<longleftrightarrow> used s c j \<or> c = b \<and> j = i"
proof -
  from acquire_law [OF assms] have
    f: "List.find (\<lambda>i. \<not> used s b i) ([min start n..<n] @ [0..<min start n]) = Some i"
    and u: "\<forall>c j. used s' c j \<longleftrightarrow> used s c j \<or> c = b \<and> Some i = Some j" by auto
  from find_Some_in_set [OF f] show "i < n" "\<not> used s b i" by auto
  from u show "used s' c j \<longleftrightarrow> used s c j \<or> c = b \<and> j = i" by auto
qed

lemma not_acquired:
  assumes "inv s" and "bitmap b" and "n \<le> cap s" and "acquire b n start s = (Ok None, s')"
  shows "i < n \<Longrightarrow> used s b i" and "used s' = used s"
proof -
  from acquire_law [OF assms] have
    f: "List.find (\<lambda>i. \<not> used s b i) ([min start n..<n] @ [0..<min start n]) = None"
    and u: "\<forall>c j. used s' c j \<longleftrightarrow> used s c j" by auto
  show "i < n \<Longrightarrow> used s b i" using f [unfolded find_None_iff] by (cases "i < min start n") auto
  show "used s' = used s" using u by (intro ext) blast
qed

lemma acquire_result:
  assumes "inv s" and "bitmap b" and "n \<le> cap s" and "acquire b n start s = (r, s')"
  shows "inv s'" and "cap s' = cap s" and "r \<noteq> Panic" and "r = Err e \<Longrightarrow> e = Io \<and> used s' = used s"
  using acquire_law [OF assms] by auto

text \<open>A bit that stays in use is not handed out again.\<close>

lemma never_twice:
  assumes "inv s" and "bitmap b" and "n \<le> cap s" and "acquire b n start s = (Ok (Some i), s1)"
    and "inv s2" and "cap s2 = cap s" and "used s1 b i \<longrightarrow> used s2 b i"
    and "acquire b n start' s2 = (Ok (Some j), s3)"
  shows "i \<noteq> j"
proof -
  have "used s2 b i" using acquired(3) [OF assms(1-4), of b i] assms(7) by simp
  moreover have "\<not> used s2 b j" using acquired(2) [OF assms(5,2) _ assms(8)] assms(3,6) by simp
  ultimately show ?thesis by auto
qed

lemma release_undoes:
  assumes "inv s" and "bitmap b" and "n \<le> cap s" and "acquire b n start s = (Ok (Some i), s1)"
    and "release b i s1 = (Ok was, s2)"
  shows "was" and "used s2 = used s"
proof -
  note a = acquired [OF assms(1-4)] and r = acquire_result [OF assms(1-4)]
  have "i < cap s1" using a(1) r(2) assms(3) by simp
  from release_law [OF r(1) assms(2) this assms(5)]
  have w: "was = used s1 b i" and u: "\<forall>c j. used s2 c j \<longleftrightarrow> used s1 c j \<and> \<not> (c = b \<and> j = i)" by auto
  show was using w a(3) [of b i] by simp
  show "used s2 = used s" using u a(2,3) by (intro ext) blast
qed

end

text \<open>Bit \<open>i\<close> of the bitmap in \<open>block\<close>; a block the device does not have is full.\<close>

definition bit_used :: "('d \<Rightarrow> bytes) \<Rightarrow> 'd fs \<Rightarrow> nat \<Rightarrow> nat \<Rightarrow> bool" where
  "bit_used content s block i \<longleftrightarrow>
     (case cache_view content (f_cache s) block of None \<Rightarrow> True | Some bm \<Rightarrow> marked bm i)"

lemma bit_used_upd:
  assumes "cache_view content (f_cache s) block = Some bm"
    and "cache_view content (f_cache s') = (cache_view content (f_cache s))(block := Some bm')"
  shows "bit_used content s' c i \<longleftrightarrow> (if c = block then marked bm' i else bit_used content s c i)"
  using assms by (simp add: bit_used_def)

lemma in_cacheE:
  assumes "in_cache m s = (r, s')"
  obtains c where "m (f_cache s) = (r, c)" and "s' = s\<lparr>f_cache := c\<rparr>"
  using assms by (auto simp: in_cache_def act_on_def split: prod.splits)

lemma in_cache_modifyE:
  assumes "cache_wf content (f_cache s)" and "b \<noteq> u32_MAX" and "in_cache (cache_modify b f) s = (r, s')"
    and len: "\<forall>d a d'. f d = Ok (a, d') \<longrightarrow> length d' = length d"
  obtains (io) c where "r = Err Io" and "s' = s\<lparr>f_cache := c\<rparr>" and "cache_wf content c"
      and "c_block_size c = c_block_size (f_cache s)" and "cache_view content c = cache_view content (f_cache s)"
    | (run) c d where "s' = s\<lparr>f_cache := c\<rparr>" and "cache_view content (f_cache s) b = Some d"
      and "length d = c_block_size (f_cache s)" and "c_block_size c = c_block_size (f_cache s)"
      and "case f d of
         Ok (a, d') \<Rightarrow> r = Ok a \<and> cache_wf content c \<and> cache_view content c = (cache_view content (f_cache s))(b := Some d')
       | Err e \<Rightarrow> r = Err e \<and> cache_wf content c \<and> cache_view content c = cache_view content (f_cache s)
       | Panic \<Rightarrow> r = Panic"
proof -
  from assms(3) obtain c where c: "cache_modify b f (f_cache s) = (r, c)" and s': "s' = s\<lparr>f_cache := c\<rparr>"
    by (rule in_cacheE)
  have bs: "c_block_size c = c_block_size (f_cache s)" by (rule act_keepsD [OF cache_ops_keep(2) c])
  have "r = Err Io \<and> cache_wf content c \<and> cache_view content c = cache_view content (f_cache s) \<or>
    (\<exists>d. cache_view content (f_cache s) b = Some d \<and>
      (case f d of
         Ok (a, d') \<Rightarrow> r = Ok a \<and> cache_wf content c \<and> cache_view content c = (cache_view content (f_cache s))(b := Some d')
       | Err e \<Rightarrow> r = Err e \<and> cache_wf content c \<and> cache_view content c = cache_view content (f_cache s)
       | Panic \<Rightarrow> r = Panic))"
    by (rule cache_modify_spec [OF assms(1,2) c]) (use len in blast)
  then show ?thesis
  proof (elim disjE conjE exE)
    assume "r = Err Io" and "cache_wf content c" and "cache_view content c = cache_view content (f_cache s)"
    then show ?thesis using s' bs by (intro io)
  next
    fix d assume "cache_view content (f_cache s) b = Some d"
    note run [OF s' this cache_view_length [OF assms(1) this] bs]
    then show "(case f d of
         Ok (a, d') \<Rightarrow> r = Ok a \<and> cache_wf content c \<and> cache_view content c = (cache_view content (f_cache s))(b := Some d')
       | Err e \<Rightarrow> r = Err e \<and> cache_wf content c \<and> cache_view content c = cache_view content (f_cache s)
       | Panic \<Rightarrow> r = Panic) \<Longrightarrow> thesis" .
  qed
qed

lemma take_bit_in_length: "take_bit_in bm n start = Ok (a, bm') \<Longrightarrow> length bm' = length bm"
  by (auto simp: take_bit_in_def split: option.splits if_splits elim!: bind_resultE)

lemma clear_bit_in_length: "clear_bit_in bm i = Ok (a, bm') \<Longrightarrow> length bm' = length bm"
  by (auto simp: clear_bit_in_def split: if_splits)

lemma fs_take_bit_spec:
  assumes "cache_wf content (f_cache s)" and "b \<noteq> u32_MAX" and "n \<le> 8 * c_block_size (f_cache s)"
    and "fs_take_bit b n start s = (r, s')"
  shows "cache_wf content (f_cache s') \<and> 8 * c_block_size (f_cache s') = 8 * c_block_size (f_cache s) \<and>
      (r = Err Io \<and> bit_used content s' = bit_used content s \<or>
       (\<exists>hit. r = Ok hit \<and>
         hit = List.find (\<lambda>i. \<not> bit_used content s b i) ([min start n..<n] @ [0..<min start n]) \<and>
         (\<forall>c i. bit_used content s' c i \<longleftrightarrow> bit_used content s c i \<or> c = b \<and> hit = Some i)))"
proof -
  have len: "\<forall>d a d'. take_bit_in d n start = Ok (a, d') \<longrightarrow> length d' = length d"
    using take_bit_in_length by blast
  from assms(1,2) assms(4) [unfolded fs_take_bit_def] len show ?thesis
  proof (cases rule: in_cache_modifyE)
    case io
    then show ?thesis by (simp add: bit_used_def fun_eq_iff)
  next
    case (run c d)
    let ?hit = "List.find (\<lambda>i. \<not> marked d i) ([min start n..<n] @ [0..<min start n])"
    let ?d = "case ?hit of None \<Rightarrow> d | Some i \<Rightarrow> d[i div 8 := d ! (i div 8) OR bit_mask i]"
    have n: "n \<le> 8 * length d" using assms(3) run(3) by simp
    from run(5) have r: "r = Ok ?hit" "cache_wf content c"
      and v: "cache_view content c = (cache_view content (f_cache s))(b := Some ?d)"
      by (simp_all add: take_bit_in_spec [OF n refl])
    have u: "bit_used content s b = marked d" using run(2) by (simp add: bit_used_def fun_eq_iff)
    have "marked ?d i \<longleftrightarrow> marked d i \<or> ?hit = Some i" for i
    proof (cases ?hit)
      case (Some j)
      then have "j < n" using find_Some_in_set [OF Some] by auto
      then have "j div 8 < length d" using n by auto
      then show ?thesis unfolding Some by (auto simp: marked_upd)
    qed simp
    then have "bit_used content s' c' i \<longleftrightarrow> bit_used content s c' i \<or> c' = b \<and> ?hit = Some i" for c' i
      using bit_used_upd [OF run(2), of s' ?d c' i] v u by (auto simp: run(1))
    then show ?thesis using r u by (simp add: run(1,4))
  qed
qed

lemma fs_clear_bit_spec:
  assumes "cache_wf content (f_cache s)" and "b \<noteq> u32_MAX" and "i < 8 * c_block_size (f_cache s)"
    and "fs_clear_bit b i s = (r, s')"
  shows "cache_wf content (f_cache s') \<and> 8 * c_block_size (f_cache s') = 8 * c_block_size (f_cache s) \<and>
      (r = Err Io \<and> bit_used content s' = bit_used content s \<or>
       r = Ok (bit_used content s b i) \<and>
       (\<forall>c j. bit_used content s' c j \<longleftrightarrow> bit_used content s c j \<and> \<not> (c = b \<and> j = i)))"
proof -
  have len: "\<forall>d a d'. clear_bit_in d i = Ok (a, d') \<longrightarrow> length d' = length d"
    using clear_bit_in_length by blast
  from assms(1,2) assms(4) [unfolded fs_clear_bit_def] len show ?thesis
  proof (cases rule: in_cache_modifyE)
    case io
    then show ?thesis by (simp add: bit_used_def fun_eq_iff)
  next
    case (run c d)
    let ?d = "d[i div 8 := d ! (i div 8) AND NOT (bit_mask i)]"
    have "i < 8 * length d" using assms(3) run(3) by simp
    then have i: "i div 8 < length d" by auto
    from run(5) have r: "r = Ok (marked d i)" "cache_wf content c"
      and v: "cache_view content c = (cache_view content (f_cache s))(b := Some ?d)"
      by (simp_all add: clear_bit_in_def i mask_marked)
    have u: "bit_used content s b = marked d" using run(2) by (simp add: bit_used_def fun_eq_iff)
    have "bit_used content s' c' j \<longleftrightarrow> bit_used content s c' j \<and> \<not> (c' = b \<and> j = i)" for c' j
      using bit_used_upd [OF run(2), of s' ?d c' j] v u by (auto simp: run(1) marked_upd [OF i])
    then show ?thesis using r u by (simp add: run(1,4))
  qed
qed

interpretation pool: bit_pool "\<lambda>s. cache_wf content (f_cache s)" "\<lambda>s. 8 * c_block_size (f_cache s)"
  "\<lambda>b. b \<noteq> u32_MAX" "bit_used content" fs_take_bit fs_clear_bit for content :: "'d \<Rightarrow> bytes"
  by unfold_locales ((rule fs_take_bit_spec; assumption), (rule fs_clear_bit_spec; assumption))

section \<open>Mounted file systems\<close>

definition group_bitmap :: "'d fs \<Rightarrow> nat \<Rightarrow> nat" where
  "group_bitmap s g = unat (from_le32 (slice (g * GD_SIZE + G_BLOCK_BITMAP) (g * GD_SIZE + G_BLOCK_BITMAP + 4) (f_gdt s)))"

definition group_free :: "'d fs \<Rightarrow> nat \<Rightarrow> nat" where
  "group_free s g = unat (from_le16 (slice (g * GD_SIZE + G_FREE_BLOCKS) (g * GD_SIZE + G_FREE_BLOCKS + 2) (f_gdt s)))"

text \<open>
  The invariant of a mounted file system, for a device whose bytes are \<open>content\<close>. The
  bound on the groups is that the table of their descriptors, 32 bytes each, is held in
  memory.
\<close>

definition fs_ok :: "('d \<Rightarrow> bytes) \<Rightarrow> 'd fs \<Rightarrow> bool" where
  "fs_ok content s \<longleftrightarrow>
     cache_wf content (f_cache s) \<and> wf_geometry (f_geo s) \<and> 2 * groups (f_geo s) \<le> u32_MAX \<and>
     c_block_size (f_cache s) = block_size (f_geo s) \<and>
     length (f_gdt s) = gdt_blocks (f_geo s) * block_size (f_geo s) \<and>
     length (f_gdt_dirty s) = gdt_blocks (f_geo s) \<and> length (f_sb s) = SB_SIZE \<and>
     (\<forall>g < groups (f_geo s). group_bitmap s g < blocks_count (f_geo s))"

lemma fs_okD:
  assumes "fs_ok content s"
  shows "cache_wf content (f_cache s)" "wf_geometry (f_geo s)" "2 * groups (f_geo s) \<le> u32_MAX"
    "c_block_size (f_cache s) = block_size (f_geo s)"
    "length (f_gdt s) = gdt_blocks (f_geo s) * block_size (f_geo s)"
    "length (f_gdt_dirty s) = gdt_blocks (f_geo s)" "length (f_sb s) = SB_SIZE"
    "g < groups (f_geo s) \<Longrightarrow> group_bitmap s g < blocks_count (f_geo s)"
  using assms unfolding fs_ok_def by blast+

lemma fs_ok_bitmap:
  assumes "fs_ok content s" and "g < groups (f_geo s)"
  shows "group_bitmap s g \<noteq> u32_MAX" and "group_blocks (f_geo s) g \<le> 8 * c_block_size (f_cache s)"
proof -
  have "blocks_count (f_geo s) \<le> u32_MAX" "blocks_per_group (f_geo s) \<le> block_size (f_geo s) * 8"
    using fs_okD(2) [OF assms(1)] by (auto simp: wf_geometry_def geometry_ok_def)
  then show "group_bitmap s g \<noteq> u32_MAX" "group_blocks (f_geo s) g \<le> 8 * c_block_size (f_cache s)"
    using fs_okD(8) [OF assms] fs_okD(4) [OF assms(1)] by (auto simp: group_blocks_def)
qed

lemma gdt_room:
  assumes "fs_ok content s" and "g < groups (f_geo s)"
  shows "(g + 1) * GD_SIZE \<le> length (f_gdt s)"
proof -
  have "0 < block_size (f_geo s)" using fs_okD(2) [OF assms(1)] by (auto simp: wf_geometry_def)
  from div_ceil_mult_ge [OF this, of "groups (f_geo s) * GD_SIZE"]
  have "groups (f_geo s) * GD_SIZE \<le> length (f_gdt s)" by (simp add: fs_okD(5) [OF assms(1)] gdt_blocks_def)
  moreover have "(g + 1) * GD_SIZE \<le> groups (f_geo s) * GD_SIZE" using assms(2) by (intro mult_le_mono1) simp
  ultimately show ?thesis by linarith
qed

lemma gd_read:
  assumes "fs_ok content s" and "g < groups (f_geo s)"
  shows "gd32 s g G_BLOCK_BITMAP = Ok (group_bitmap s g)" "gd16 s g G_FREE_BLOCKS = Ok (group_free s g)"
  using gdt_room [OF assms]
  by (simp_all add: gd32_def gd16_def get_ok group_bitmap_def group_free_def gd_fields)

text \<open>What the counters of an allocation leave as it is.\<close>

definition counts_only :: "'d fs \<Rightarrow> 'd fs \<Rightarrow> bool" where
  "counts_only s s' \<longleftrightarrow>
     f_cache s' = f_cache s \<and> f_geo s' = f_geo s \<and>
     (\<forall>g < groups (f_geo s). group_bitmap s' g = group_bitmap s g)"

lemma counts_only_ok: "counts_only s s' \<Longrightarrow> length (f_gdt s') = length (f_gdt s) \<Longrightarrow>
    length (f_gdt_dirty s') = length (f_gdt_dirty s) \<Longrightarrow> length (f_sb s') = length (f_sb s) \<Longrightarrow>
    fs_ok content s \<Longrightarrow> fs_ok content s'"
  by (simp add: fs_ok_def counts_only_def)

lemma counts_only_used: "counts_only s s' \<Longrightarrow> bit_used content s' = bit_used content s"
  by (simp add: counts_only_def bit_used_def fun_eq_iff)

lemma counts_only_trans: "counts_only s t \<Longrightarrow> counts_only t u \<Longrightarrow> counts_only s u"
  by (simp add: counts_only_def)

lemma gd16_add_spec:
  assumes "fs_ok content s" and g: "g < groups (f_geo s)" and "field \<in> {G_FREE_BLOCKS, G_FREE_INODES, G_USED_DIRS}"
  shows "\<exists>s'. gd16_add g field delta s = (Ok (), s') \<and> fs_ok content s' \<and> counts_only s s'"
proof -
  let ?off = "g * GD_SIZE + field" and ?bs = "block_size (f_geo s)"
  have f: "12 \<le> field" "field + 2 \<le> GD_SIZE" using assms(3) by (auto simp: gd_fields)
  have room: "?off + 2 \<le> length (f_gdt s)" using gdt_room [OF assms(1,2)] f by simp
  define v where "v = from_le16 (slice ?off (?off + 2) (f_gdt s))"
  define gdt where "gdt = splice ?off (to_le16 (word_of_int (uint v + delta))) (f_gdt s)"
  have get: "get16 (f_gdt s) ?off = (Ok v :: (u16, ext2_error) result)" using room by (simp add: get_ok v_def)
  have put: "put16 (f_gdt s) ?off (word_of_int (uint v + delta)) = (Ok gdt :: (bytes, ext2_error) result)"
    using room by (simp add: put_ok gdt_def)
  have k: "?off div ?bs < length (f_gdt_dirty s)"
    using room fs_okD(5,6) [OF assms(1)] by (simp add: less_mult_imp_div_less)
  let ?s = "s\<lparr>f_gdt := gdt, f_gdt_dirty := (f_gdt_dirty s)[?off div ?bs := True]\<rparr>"
  have run: "gd16_add g field delta s = (Ok (), ?s)"
    using k get put by (simp add: gd16_add_def Let_def act_simps)
  have len: "length gdt = length (f_gdt s)" by (rule put_length(1) [OF put])
  have "group_bitmap ?s h = group_bitmap s h" if "h < groups (f_geo s)" for h
  proof -
    have apart: "h * GD_SIZE + G_BLOCK_BITMAP + 4 \<le> ?off \<or> ?off + 2 \<le> h * GD_SIZE + G_BLOCK_BITMAP"
    proof (cases "h \<le> g")
      case True
      then have "h * GD_SIZE \<le> g * GD_SIZE" by (rule mult_le_mono1)
      then have "h * GD_SIZE + G_BLOCK_BITMAP + 4 \<le> ?off" using f unfolding G_BLOCK_BITMAP_def by linarith
      then show ?thesis ..
    next
      case False
      then have "(g + 1) * GD_SIZE \<le> h * GD_SIZE" by (intro mult_le_mono1) simp
      then have "?off + 2 \<le> h * GD_SIZE + G_BLOCK_BITMAP" using f by simp
      then show ?thesis ..
    qed
    have r: "h * GD_SIZE + G_BLOCK_BITMAP + 4 \<le> length (f_gdt s)"
      using gdt_room [OF assms(1) that] by (simp add: gd_fields)
    have "get32 gdt (h * GD_SIZE + G_BLOCK_BITMAP) = (get32 (f_gdt s) (h * GD_SIZE + G_BLOCK_BITMAP) :: (u32, ext2_error) result)"
      by (rule get_put_other(2) [OF put apart])
    then show ?thesis using r len by (simp add: get_ok group_bitmap_def)
  qed
  then have "counts_only s ?s" by (simp add: counts_only_def)
  moreover from this have "fs_ok content ?s" by (rule counts_only_ok [OF _ _ _ _ assms(1)]) (simp_all add: len)
  ultimately show ?thesis using run by blast
qed

lemma sb32_add_spec:
  assumes "fs_ok content s" and "field + 4 \<le> SB_SIZE"
  shows "\<exists>s'. sb32_add field delta s = (Ok (), s') \<and> fs_ok content s' \<and> counts_only s s'"
proof -
  have room: "field + 4 \<le> length (f_sb s)" using assms(2) fs_okD(7) [OF assms(1)] by simp
  let ?v = "from_le32 (slice field (field + 4) (f_sb s))"
  let ?sb = "splice field (to_le32 (word_of_int (uint ?v + delta))) (f_sb s)"
  let ?s = "s\<lparr>f_sb := ?sb, f_sb_dirty := True\<rparr>"
  have run: "sb32_add field delta s = (Ok (), ?s)" using room by (simp add: sb32_add_def act_simps get_ok put_ok)
  have len: "length ?sb = length (f_sb s)" using room by simp
  have "counts_only s ?s" by (simp add: counts_only_def group_bitmap_def)
  moreover from this have "fs_ok content ?s" by (rule counts_only_ok [OF _ _ _ _ assms(1)]) (use len in simp_all)
  ultimately show ?thesis using run by blast
qed

definition in_use :: "('d \<Rightarrow> bytes) \<Rightarrow> 'd fs \<Rightarrow> nat \<Rightarrow> bool" where
  "in_use content s b \<longleftrightarrow>
     (let g = group_of_block (f_geo s) b in bit_used content s (group_bitmap s g) (b - group_first (f_geo s) g))"

text \<open>Blocks and the state around them keep their place while \<open>bm\<close> may change.\<close>

definition fs_keeps :: "'d fs \<Rightarrow> 'd fs \<Rightarrow> bool" where
  "fs_keeps s s' \<longleftrightarrow> f_geo s' = f_geo s \<and> (\<forall>g < groups (f_geo s). group_bitmap s' g = group_bitmap s g)"

lemma fs_take_bit_ok:
  assumes ok: "fs_ok content s" and g: "g < groups (f_geo s)"
    and run: "fs_take_bit (group_bitmap s g) (group_blocks (f_geo s) g) start s = (r, s')"
  shows "fs_ok content s'" "fs_keeps s s'" "f_gdt s' = f_gdt s"
    "c \<noteq> group_bitmap s g \<Longrightarrow> cache_view content (f_cache s') c = cache_view content (f_cache s) c"
proof -
  have wf: "cache_wf content (f_cache s')" "8 * c_block_size (f_cache s') = 8 * c_block_size (f_cache s)"
    using pool.acquire_result(1,2) [OF fs_okD(1) [OF ok] fs_ok_bitmap [OF ok g] run] by simp_all
  from run [unfolded fs_take_bit_def] obtain cc where c:
    "cache_modify (group_bitmap s g) (\<lambda>bm. take_bit_in bm (group_blocks (f_geo s) g) start) (f_cache s) = (r, cc)"
    "s' = s\<lparr>f_cache := cc\<rparr>" by (rule in_cacheE)
  then show "fs_ok content s'" "fs_keeps s s'" "f_gdt s' = f_gdt s"
    using ok wf by (simp_all add: fs_ok_def fs_keeps_def group_bitmap_def)
  have len: "\<forall>d a d'. take_bit_in d (group_blocks (f_geo s) g) start = Ok (a, d') \<longrightarrow> length d' = length d"
    using take_bit_in_length by blast
  from fs_okD(1) [OF ok] fs_ok_bitmap(1) [OF ok g] run [unfolded fs_take_bit_def] len
  show "c \<noteq> group_bitmap s g \<Longrightarrow> cache_view content (f_cache s') c = cache_view content (f_cache s) c"
  proof (cases rule: in_cache_modifyE)
    case (run cc d)
    have "r \<noteq> Panic" using pool.acquire_result(3) [OF fs_okD(1) [OF ok] fs_ok_bitmap [OF ok g] assms(3)] .
    with run show "c \<noteq> group_bitmap s g \<Longrightarrow> cache_view content (f_cache s') c = cache_view content (f_cache s) c"
      by (auto split: result.splits prod.splits)
  qed simp
qed

section \<open>Mounting\<close>

lemma group_on_diskD:
  assumes "group_on_disk s g = Ok ()"
  shows "first_data_block (f_geo s) \<le> group_bitmap s g" "group_bitmap s g < blocks_count (f_geo s)"
  using assms
  by (auto simp: group_on_disk_def gd32_def get32_def get_range_def group_bitmap_def not_le split: if_splits elim!: bind_resultE)

lemma mount_inv:
  assumes "disk_like dev content" and "mount dev = Ok s" and "2 * groups (f_geo s) \<le> u32_MAX"
  shows "fs_ok content s" and "g < groups (f_geo s) \<Longrightarrow> first_data_block (f_geo s) \<le> group_bitmap s g"
    and "geometry_parse (slice SB_OFFSET (SB_OFFSET + SB_SIZE) (content (d_state dev))) = Ok (f_geo s)"
    and "cache_view content (f_cache s) = block_in (block_size (f_geo s)) (content (d_state dev))"
proof -
  obtain ok sb dev1 where 1: "dev_read SB_OFFSET (replicate SB_SIZE 0) dev = (ok, sb, dev1)" by (metis prod_cases3)
  with assms(2) have okT: ok by (cases ok) (simp_all add: mount_def)
  obtain geo where geo: "geometry_parse sb = Ok geo"
    using assms(2) 1 okT by (auto simp: mount_def elim: bind_resultE)
  let ?n = "gdt_blocks geo" and ?bs = "block_size geo"
  obtain ok2 gdt dev2 where 2: "dev_read ((first_data_block geo + 1) * ?bs) (replicate (?n * ?bs) 0) dev1 = (ok2, gdt, dev2)"
    by (metis prod_cases3)
  with assms(2) 1 okT geo have ok2: ok2 by (cases ok2) (simp_all add: mount_def)
  have s: "s = \<lparr>f_cache = cache_new dev2 ?bs, f_geo = geo, f_sb = sb, f_sb_dirty = False,
               f_gdt = gdt, f_gdt_dirty = replicate ?n False, f_last_alloc = 0, f_resolved = []\<rparr>"
    and all: "foldl_result (\<lambda>_ g. group_on_disk s g) () [0..<groups geo] = Ok ()"
    using assms(2) 1 2 okT ok2 geo by (auto simp: mount_def Let_def elim!: bind_resultE)
  note d1 = dev_read_law [OF assms(1) 1]
  note d2 = dev_read_law [OF d1(1) 2] and wf = geometry_parse_wf [OF geo]
  have bs: "0 < ?bs" using wf by (auto simp: wf_geometry_def)
  note c = cache_new_wf [OF d2(1) bs]
  have bitmap: "first_data_block geo \<le> group_bitmap s g \<and> group_bitmap s g < blocks_count geo" if "g < groups geo" for g
  proof -
    have "group_on_disk s g = Ok ()" using foldl_result_all [OF all, of g] that by simp
    from group_on_diskD [OF this] show ?thesis by (simp add: s)
  qed
  have "length sb = SB_SIZE" "length gdt = ?n * ?bs" using d1(3) d2(3) by simp_all
  then have "fs_ok content s" unfolding fs_ok_def
    using c(1) wf assms(3) bitmap by (simp add: s cache_new_def group_bitmap_def)
  moreover have "geometry_parse (slice SB_OFFSET (SB_OFFSET + SB_SIZE) (content (d_state dev))) = Ok (f_geo s)"
    using d1(4) [OF okT] geo by (simp add: s)
  moreover have "cache_view content (f_cache s) = block_in (block_size (f_geo s)) (content (d_state dev))"
    using c(2) d1(2) d2(2) by (simp add: s)
  ultimately show "fs_ok content s" and "g < groups (f_geo s) \<Longrightarrow> first_data_block (f_geo s) \<le> group_bitmap s g"
    and "geometry_parse (slice SB_OFFSET (SB_OFFSET + SB_SIZE) (content (d_state dev))) = Ok (f_geo s)"
    and "cache_view content (f_cache s) = block_in (block_size (f_geo s)) (content (d_state dev))"
    using bitmap by (simp_all add: s)
qed

text \<open>
  C34. A successful \<^verbatim>\<open>mount\<close> of a device with few enough groups gives a file system that satisfies the
  invariant: its geometry is the one the superblock on the disk describes, well formed, the
  descriptor table is complete, every group's bitmap is a block of the file system, and
  each block reads as the disk has it.
\<close>
theorem mount_establishes:
  assumes "disk_like dev content" and "mount dev = Ok s" and "2 * groups (f_geo s) \<le> u32_MAX"
  shows "fs_ok content s \<and>
    geometry_parse (slice SB_OFFSET (SB_OFFSET + SB_SIZE) (content (d_state dev))) = Ok (f_geo s) \<and>
    cache_view content (f_cache s) = block_in (block_size (f_geo s)) (content (d_state dev)) \<and>
    (\<forall>g < groups (f_geo s). first_data_block (f_geo s) \<le> group_bitmap s g)"
  using mount_inv [OF assms] by blast

definition tiny_disk :: bytes where
  "tiny_disk = replicate 1024 0 @ (tiny_sb @ replicate 944 0) @ [3, 0, 0, 0, 4, 0, 0, 0, 5, 0, 0, 0] @ replicate 1012 0"

lemma tiny_mount:
  obtains s where "mount (ram_disk tiny_disk) = Ok s" and "f_geo s = tiny_geo"
proof -
  let ?sb = "tiny_sb @ replicate 944 0" and ?gdt = "[3, 0, 0, 0, 4, 0, 0, 0, 5, 0, 0, 0] @ replicate 1012 0"
  have l: "length tiny_sb = 80" by (simp add: tiny_sb_def)
  have g: "geometry_parse ?sb = Ok tiny_geo" by (rule tiny_parse_padded)
  have gd: "gdt_blocks tiny_geo = 1" by (simp add: gdt_blocks_def tiny_geo_def div_ceil_def GD_SIZE_def)
  let ?s = "\<lparr>f_cache = cache_new (ram_disk tiny_disk) 1024, f_geo = tiny_geo, f_sb = ?sb, f_sb_dirty = False,
               f_gdt = ?gdt, f_gdt_dirty = replicate 1 False, f_last_alloc = 0, f_resolved = []\<rparr>"
  have r1: "dev_read SB_OFFSET (replicate SB_SIZE 0) (ram_disk tiny_disk) = (True, ?sb, ram_disk tiny_disk)"
    by (simp add: dev_read_def ram_disk_def SB_OFFSET_def SB_SIZE_def tiny_disk_def l slice_def)
  have r2: "dev_read ((first_data_block tiny_geo + 1) * block_size tiny_geo) (replicate (1 * block_size tiny_geo) 0) (ram_disk tiny_disk) =
     (True, ?gdt, ram_disk tiny_disk)"
    by (simp add: dev_read_def ram_disk_def tiny_geo_def tiny_disk_def l slice_def)
  have "group_on_disk ?s 0 = Ok ()"
    by (simp add: group_on_disk_def gd32_def get32_def get_range_def gd_fields slice_def from_le32_def tiny_geo_def)
  then have "mount (ram_disk tiny_disk) = Ok ?s"
    unfolding mount_def r1 using r2 by (simp add: g gd Let_def) (simp add: tiny_geo_def)
  then show ?thesis by (rule that) simp
qed

theorem mount_establishes_witness:
  "\<exists>s. mount (ram_disk tiny_disk) = Ok s \<and> fs_ok (\<lambda>d. d) s"
proof -
  obtain s where s: "mount (ram_disk tiny_disk) = Ok s" "f_geo s = tiny_geo" by (rule tiny_mount)
  then have "2 * groups (f_geo s) \<le> u32_MAX" by (simp add: tiny_geo_def u32_MAX_def)
  from mount_establishes [OF ram_disk_like s(1) this] s(1) show ?thesis by blast
qed

section \<open>Allocating a block\<close>

lemma take_bit_in_None: "take_bit_in bm n start = Ok (None, bm') \<Longrightarrow> bm' = bm"
  by (auto simp: take_bit_in_def split: option.splits if_splits elim!: bind_resultE)

lemma fs_take_bit_view:
  assumes ok: "fs_ok content s" and g: "g < groups (f_geo s)"
    and run: "fs_take_bit (group_bitmap s g) (group_blocks (f_geo s) g) start s = (r, s')"
    and "\<And>i. r \<noteq> Ok (Some i)"
  shows "cache_view content (f_cache s') = cache_view content (f_cache s)"
proof -
  have len: "\<forall>d a d'. take_bit_in d (group_blocks (f_geo s) g) start = Ok (a, d') \<longrightarrow> length d' = length d"
    using take_bit_in_length by blast
  from fs_okD(1) [OF ok] fs_ok_bitmap(1) [OF ok g] run [unfolded fs_take_bit_def] len
  show ?thesis
  proof (cases rule: in_cache_modifyE)
    case (run cc d)
    have "r \<noteq> Panic" using pool.acquire_result(3) [OF fs_okD(1) [OF ok] fs_ok_bitmap [OF ok g] assms(3)] .
    show ?thesis
    proof (cases "take_bit_in d (group_blocks (f_geo s) g) start :: (nat option \<times> bytes, ext2_error) result")
      case (Ok p)
      then obtain a d' where p: "p = (a, d')" by fastforce
      with Ok run(5) have "r = Ok a" and v: "cache_view content cc = (cache_view content (f_cache s))(group_bitmap s g := Some d')" by simp_all
      with assms(4) have "a = None" by (cases a) auto
      with Ok p have "d' = d" using take_bit_in_None by blast
      with v run(1,2) show ?thesis by (simp add: fun_upd_idem)
    qed (use run \<open>r \<noteq> Panic\<close> in simp_all)
  qed simp
qed

lemma bit_used_view: "cache_view content (f_cache s') = cache_view content (f_cache s) \<Longrightarrow> bit_used content s' = bit_used content s"
  by (simp add: bit_used_def fun_eq_iff)

lemma fs_keeps_trans: "fs_keeps s t \<Longrightarrow> fs_keeps t u \<Longrightarrow> fs_keeps s u"
  by (simp add: fs_keeps_def)

lemma counts_only_keeps: "counts_only s s' \<Longrightarrow> fs_keeps s s'"
  by (simp add: counts_only_def fs_keeps_def)

lemma alloc_finish_spec:
  assumes ok: "fs_ok content s" and g: "g < groups (f_geo s)" and b: "b < blocks_count (f_geo s)"
    and run: "alloc_finish g b s = (r, s')"
  shows "fs_ok content s'" "fs_keeps s s'"
    "r = Err Io \<and> cache_view content (f_cache s') = cache_view content (f_cache s) \<or>
     r = Ok b \<and> cache_view content (f_cache s') = (cache_view content (f_cache s))(b := Some (replicate (block_size (f_geo s)) 0))"
proof -
  obtain s1 where 1: "gd16_add g G_FREE_BLOCKS (- 1) s = (Ok (), s1)" "fs_ok content s1" "counts_only s s1"
    using gd16_add_spec [OF ok g, of G_FREE_BLOCKS "- 1"] by blast
  have "S_FREE_BLOCKS + 4 \<le> SB_SIZE" by (simp add: sb_fields SB_SIZE_def)
  then obtain s2 where 2: "sb32_add S_FREE_BLOCKS (- 1) s1 = (Ok (), s2)" "fs_ok content s2" "counts_only s1 s2"
    using sb32_add_spec [OF 1(2)] by blast
  note c2 = counts_only_trans [OF 1(3) 2(3)]
  have "b \<noteq> u32_MAX" using b fs_okD(2) [OF ok] by (auto simp: wf_geometry_def)
  obtain q s3 where 3: "in_cache (cache_zero b) s2 = (q, s3)" by fastforce
  then obtain c where c: "cache_zero b (f_cache s2) = (q, c)" "s3 = s2\<lparr>f_cache := c\<rparr>" by (rule in_cacheE)
  note z = cache_zero_spec [OF fs_okD(1) [OF 2(2)] \<open>b \<noteq> u32_MAX\<close> c(1)]
  have bs: "c_block_size c = c_block_size (f_cache s2)" by (rule act_keepsD [OF cache_ops_keep(3) c(1)])
  have ok3: "fs_ok content s3" "fs_keeps s2 s3" using 2(2) z bs by (simp_all add: c fs_ok_def fs_keeps_def group_bitmap_def)
  have run': "(r, s') = (case q of Ok _ \<Rightarrow> (Ok b, s3\<lparr>f_last_alloc := b + 1\<rparr>) | Err e \<Rightarrow> (Err e, s3) | Panic \<Rightarrow> (Panic, s3))"
    unfolding run [symmetric] alloc_finish_def by (simp add: act_bind_def 1 2 3 act_run split: result.split)
  then have s': "s' = s3 \<or> s' = s3\<lparr>f_last_alloc := b + 1\<rparr>" by (cases q) simp_all
  then show "fs_ok content s'" using ok3(1) by (auto simp: fs_ok_def group_bitmap_def)
  have "fs_keeps s3 s'" using s' by (auto simp: fs_keeps_def group_bitmap_def)
  with ok3(2) counts_only_keeps [OF c2] show "fs_keeps s s'" by (metis fs_keeps_trans)
  have v: "cache_view content (f_cache s') = cache_view content c" using s' c(2) by auto
  have e: "f_cache s2 = f_cache s" "c_block_size c = block_size (f_geo s)"
    using c2 bs fs_okD(4) [OF ok] by (simp_all add: counts_only_def)
  from z have "q = Err Io \<and> cache_view content c = cache_view content (f_cache s) \<or>
     q = Ok () \<and> cache_view content c = (cache_view content (f_cache s))(b := Some (replicate (block_size (f_geo s)) 0))"
    unfolding e by blast
  then show "r = Err Io \<and> cache_view content (f_cache s') = cache_view content (f_cache s) \<or>
     r = Ok b \<and> cache_view content (f_cache s') = (cache_view content (f_cache s))(b := Some (replicate (block_size (f_geo s)) 0))"
    using run' unfolding v by (elim disjE) simp_all
qed

text \<open>A group with no block for the allocator: none counted free, or every bit set.\<close>

definition group_full :: "('d \<Rightarrow> bytes) \<Rightarrow> 'd fs \<Rightarrow> nat \<Rightarrow> bool" where
  "group_full content s g \<longleftrightarrow>
     group_free s g = 0 \<or> (\<forall>i < group_blocks (f_geo s) g. bit_used content s (group_bitmap s g) i)"

text \<open>Bit \<open>i\<close> of group \<open>g\<close> was clear; its block \<open>b\<close> is now zero, and of the others only the bitmap changed.\<close>

definition allocated :: "('d \<Rightarrow> bytes) \<Rightarrow> 'd fs \<Rightarrow> 'd fs \<Rightarrow> nat \<Rightarrow> bool" where
  "allocated content s s' b \<longleftrightarrow>
     (let geo = f_geo s; g = group_of_block geo b; bm = group_bitmap s g; i = b - group_first geo g in
      first_data_block geo \<le> b \<and> b < blocks_count geo \<and> \<not> bit_used content s bm i \<and>
      cache_view content (f_cache s') b = Some (replicate (block_size geo) 0) \<and>
      (\<forall>c. c \<noteq> b \<and> c \<noteq> bm \<longrightarrow> cache_view content (f_cache s') c = cache_view content (f_cache s) c) \<and>
      (\<forall>c j. c \<noteq> b \<longrightarrow> (bit_used content s' c j \<longleftrightarrow> bit_used content s c j \<or> c = bm \<and> j = i)))"

lemma alloc_try_spec:
  assumes ok: "fs_ok content s" and g: "g < groups (f_geo s)"
    and take: "fs_take_bit (group_bitmap s g) (group_blocks (f_geo s) g) start s = (Ok (Some i), s1)"
    and run: "alloc_finish g (group_first (f_geo s) g + i) s1 = (r, s')"
  shows "fs_ok content s' \<and> fs_keeps s s' \<and>
    (r = Err Io \<and> (\<forall>c j. bit_used content s c j \<longrightarrow> bit_used content s' c j) \<or>
     (\<exists>b. r = Ok b \<and> allocated content s s' b))"
proof -
  let ?geo = "f_geo s" and ?b = "group_first (f_geo s) g + i"
  note t = fs_take_bit_ok [OF ok g take]
  note a = pool.acquired [OF fs_okD(1) [OF ok] fs_ok_bitmap [OF ok g] take]
  have gb: "group_of_block ?geo ?b = g" by (rule group_of_block_first [OF a(1)])
  have b: "?b < blocks_count ?geo" "first_data_block ?geo \<le> ?b"
    using a(1) by (auto simp: group_blocks_def group_first_def)
  have geo: "f_geo s1 = ?geo" using t(2) by (simp add: fs_keeps_def)
  note f = alloc_finish_spec [OF t(1) _ _ run, unfolded geo, OF g b(1)]
  have keep: "fs_keeps s s'" by (rule fs_keeps_trans [OF t(2) f(2)])
  from f(3) show ?thesis
  proof (elim disjE conjE)
    assume r: "r = Err Io" and "cache_view content (f_cache s') = cache_view content (f_cache s1)"
    then have "bit_used content s' = bit_used content s1" by (intro bit_used_view)
    then show ?thesis using f(1) keep r a(3) by simp
  next
    assume r: "r = Ok ?b" and v: "cache_view content (f_cache s') =
      (cache_view content (f_cache s1))(?b := Some (replicate (block_size ?geo) 0))"
    have "bit_used content s' c j \<longleftrightarrow> bit_used content s1 c j" if "c \<noteq> ?b" for c j
      using v that by (simp add: bit_used_def)
    then have "allocated content s s' ?b"
      using a(2,3) b v t(4) by (simp add: allocated_def Let_def gb)
    then show ?thesis using f(1) keep r by blast
  qed
qed

lemma alloc_block_in_Cons:
  assumes ok: "fs_ok content s" and g0: "g0 < groups (f_geo s)" and k: "k < groups (f_geo s)"
    and g: "g = (g0 + k) mod groups (f_geo s)"
    and start: "start = (if k = 0 then goal - group_first (f_geo s) g else 0)"
  shows "alloc_block_in goal g0 (k # ks) s =
    (if group_free s g = 0 then alloc_block_in goal g0 ks s
     else act_bind (fs_take_bit (group_bitmap s g) (group_blocks (f_geo s) g) start) (\<lambda>found.
       case found of None \<Rightarrow> alloc_block_in goal g0 ks
       | Some i \<Rightarrow> alloc_finish g (group_first (f_geo s) g + i)) s)"
proof -
  have gl: "g < groups (f_geo s)" using k g by simp
  have u: "u32_add g0 k = (Ok (g0 + k) :: (nat, ext2_error) result)"
    using g0 k fs_okD(3) [OF ok] by (simp add: u32_add_def)
  show ?thesis
    using gd_read [OF ok gl] by (simp add: act_simps u Let_def g [symmetric] start act_bind_def)
qed

lemma alloc_block_in_spec:
  assumes "fs_ok content s" and "g0 < groups (f_geo s)" and "\<forall>k \<in> set ks. k < groups (f_geo s)"
    and "alloc_block_in goal g0 ks s = (r, s')"
  shows "fs_ok content s' \<and> fs_keeps s s' \<and>
    (r = Err Io \<and> (\<forall>c j. bit_used content s c j \<longrightarrow> bit_used content s' c j) \<or>
     r = Err NoSpace \<and> cache_view content (f_cache s') = cache_view content (f_cache s) \<and>
       (\<forall>k \<in> set ks. group_full content s ((g0 + k) mod groups (f_geo s))) \<or>
     (\<exists>b. r = Ok b \<and> allocated content s s' b))"
  using assms
proof (induction ks arbitrary: s)
  case Nil
  then show ?case by (auto simp: act_run fs_keeps_def)
next
  case (Cons k ks)
  define g where "g = (g0 + k) mod groups (f_geo s)"
  let ?start = "if k = 0 then goal - group_first (f_geo s) g else 0"
  have k: "k < groups (f_geo s)" and g: "g < groups (f_geo s)" using Cons.prems(2,3) by (auto simp: g_def)
  note run = alloc_block_in_Cons [OF Cons.prems(1,2) k g_def refl, of goal ks, unfolded Cons.prems(4)]
  show ?case
  proof (cases "group_free s g = 0")
    case True
    then have "group_full content s g" by (simp add: group_full_def)
    moreover have "alloc_block_in goal g0 ks s = (r, s')" using run True by simp
    ultimately show ?thesis using Cons.IH [OF Cons.prems(1,2)] Cons.prems(3) by (simp add: g_def)
  next
    case False
    obtain q s1 where t: "fs_take_bit (group_bitmap s g) (group_blocks (f_geo s) g) ?start s = (q, s1)" by fastforce
    note a = pool.acquire_result [OF fs_okD(1) [OF Cons.prems(1)] fs_ok_bitmap [OF Cons.prems(1) g] t]
    note tk = fs_take_bit_ok [OF Cons.prems(1) g t]
    show ?thesis
    proof (cases q)
      case (Err e)
      then have "r = Err Io" "s' = s1" "bit_used content s1 = bit_used content s"
        using run False t a(4) [of e] by (simp_all add: act_bind_def)
      then show ?thesis using tk by simp
    next
      case (Ok found)
      show ?thesis
      proof (cases found)
        case None
        have v: "cache_view content (f_cache s1) = cache_view content (f_cache s)"
          by (rule fs_take_bit_view [OF Cons.prems(1) g t]) (simp add: Ok None)
        have "group_full content s g"
          using pool.not_acquired(1) [OF fs_okD(1) [OF Cons.prems(1)] fs_ok_bitmap [OF Cons.prems(1) g]] t Ok None
          by (auto simp: group_full_def)
        moreover have geo: "f_geo s1 = f_geo s" using tk(2) by (simp add: fs_keeps_def)
        moreover have full: "group_full content s1 = group_full content s"
          using bit_used_view [OF v] tk(3) geo by (simp add: group_full_def group_free_def group_bitmap_def fun_eq_iff)
        moreover have alloc: "allocated content s1 s' = allocated content s s'"
          using bit_used_view [OF v] tk(3) geo v by (simp add: allocated_def group_bitmap_def fun_eq_iff)
        moreover have "alloc_block_in goal g0 ks s1 = (r, s')" using run False t Ok None by (simp add: act_bind_def)
        ultimately show ?thesis
          using Cons.IH [OF tk(1)] Cons.prems(2,3) fs_keeps_trans [OF tk(2)] v bit_used_view [OF v] by (simp add: g_def)
      next
        case (Some i)
        have "alloc_finish g (group_first (f_geo s) g + i) s1 = (r, s')"
          using run False t Ok Some by (simp add: act_bind_def)
        from alloc_try_spec [OF Cons.prems(1) g _ this] t Ok Some show ?thesis by blast
      qed
    qed (use a(3) in simp)
  qed
qed

text \<open>The bitmaps of the groups are in blocks of their own, each marked in use.\<close>

definition bitmaps_apart :: "('d \<Rightarrow> bytes) \<Rightarrow> 'd fs \<Rightarrow> bool" where
  "bitmaps_apart content s \<longleftrightarrow>
     distinct (map (group_bitmap s) [0..<groups (f_geo s)]) \<and>
     list_all (\<lambda>g. first_data_block (f_geo s) \<le> group_bitmap s g \<and> in_use content s (group_bitmap s g)) [0..<groups (f_geo s)]"

lemma allocated_in_use:
  assumes ok: "fs_ok content s" and keeps: "fs_keeps s s'" and apart: "bitmaps_apart content s"
    and alloc: "allocated content s s' b" and x: "first_data_block (f_geo s) \<le> x" "x < blocks_count (f_geo s)"
  shows "in_use content s' x \<longleftrightarrow> in_use content s x \<or> x = b"
proof -
  let ?geo = "f_geo s" and ?g = "group_of_block (f_geo s)"
  have b: "first_data_block ?geo \<le> b" "b < blocks_count ?geo" "\<not> in_use content s b"
    using alloc by (auto simp: allocated_def in_use_def Let_def)
  note gx = group_of_block_bounds [OF fs_okD(2) [OF ok] x refl]
  note gb = group_of_block_bounds [OF fs_okD(2) [OF ok] b(1,2) refl]
  have "group_bitmap s (?g x) \<noteq> b"
  proof
    assume "group_bitmap s (?g x) = b"
    moreover have "in_use content s (group_bitmap s (?g x))"
      using apart gx(1) by (auto simp: bitmaps_apart_def list_all_iff)
    ultimately show False using b(3) by simp
  qed
  then have "bit_used content s' (group_bitmap s (?g x)) j \<longleftrightarrow> bit_used content s (group_bitmap s (?g x)) j \<or>
      group_bitmap s (?g x) = group_bitmap s (?g b) \<and> j = b - group_first ?geo (?g b)" for j
    using alloc by (auto simp: allocated_def Let_def)
  moreover have "group_bitmap s (?g x) = group_bitmap s (?g b) \<longleftrightarrow> ?g x = ?g b"
    using apart gx(1) gb(1) by (auto simp: bitmaps_apart_def distinct_map inj_on_def)
  moreover have "?g x = ?g b \<and> x - group_first ?geo (?g x) = b - group_first ?geo (?g b) \<longleftrightarrow> x = b"
    using gx(2) gb(2) by (metis le_add_diff_inverse)
  moreover have "f_geo s' = ?geo" "group_bitmap s' (?g x) = group_bitmap s (?g x)"
    using keeps gx(1) by (auto simp: fs_keeps_def)
  ultimately show ?thesis unfolding in_use_def Let_def by auto
qed

lemma mod_shift: "g < n \<Longrightarrow> g0 < n \<Longrightarrow> \<exists>k < n. (g0 + k) mod n = (g :: nat)"
  by (rule exI [of _ "(g + n - g0) mod n"]) (auto simp: mod_simps)

text \<open>
  C35. On a mounted file system whose bitmaps are in blocks of their own, marked in use, \<^verbatim>\<open>alloc_block\<close>
  does not panic and returns a data block no bitmap marked, filled with zeros; afterwards exactly that
  block is in use besides those that were, and no other block but its group's bitmap changed, so the
  next allocation starts from the same invariant. It answers \<^verbatim>\<open>NoSpace\<close> only when every block is in use
  or in a group whose descriptor counts none free, and then changes no block; any other failure is
  the device's.
\<close>
theorem alloc_block_exact:
  assumes "fs_ok content s" and "bitmaps_apart content s" and "alloc_block s = (r, s')"
  shows "fs_ok content s' \<and> f_geo s' = f_geo s \<and>
    (case r of
       Ok b \<Rightarrow> first_data_block (f_geo s) \<le> b \<and> b < blocks_count (f_geo s) \<and> \<not> in_use content s b \<and>
         bitmaps_apart content s' \<and>
         (\<forall>x. first_data_block (f_geo s) \<le> x \<and> x < blocks_count (f_geo s) \<longrightarrow>
            (in_use content s' x \<longleftrightarrow> in_use content s x \<or> x = b)) \<and>
         cache_view content (f_cache s') b = Some (replicate (block_size (f_geo s)) 0) \<and>
         (\<forall>c. c \<noteq> b \<and> c \<noteq> group_bitmap s (group_of_block (f_geo s) b) \<longrightarrow>
            cache_view content (f_cache s') c = cache_view content (f_cache s) c)
     | Err e \<Rightarrow> e = Io \<or> e = NoSpace \<and> cache_view content (f_cache s') = cache_view content (f_cache s) \<and>
         (\<forall>x. first_data_block (f_geo s) \<le> x \<and> x < blocks_count (f_geo s) \<longrightarrow>
            in_use content s x \<or> group_free s (group_of_block (f_geo s) x) = 0)
     | Panic \<Rightarrow> False)"
proof -
  let ?geo = "f_geo s"
  note wf = fs_okD(2) [OF assms(1)]
  let ?g0 = "min (group_of_block ?geo (f_last_alloc s)) (groups ?geo - 1)"
  have pos: "0 < groups ?geo"
    using wf group_of_block_bounds(1) [OF wf, of "first_data_block ?geo"] by (auto simp: wf_geometry_def geometry_ok_def)
  have run: "alloc_block_in (f_last_alloc s) ?g0 [0..<groups ?geo] s = (r, s')"
    using assms(3) by (simp add: alloc_block_def act_simps)
  have g0: "?g0 < groups ?geo" using pos by simp
  note spec = alloc_block_in_spec [OF assms(1) g0 _ run]
  then have ok: "fs_ok content s'" "fs_keeps s s'" by simp_all
  have geo: "f_geo s' = ?geo" using ok(2) by (simp add: fs_keeps_def)
  from spec consider (io) "r = Err Io"
    | (full) "r = Err NoSpace" "cache_view content (f_cache s') = cache_view content (f_cache s)"
        "\<forall>k \<in> set [0..<groups ?geo]. group_full content s ((?g0 + k) mod groups ?geo)"
    | (got) b where "r = Ok b" "allocated content s s' b" by fastforce
  then show ?thesis
  proof cases
    case io
    then show ?thesis using ok geo by simp
  next
    case full
    have "in_use content s x \<or> group_free s (group_of_block ?geo x) = 0"
      if "first_data_block ?geo \<le> x" "x < blocks_count ?geo" for x
    proof -
      note gx = group_of_block_bounds [OF wf that refl]
      from mod_shift [OF gx(1) g0] obtain k where "k < groups ?geo" "(?g0 + k) mod groups ?geo = group_of_block ?geo x"
        by blast
      then have "group_full content s (group_of_block ?geo x)" using bspec [OF full(3), of k] by simp
      then show ?thesis using gx(3) by (auto simp: group_full_def in_use_def Let_def)
    qed
    then show ?thesis using ok geo full by simp
  next
    case got
    note iu = allocated_in_use [OF assms(1) ok(2) assms(2) got(2)]
    have "bitmaps_apart content s'"
      using assms(2) geo ok(2) iu fs_okD(8) [OF assms(1)]
      by (auto simp: bitmaps_apart_def list_all_iff fs_keeps_def distinct_map inj_on_def)
    then show ?thesis using got ok geo iu by (simp add: allocated_def in_use_def Let_def)
  qed
qed

text \<open>A disk of three blocks whose last holds the bitmap of its only group.\<close>

definition tiny_bitmap :: bytes where
  "tiny_bitmap = 2 # replicate 1023 0"

definition tiny_fs :: "bytes fs" where
  "tiny_fs = \<lparr>f_cache = cache_new (ram_disk (replicate 2048 0 @ tiny_bitmap)) 1024, f_geo = tiny_geo, f_sb = replicate SB_SIZE 0,
     f_sb_dirty = False, f_gdt = [2, 0, 0, 0, 0, 0, 0, 0, 0, 0, 0, 0, 9] @ replicate 1011 0, f_gdt_dirty = [False],
     f_last_alloc = 0, f_resolved = []\<rparr>"

lemma tiny_fs_ok: "fs_ok (\<lambda>d. d) tiny_fs" "bitmaps_apart (\<lambda>d. d) tiny_fs"
proof -
  have bm: "group_bitmap tiny_fs 0 = 2"
    by (simp add: group_bitmap_def tiny_fs_def gd_fields slice_def from_le32_def)
  have wf: "cache_wf (\<lambda>d. d) (f_cache tiny_fs)" and view: "cache_view (\<lambda>d. d) (f_cache tiny_fs) 2 = Some tiny_bitmap"
    unfolding tiny_fs_def
    by (simp_all add: cache_new_wf [OF ram_disk_like] block_in_def)
       (simp_all add: ram_disk_def slice_def tiny_bitmap_def)
  have gd: "gdt_blocks tiny_geo = 1" by (simp add: gdt_blocks_def tiny_geo_def div_ceil_def GD_SIZE_def)
  show "fs_ok (\<lambda>d. d) tiny_fs"
    unfolding fs_ok_def using wf geometry_parse_wf [OF tiny_parse] gd bm
    by (simp add: tiny_fs_def cache_new_def) (simp add: tiny_geo_def u32_MAX_def)
  have "marked tiny_bitmap 1" by (simp add: marked_def tiny_bitmap_def bit_simps)
  moreover have "group_of_block tiny_geo 2 = 0" "group_first tiny_geo 0 = 1"
    by (simp_all add: group_of_block_def group_first_def tiny_geo_def)
  ultimately have "in_use (\<lambda>d. d) tiny_fs 2"
    using bm view by (simp add: in_use_def bit_used_def) (simp add: tiny_fs_def)
  then show "bitmaps_apart (\<lambda>d. d) tiny_fs"
    using bm by (simp add: bitmaps_apart_def) (simp add: tiny_fs_def tiny_geo_def)
qed

theorem alloc_block_exact_witness:
  "fs_ok (\<lambda>d. d) (snd (alloc_block tiny_fs)) \<and> fst (alloc_block tiny_fs) \<noteq> Panic"
proof -
  obtain r s' where "alloc_block tiny_fs = (r, s')" by fastforce
  with alloc_block_exact [OF tiny_fs_ok this] show ?thesis by auto
qed
end
