(* ===== verification/Ext2_Inode.thy ===== *)
theory Ext2_Inode
  imports Ext2_Alloc
begin

text \<open>
  Inodes and the block map of ext2 (\<^verbatim>\<open>modules/ext2/ext2fs/src/inode.rs\<close>): parsing and
  storing inodes, the path of indirect blocks to a logical block, reading, writing,
  truncating and freeing file data. A method with \<^verbatim>\<open>node: &mut Inode\<close> is an action on
  the pair of the file system and the inode, which is changed also when it fails.
  The lemmas show the round trips of the inode fields and that the block map
  addresses every logical block once.
\<close>

section \<open>Inodes\<close>

definition NDIRECT :: nat where "NDIRECT = 12"
definition IND :: nat where "IND = 12"
definition NBLOCKS :: nat where "NBLOCKS = 15"

record inode =
  i_mode :: u16
  i_size :: nat
  i_atime :: u32
  i_ctime :: u32
  i_mtime :: u32
  i_dtime :: u32
  i_links :: nat
  i_sectors :: nat
  i_flags :: u32
  i_block :: "nat list"
  i_file_acl :: nat

definition inode_new :: "u16 \<Rightarrow> u32 \<Rightarrow> inode" where
  "inode_new mode now =
     \<lparr>i_mode = mode, i_size = 0, i_atime = now, i_ctime = now, i_mtime = now, i_dtime = 0, i_links = 1,
      i_sectors = 0, i_flags = 0, i_block = replicate NBLOCKS 0, i_file_acl = 0\<rparr>"

definition mode_kind :: "u16 \<Rightarrow> ext2_kind" where
  "mode_kind mode =
     (let t = mode AND E_IFMT in
      if t = E_IFREG then File else if t = E_IFDIR then Dir else if t = E_IFLNK then Symlink else Other)"

definition inode_kind :: "inode \<Rightarrow> ext2_kind" where
  "inode_kind node = mode_kind (i_mode node)"

definition inode_is_dir :: "inode \<Rightarrow> bool" where
  "inode_is_dir node \<longleftrightarrow> inode_kind node = Dir"

definition get32n :: "bytes \<Rightarrow> nat \<Rightarrow> (nat, 'e) result" where
  "get32n b off = bind_result (get32 b off) (\<lambda>w. Ok (unat w))"

text \<open>\<^verbatim>\<open>block.iter_mut().enumerate()\<close>: the pointers from \<open>i\<close> on.\<close>

primrec get_pointers :: "bytes \<Rightarrow> nat \<Rightarrow> nat \<Rightarrow> (nat list, 'e) result" where
  "get_pointers b off 0 = Ok []"
| "get_pointers b off (Suc n) =
     bind_result (get32n b off) (\<lambda>p. bind_result (get_pointers b (off + 4) n) (\<lambda>ps. Ok (p # ps)))"

primrec put_pointers :: "nat list \<Rightarrow> nat \<Rightarrow> bytes \<Rightarrow> (bytes, 'e) result" where
  "put_pointers [] off b = Ok b"
| "put_pointers (p # ps) off b =
     bind_result (put32 b off (word_of_nat p)) (\<lambda>b. put_pointers ps (off + 4) b)"

definition inode_parse :: "bytes \<Rightarrow> (inode, 'e) result" where
  "inode_parse b =
     bind_result (get16 b 0) (\<lambda>mode.
     bind_result (get_pointers b 40 NBLOCKS) (\<lambda>block.
     bind_result (if mode AND E_IFMT = E_IFREG then get32n b 108 else Ok 0) (\<lambda>high.
     bind_result (get32n b 4) (\<lambda>low.
     bind_result (get32 b 8) (\<lambda>atime.
     bind_result (get32 b 12) (\<lambda>ctime.
     bind_result (get32 b 16) (\<lambda>mtime.
     bind_result (get32 b 20) (\<lambda>dtime.
     bind_result (get16 b 26) (\<lambda>links.
     bind_result (get32n b 28) (\<lambda>sectors.
     bind_result (get32 b 32) (\<lambda>flags.
     bind_result (get32n b 104) (\<lambda>acl.
     Ok \<lparr>i_mode = mode, i_size = low + high * 2 ^ 32, i_atime = atime, i_ctime = ctime, i_mtime = mtime,
         i_dtime = dtime, i_links = unat links, i_sectors = sectors, i_flags = flags, i_block = block,
         i_file_acl = acl\<rparr>))))))))))))"

definition inode_store :: "inode \<Rightarrow> bytes \<Rightarrow> (bytes, 'e) result" where
  "inode_store node b =
     bind_result (put16 b 0 (i_mode node)) (\<lambda>b.
     bind_result (put32 b 4 (word_of_nat (i_size node))) (\<lambda>b.
     bind_result (put32 b 8 (i_atime node)) (\<lambda>b.
     bind_result (put32 b 12 (i_ctime node)) (\<lambda>b.
     bind_result (put32 b 16 (i_mtime node)) (\<lambda>b.
     bind_result (put32 b 20 (i_dtime node)) (\<lambda>b.
     bind_result (put16 b 26 (word_of_nat (i_links node))) (\<lambda>b.
     bind_result (put32 b 28 (word_of_nat (i_sectors node))) (\<lambda>b.
     bind_result (put32 b 32 (i_flags node)) (\<lambda>b.
     bind_result (put_pointers (i_block node) 40 b) (\<lambda>b.
     bind_result (put32 b 104 (word_of_nat (i_file_acl node))) (\<lambda>b.
     if inode_kind node = File then put32 b 108 (word_of_nat (i_size node div 2 ^ 32)) else Ok b)))))))))))"

definition inode_file_type :: "inode \<Rightarrow> u8" where
  "inode_file_type node =
     (case inode_kind node of Dir \<Rightarrow> FT_DIR | Symlink \<Rightarrow> FT_SYMLINK | _ \<Rightarrow> FT_REG)"

definition inline_capacity :: nat where "inline_capacity = NBLOCKS * 4"

definition is_fast_symlink :: "inode \<Rightarrow> nat \<Rightarrow> bool" where
  "is_fast_symlink node bs \<longleftrightarrow>
     inode_kind node = Symlink \<and> i_sectors node = (if i_file_acl node \<noteq> 0 then bs div 512 else 0)"

definition inode_inline :: "inode \<Rightarrow> bytes" where
  "inode_inline node = concat (map (\<lambda>p. to_le32 (word_of_nat p)) (i_block node))"

definition set_inline :: "bytes \<Rightarrow> inode \<Rightarrow> (inode, 'e) result" where
  "set_inline data node =
     bind_result (put_range 0 (length data) data (replicate (NBLOCKS * 4) 0)) (\<lambda>raw.
     bind_result (get_pointers raw 0 NBLOCKS) (\<lambda>block.
     Ok (node\<lparr>i_block := block, i_size := length data\<rparr>)))"

section \<open>The inode table\<close>

definition inode_at :: "'d fs \<Rightarrow> nat \<Rightarrow> (nat \<times> nat, ext2_error) result" where
  "inode_at s ino =
     (let geo = f_geo s in
      if ino = 0 \<or> inodes_count geo < ino then Err Invalid
      else
        let g = (ino - 1) div inodes_per_group geo; i = (ino - 1) mod inodes_per_group geo;
            byte = i * inode_size geo
        in bind_result (gd32 s g G_INODE_TABLE) (\<lambda>table.
           bind_result (u32_add table (byte div block_size geo)) (\<lambda>block.
           Ok (block, byte mod block_size geo))))"

definition read_inode :: "nat \<Rightarrow> ('d, inode) fs_action" where
  "read_inode ino =
     act_bind (\<lambda>s. (inode_at s ino, s)) (\<lambda>(block, off).
     in_cache (cache_read block (\<lambda>b.
       bind_result (get_range off (off + GOOD_OLD_INODE_SIZE) b) inode_parse)))"

text \<open>A change to \<^verbatim>\<open>b[off..off + n]\<close>.\<close>

definition change_range :: "nat \<Rightarrow> nat \<Rightarrow> (bytes \<Rightarrow> (bytes, 'e) result) \<Rightarrow> bytes \<Rightarrow> (unit \<times> bytes, 'e) result" where
  "change_range off n f b =
     bind_result (get_range off (off + n) b) (\<lambda>part.
     bind_result (f part) (\<lambda>part.
     bind_result (put_range off (off + n) part b) (\<lambda>b. Ok ((), b))))"

definition write_inode :: "nat \<Rightarrow> inode \<Rightarrow> ('d, unit) fs_action" where
  "write_inode ino node =
     act_bind (\<lambda>s. (inode_at s ino, s)) (\<lambda>(block, off).
     in_cache (cache_modify block (change_range off GOOD_OLD_INODE_SIZE (inode_store node))))"

definition write_new_inode :: "nat \<Rightarrow> inode \<Rightarrow> ('d, unit) fs_action" where
  "write_new_inode ino node =
     act_bind (\<lambda>s. (inode_at s ino, s)) (\<lambda>(block, off).
     act_bind (act_gets (\<lambda>s. inode_size (f_geo s))) (\<lambda>size.
     in_cache (cache_modify block (change_range off size (\<lambda>_. inode_store node (replicate size 0))))))"

section \<open>The block map\<close>

primrec map_index :: "nat \<Rightarrow> nat \<Rightarrow> nat \<Rightarrow> nat \<Rightarrow> nat list" where
  "map_index p rest dv 0 = []"
| "map_index p rest dv (Suc k) = (rest div dv mod p) # map_index p rest (dv div p) k"

primrec map_levels :: "nat \<Rightarrow> nat \<Rightarrow> nat \<Rightarrow> nat list \<Rightarrow> (nat \<times> nat list, ext2_error) result" where
  "map_levels p rest span [] = Err TooBig"
| "map_levels p rest span (level # levels) =
     (if rest < span then Ok (IND + level, map_index p rest (span div p) (level + 1))
      else map_levels p (rest - span) (span * p) levels)"

definition map_path :: "geometry \<Rightarrow> nat \<Rightarrow> (nat \<times> nat list, ext2_error) result" where
  "map_path geo n =
     (if n < NDIRECT then Ok (n, []) else map_levels (ptrs geo) (n - NDIRECT) (ptrs geo) [0, 1, 2])"

type_synonym ('d, 'a) node_action = "('d fs \<times> inode, 'a, ext2_error) action"

definition in_fs :: "('d, 'a) fs_action \<Rightarrow> ('d, 'a) node_action" where
  "in_fs m = act_on fst (\<lambda>s (_, node). (s, node)) m"

definition node_gets :: "(inode \<Rightarrow> 'a) \<Rightarrow> ('d, 'a) node_action" where
  "node_gets f = act_gets (\<lambda>(_, node). f node)"

definition node_update :: "(inode \<Rightarrow> inode) \<Rightarrow> ('d, unit) node_action" where
  "node_update f = act_update (\<lambda>(s, node). (s, f node))"

text \<open>A call with \<^verbatim>\<open>&mut node\<close>: its result, and the inode after it.\<close>

definition with_node :: "inode \<Rightarrow> ('d, 'a) node_action \<Rightarrow> ('d, ('a, ext2_error) result \<times> inode) fs_action" where
  "with_node node m s =
     (case m (s, node) of (r, (s', node')) \<Rightarrow>
        (case r of Panic \<Rightarrow> (Panic, s') | _ \<Rightarrow> (Ok (r, node'), s')))"

definition add_sectors :: "nat \<Rightarrow> ('d, unit) node_action" where
  "add_sectors per =
     act_bind (node_gets i_sectors) (\<lambda>n.
     act_bind (act_lift (u32_add n per)) (\<lambda>n.
     node_update (\<lambda>node. node\<lparr>i_sectors := n\<rparr>)))"

primrec bmap_path :: "bool \<Rightarrow> nat \<Rightarrow> nat list \<Rightarrow> nat \<Rightarrow> ('d, nat) node_action" where
  "bmap_path alloc per [] cur = act_return cur"
| "bmap_path alloc per (i # is) cur =
     act_bind (in_fs (in_cache (cache_read cur (\<lambda>b. get32n b (i * 4))))) (\<lambda>next_block.
     if next_block \<noteq> 0 then bmap_path alloc per is next_block
     else if \<not> alloc then act_return 0
     else
       act_bind (in_fs alloc_block) (\<lambda>b.
       act_bind (in_fs (in_cache (cache_modify cur (\<lambda>blk.
         bind_result (put32 blk (i * 4) (word_of_nat b)) (\<lambda>blk. Ok ((), blk)))))) (\<lambda>_.
       act_bind (add_sectors per) (\<lambda>_. bmap_path alloc per is b))))"

definition bmap :: "nat \<Rightarrow> bool \<Rightarrow> ('d, nat) node_action" where
  "bmap n alloc =
     act_bind (in_fs (act_gets f_geo)) (\<lambda>geo.
     act_bind (act_lift (map_path geo n)) (\<lambda>(slot, path).
     let per = block_size geo div 512 in
     act_bind (node_gets (\<lambda>node. i_block node ! slot)) (\<lambda>p.
     if p = 0 \<and> \<not> alloc then act_return 0
     else
       act_bind
         (if p = 0 then
            act_bind (in_fs alloc_block) (\<lambda>b.
            act_bind (node_update (\<lambda>node. node\<lparr>i_block := (i_block node)[slot := b]\<rparr>)) (\<lambda>_.
            add_sectors per))
          else act_return ()) (\<lambda>_.
       act_bind (node_gets (\<lambda>node. i_block node ! slot)) (\<lambda>cur.
       bmap_path alloc per path cur)))))"

text \<open>\<^verbatim>\<open>bmap\<close> on a copy of the inode.\<close>

definition bmap_of :: "inode \<Rightarrow> nat \<Rightarrow> ('d, nat) fs_action" where
  "bmap_of node n = act_bind (with_node node (bmap n False)) (\<lambda>(r, _). act_lift r)"

text \<open>The part of a block one step of a transfer covers is not empty.\<close>

lemma step_progress:
  assumes "done < want" and "0 < bs"
  shows "want - (done + min (bs - at mod bs) (want - done)) < want - (done :: nat)"
proof -
  have "at mod bs < bs" using assms(2) by simp
  with assms(1) show ?thesis by linarith
qed

section \<open>Reading\<close>

text \<open>The pending run of adjacent blocks: its first block, where it goes, how many.\<close>

type_synonym block_run = "(nat \<times> nat \<times> nat) option"

definition run_extends :: "block_run \<Rightarrow> bool \<Rightarrow> nat \<Rightarrow> nat \<Rightarrow> nat \<Rightarrow> (bool, ext2_error) result" where
  "run_extends run whole b bs done =
     (case run of
        None \<Rightarrow> Ok False
      | Some (first, at, k) \<Rightarrow>
          if \<not> whole then Ok False
          else bind_result (u32_add first k) (\<lambda>n. Ok (n = b \<and> at + k * bs = done)))"

definition read_run :: "nat \<Rightarrow> block_run \<Rightarrow> bytes \<Rightarrow> ('d, bytes) fs_action" where
  "read_run bs run out =
     (case run of
        None \<Rightarrow> act_return out
      | Some (first, at, k) \<Rightarrow>
          act_bind (act_lift (get_range at (at + k * bs) out)) (\<lambda>buf.
          act_bind (in_cache (cache_read_through first buf)) (\<lambda>data.
          act_lift (put_range at (at + k * bs) data out))))"

function read_loop ::
  "inode \<Rightarrow> nat \<Rightarrow> nat \<Rightarrow> nat \<Rightarrow> nat \<Rightarrow> block_run \<Rightarrow> bytes \<Rightarrow> ('d, block_run \<times> bytes) fs_action" where
  "read_loop node pos bs want done run out =
     (if \<not> done < want then act_return (run, out)
      else if bs = 0 then act_panic
      else
        let at = pos + done; n = at div bs; into = at mod bs; tk = min (bs - into) (want - done) in
        act_bind (bmap_of node n) (\<lambda>b.
        let whole = (b \<noteq> 0 \<and> tk = bs) in
        act_bind (act_lift (run_extends run whole b bs done)) (\<lambda>more.
        if more then
          read_loop node pos bs want (done + tk) (map_option (\<lambda>(first, at, k). (first, at, k + 1)) run) out
        else
          act_bind (read_run bs run out) (\<lambda>out.
          if whole then read_loop node pos bs want (done + tk) (Some (b, done, 1)) out
          else if b = 0 then
            act_bind (act_lift (put_range done (done + tk) (replicate tk 0) out)) (\<lambda>out.
            read_loop node pos bs want (done + tk) None out)
          else
            act_bind (in_cache (cache_read_through b (replicate bs 0))) (\<lambda>blk.
            act_bind (act_lift (get_range into (into + tk) blk)) (\<lambda>part.
            act_bind (act_lift (put_range done (done + tk) part out)) (\<lambda>out.
            read_loop node pos bs want (done + tk) None out)))))))"
  by pat_completeness auto
termination
  by (relation "measure (\<lambda>(node, pos, bs, want, done, run, out). want - done)")
     (simp, simp_all only: in_measure prod.case, (rule step_progress; simp)+)

declare read_loop.simps [simp del]

text \<open>The bytes read and the buffer after it.\<close>

definition read_data :: "inode \<Rightarrow> nat \<Rightarrow> bytes \<Rightarrow> ('d, nat \<times> bytes) fs_action" where
  "read_data node pos out =
     (if i_size node \<le> pos then act_return (0, out)
      else
        let want = min (length out) (i_size node - pos) in
        act_bind (act_gets (\<lambda>s. block_size (f_geo s))) (\<lambda>bs.
        act_bind (read_loop node pos bs want 0 None out) (\<lambda>(run, out).
        act_bind (read_run bs run out) (\<lambda>out.
        act_return (want, out)))))"

section \<open>Writing\<close>

function write_loop :: "nat \<Rightarrow> bytes \<Rightarrow> nat \<Rightarrow> nat \<Rightarrow> ('d, nat) node_action" where
  "write_loop pos buf bs done =
     (if \<not> done < length buf then act_return done
      else if bs = 0 then act_panic
      else
        let at = pos + done; n = at div bs; into = at mod bs; tk = min (bs - into) (length buf - done) in
        act_bind (act_try (bmap n True)) (\<lambda>r.
        case r of
          Err e \<Rightarrow> if done = 0 then act_fail e else act_return done
        | Panic \<Rightarrow> act_panic
        | Ok b \<Rightarrow>
            act_bind (in_fs (in_cache (cache_modify b (\<lambda>blk.
              bind_result (put_range into (into + tk) (slice done (done + tk) buf) blk) (\<lambda>blk. Ok ((), blk)))))) (\<lambda>_.
            act_bind (node_update (\<lambda>node. node\<lparr>i_size := max (i_size node) (pos + (done + tk))\<rparr>)) (\<lambda>_.
            write_loop pos buf bs (done + tk)))))"
  by pat_completeness auto
termination
  by (relation "measure (\<lambda>(pos, buf, bs, done). length buf - done)")
     (simp, simp_all only: in_measure prod.case, (rule step_progress; simp)+)

declare write_loop.simps [simp del]

definition write_data :: "nat \<Rightarrow> bytes \<Rightarrow> ('d, nat) node_action" where
  "write_data pos buf =
     (if 2 ^ 64 \<le> pos + length buf then act_fail TooBig
      else
        act_bind (act_gets (\<lambda>(s, node). (f_geo s, inode_kind node))) (\<lambda>(geo, kind).
        if u32_MAX < pos + length buf \<and> \<not> (large_file geo \<and> kind = File) then act_fail TooBig
        else write_loop pos buf (block_size geo) 0))"

section \<open>Freeing\<close>

definition block_ptrs :: "bytes \<Rightarrow> nat list" where
  "block_ptrs blk = map (\<lambda>k. unat (from_le32 (slice (4 * k) (4 * k + 4) blk))) [0..<length blk div 4]"

primrec free_tree :: "nat \<Rightarrow> nat \<Rightarrow> ('d, nat) fs_action" where
  "free_tree 0 b = act_bind (free_block b) (\<lambda>_. act_return 1)"
| "free_tree (Suc depth) b =
     act_bind (in_cache (cache_read b (\<lambda>blk. Ok (filter (\<lambda>p. p \<noteq> 0) (block_ptrs blk))))) (\<lambda>ps.
     act_bind (act_fold (\<lambda>p n. act_bind (free_tree depth p) (\<lambda>m. act_lift (u32_add n m))) ps 1) (\<lambda>n.
     act_bind (free_block b) (\<lambda>_. act_return n)))"

definition free_slot :: "nat \<Rightarrow> unit \<Rightarrow> ('d, unit) node_action" where
  "free_slot slot _ =
     act_bind (node_gets (\<lambda>node. i_block node ! slot)) (\<lambda>b.
     act_bind (if b \<noteq> 0 then act_bind (in_fs (free_tree (slot - (NDIRECT - 1)) b)) (\<lambda>_. act_return ())
               else act_return ()) (\<lambda>_.
     node_update (\<lambda>node. node\<lparr>i_block := (i_block node)[slot := 0]\<rparr>)))"

definition free_data :: "('d, unit) node_action" where
  "free_data =
     act_bind (act_gets (\<lambda>(s, node). (block_size (f_geo s), is_fast_symlink node (block_size (f_geo s))))) (\<lambda>(bs, fast).
     act_bind
       (if \<not> fast then act_fold free_slot [0..<NBLOCKS] ()
        else node_update (\<lambda>node. node\<lparr>i_block := replicate NBLOCKS 0\<rparr>)) (\<lambda>_.
     node_update (\<lambda>node. node\<lparr>i_sectors := (if i_file_acl node \<noteq> 0 then bs div 512 else 0), i_size := 0\<rparr>)))"

text \<open>
  \<^verbatim>\<open>trim_tree\<close>, with the number of blocks freed so far as argument and result; it is
  called with a depth of 1 to 3.
\<close>

primrec trim_tree :: "nat \<Rightarrow> nat \<Rightarrow> nat \<Rightarrow> nat \<Rightarrow> nat \<Rightarrow> nat \<Rightarrow> ('d, bool \<times> nat) fs_action" where
  "trim_tree 0 b first span keep freed = act_panic"
| "trim_tree (Suc depth) b first span keep freed =
     (if first + span \<le> keep then act_return (False, freed)
      else if keep \<le> first then
        act_bind (free_tree (Suc depth) b) (\<lambda>n.
        act_bind (act_lift (u32_add freed n)) (\<lambda>freed. act_return (True, freed)))
      else
        act_bind (act_gets (\<lambda>s. span div ptrs (f_geo s))) (\<lambda>child.
        act_bind (in_cache (cache_read b (\<lambda>blk. Ok (block_ptrs blk)))) (\<lambda>ps.
        act_bind (act_fold (\<lambda>(i, ptr) freed.
            let at = first + i * child in
            if ptr = 0 \<or> at + child \<le> keep then act_return freed
            else
              act_bind
                (if depth = 0 then
                   act_bind (free_block ptr) (\<lambda>_.
                   act_bind (act_lift (u32_add freed 1)) (\<lambda>freed. act_return (True, freed)))
                 else trim_tree depth ptr at child keep freed) (\<lambda>(gone, freed).
              act_bind (act_when gone (in_cache (cache_modify b (\<lambda>blk.
                bind_result (put32 blk (i * 4) 0) (\<lambda>blk. Ok ((), blk)))))) (\<lambda>_.
              act_return freed))) (zip [0..<length ps] ps) freed) (\<lambda>freed.
        act_return (False, freed)))))"

definition trim_direct :: "nat \<Rightarrow> nat \<Rightarrow> ('d, nat) node_action" where
  "trim_direct slot freed =
     act_bind (node_gets (\<lambda>node. i_block node ! slot)) (\<lambda>b.
     if b \<noteq> 0 then
       act_bind (in_fs (free_block b)) (\<lambda>_.
       act_bind (node_update (\<lambda>node. node\<lparr>i_block := (i_block node)[slot := 0]\<rparr>)) (\<lambda>_.
       act_lift (u32_add freed 1)))
     else act_return freed)"

text \<open>One level of the loop over the indirect slots: where it starts, its span, the blocks freed.\<close>

definition trim_level :: "nat \<Rightarrow> nat \<Rightarrow> nat \<times> nat \<times> nat \<Rightarrow> ('d, nat \<times> nat \<times> nat) node_action" where
  "trim_level keep level = (\<lambda>(first, span, freed).
     act_bind (node_gets (\<lambda>node. i_block node ! (IND + level))) (\<lambda>b.
     act_bind
       (if b \<noteq> 0 then in_fs (trim_tree (level + 1) b first span keep freed) else act_return (False, freed)) (\<lambda>(gone, freed).
     act_bind (act_when gone (node_update (\<lambda>node. node\<lparr>i_block := (i_block node)[IND + level := 0]\<rparr>))) (\<lambda>_.
     act_bind (in_fs (act_gets (\<lambda>s. ptrs (f_geo s)))) (\<lambda>p.
     act_return (first + span, span * p, freed))))))"

definition shrink_data :: "nat \<Rightarrow> ('d, unit) node_action" where
  "shrink_data sz =
     act_bind (in_fs (act_gets f_geo)) (\<lambda>geo.
     let bs = block_size geo; keep = div_ceil sz bs; per = bs div 512 in
     act_bind
       (if sz mod bs \<noteq> 0 then
          act_bind (bmap (sz div bs) False) (\<lambda>b.
          act_when (b \<noteq> 0) (in_fs (in_cache (cache_modify b (\<lambda>blk.
            bind_result (put_range (sz mod bs) (length blk) (replicate (length blk - sz mod bs) 0) blk) (\<lambda>blk. Ok ((), blk)))))))
        else act_return ()) (\<lambda>_.
     act_bind (act_fold trim_direct [min keep NDIRECT..<NDIRECT] 0) (\<lambda>freed.
     act_bind (act_fold (trim_level keep) [0, 1, 2] (NDIRECT, ptrs geo, freed)) (\<lambda>(_, _, freed).
     act_bind (node_gets i_sectors) (\<lambda>sectors.
     if u32_MAX < freed * per \<or> sectors < freed * per then act_panic
     else node_update (\<lambda>node. node\<lparr>i_sectors := sectors - freed * per\<rparr>))))))"

definition resize_data :: "nat \<Rightarrow> ('d, unit) node_action" where
  "resize_data sz =
     act_bind (act_gets (\<lambda>(s, node). (f_geo s, i_size node))) (\<lambda>(geo, old).
     if u32_MAX < sz \<and> \<not> large_file geo then act_fail TooBig
     else
       act_bind (if sz < old then shrink_data sz else act_return ()) (\<lambda>_.
       node_update (\<lambda>node. node\<lparr>i_size := sz\<rparr>)))"

section \<open>Inodes on disk\<close>

text \<open>The fields of an inode as they are stored.\<close>

primrec pointer_fields :: "nat list \<Rightarrow> nat \<Rightarrow> fields" where
  "pointer_fields [] off = []"
| "pointer_fields (p # ps) off = (off, to_le32 (word_of_nat p)) # pointer_fields ps (off + 4)"

definition inode_fields :: "inode \<Rightarrow> fields" where
  "inode_fields node =
     [(0, to_le16 (i_mode node)), (4, to_le32 (word_of_nat (i_size node))), (8, to_le32 (i_atime node)),
      (12, to_le32 (i_ctime node)), (16, to_le32 (i_mtime node)), (20, to_le32 (i_dtime node)),
      (26, to_le16 (word_of_nat (i_links node))), (28, to_le32 (word_of_nat (i_sectors node))),
      (32, to_le32 (i_flags node))] @ pointer_fields (i_block node) 40 @
     (104, to_le32 (word_of_nat (i_file_acl node))) #
     (if inode_kind node = File then [(108, to_le32 (word_of_nat (i_size node div 2 ^ 32)))] else [])"

lemma put_pointers_fields: "put_pointers ps off b = put_all (pointer_fields ps off) b"
  by (induction ps arbitrary: off b) (simp_all add: put32_def)

lemma inode_store_fields: "inode_store node b = put_all (inode_fields node) b"
  unfolding inode_store_def inode_fields_def put_all_append put_pointers_fields put16_def put32_def
  by (simp add: put_all_append bind_result_assoc bind_result_Ok_id cong: bind_result_cong)

lemma pointer_fields_in:
  "fields_in lo (pointer_fields ps off @ gs) hi \<longleftrightarrow>
     (if ps = [] then fields_in lo gs hi else lo \<le> off \<and> fields_in (off + 4 * length ps) gs hi)"
proof (induction ps arbitrary: lo off)
  case (Cons p ps)
  then show ?case by (cases "ps = []") (simp_all add: algebra_simps)
qed simp

lemma get_pointers_fields:
  "fields_hold (pointer_fields ps off) b \<Longrightarrow> list_all (\<lambda>p. p < 2 ^ 32) ps \<Longrightarrow>
    get_pointers b off (length ps) = (Ok ps :: (nat list, 'e) result)"
proof (induction ps arbitrary: off)
  case (Cons p ps)
  then have "get32 b off = (Ok (word_of_nat p) :: (u32, 'e) result)" by (simp add: get_as_slice)
  with Cons show ?case by (simp add: get32n_def unat_of_nat)
qed simp

lemma pointers_get_fields:
  "get_pointers b off n = (Ok ps :: (nat list, 'e) result) \<Longrightarrow>
    length ps = n \<and> list_all (\<lambda>p. p < 2 ^ 32) ps \<and> fields_hold (pointer_fields ps off) b"
proof (induction n arbitrary: off ps)
  case (Suc n)
  then obtain w qs where w: "get32 b off = (Ok w :: (u32, 'e) result)" and q: "get_pointers b (off + 4) n = (Ok qs :: (nat list, 'e) result)"
    and ps: "ps = unat w # qs" by (auto simp: get32n_def elim!: bind_resultE)
  have "unat w < 2 ^ 32" using unat_bounds(3) [of w] by simp
  with Suc.IH [OF q] w ps show ?case by (simp add: get_as_slice)
qed simp

definition wf_inode :: "inode \<Rightarrow> bool" where
  "wf_inode node \<longleftrightarrow>
     length (i_block node) = NBLOCKS \<and> list_all (\<lambda>p. p < 2 ^ 32) (i_block node) \<and>
     i_links node < 2 ^ 16 \<and> i_sectors node < 2 ^ 32 \<and> i_file_acl node < 2 ^ 32 \<and>
     i_size node < (if inode_kind node = File then 2 ^ 64 else 2 ^ 32)"

lemma inode_fields_in: "length (i_block node) = NBLOCKS \<Longrightarrow> 112 \<le> n \<Longrightarrow> fields_in 0 (inode_fields node) n"
  by (auto simp: inode_fields_def pointer_fields_in NBLOCKS_def)

lemma kind_file: "inode_kind node = File \<longleftrightarrow> i_mode node AND E_IFMT = E_IFREG"
  by (auto simp: inode_kind_def mode_kind_def Let_def)

lemma inode_parse_fields:
  assumes wf: "wf_inode node" and hold: "fields_hold (inode_fields node) b"
  shows "inode_parse b = (Ok node :: (inode, 'e) result)"
proof -
  let ?high = "if i_mode node AND E_IFMT = E_IFREG then i_size node div 2 ^ 32 else 0"
  have n32: "get32n b off = (Ok n :: (nat, 'e) result)" if "n < 2 ^ 32" "off + 4 \<le> length b" "slice off (off + 4) b = to_le32 (word_of_nat n)" for off n
  proof -
    have "get32 b off = (Ok (word_of_nat n) :: (u32, 'e) result)" using that by (simp add: get_as_slice)
    then show ?thesis using that(1) by (simp add: get32n_def unat_of_nat)
  qed
  have low: "get32 b 4 = (Ok (word_of_nat (i_size node)) :: (u32, 'e) result)" using hold by (simp add: inode_fields_def get_as_slice)
  then have low: "get32n b 4 = (Ok (i_size node mod 2 ^ 32) :: (nat, 'e) result)" by (simp add: get32n_def unat_of_nat)
  have mode: "get16 b 0 = (Ok (i_mode node) :: (u16, 'e) result)" using hold by (simp add: inode_fields_def get_as_slice)
  have ptrs: "get_pointers b 40 NBLOCKS = (Ok (i_block node) :: (nat list, 'e) result)"
    using get_pointers_fields [of "i_block node" 40 b] hold wf by (simp add: inode_fields_def wf_inode_def)
  have high: "(if i_mode node AND E_IFMT = E_IFREG then get32n b 108 else Ok 0) = (Ok ?high :: (nat, 'e) result)"
  proof (cases "i_mode node AND E_IFMT = E_IFREG")
    case True
    then have "i_size node < 2 ^ 32 * 2 ^ 32" using wf by (simp add: wf_inode_def kind_file)
    then have "i_size node div 2 ^ 32 < 2 ^ 32" by (rule less_mult_imp_div_less)
    moreover have "108 + 4 \<le> length b" "slice 108 (108 + 4) b = to_le32 (word_of_nat (i_size node div 2 ^ 32))"
      using hold True by (simp_all add: inode_fields_def kind_file)
    ultimately have "get32n b 108 = (Ok (i_size node div 2 ^ 32) :: (nat, 'e) result)" by (rule n32)
    then show ?thesis using True by (simp only: if_True simp_thms)
  qed simp
  have size: "i_size node mod 2 ^ 32 + ?high * 2 ^ 32 = i_size node"
  proof (cases "i_mode node AND E_IFMT = E_IFREG")
    case True
    then show ?thesis by (simp only: if_True simp_thms mod_div_mult_eq)
  next
    case False
    then have "i_size node < 2 ^ 32" using wf by (simp add: wf_inode_def kind_file)
    then show ?thesis using False by simp
  qed
  have times: "get32 b 8 = (Ok (i_atime node) :: (u32, 'e) result)" "get32 b 12 = (Ok (i_ctime node) :: (u32, 'e) result)"
    "get32 b 16 = (Ok (i_mtime node) :: (u32, 'e) result)" "get32 b 20 = (Ok (i_dtime node) :: (u32, 'e) result)"
    "get32 b 32 = (Ok (i_flags node) :: (u32, 'e) result)"
    using hold by (simp_all add: inode_fields_def get_as_slice)
  have links: "get16 b 26 = (Ok (word_of_nat (i_links node)) :: (u16, 'e) result)" "unat (word_of_nat (i_links node) :: u16) = i_links node"
    using hold wf by (simp_all add: inode_fields_def get_as_slice wf_inode_def unat_of_nat)
  have rest: "get32n b 28 = (Ok (i_sectors node) :: (nat, 'e) result)" "get32n b 104 = (Ok (i_file_acl node) :: (nat, 'e) result)"
    by (rule n32, use hold wf in \<open>simp_all add: inode_fields_def wf_inode_def\<close>)+
  show ?thesis
    unfolding inode_parse_def mode ptrs bind_result.simps high low times links rest size by simp
qed

lemma get_total:
  "off + 2 \<le> length b \<Longrightarrow> \<exists>v. get16 b off = (Ok v :: (u16, 'e) result)"
  "off + 4 \<le> length b \<Longrightarrow> \<exists>w. get32 b off = (Ok w :: (u32, 'e) result)"
  "off + 4 \<le> length b \<Longrightarrow> \<exists>n. get32n b off = (Ok n :: (nat, 'e) result)"
  by (simp_all add: get_ok get32n_def)

lemma get32n_slice:
  assumes "get32n b off = (Ok n :: (nat, 'e) result)"
  shows "n < 2 ^ 32" "off + 4 \<le> length b" "slice off (off + 4) b = to_le32 (word_of_nat n)"
proof -
  from assms obtain w where w: "get32 b off = (Ok w :: (u32, 'e) result)" "n = unat w"
    by (auto simp: get32n_def elim!: bind_resultE)
  then show "n < 2 ^ 32" "off + 4 \<le> length b" "slice off (off + 4) b = to_le32 (word_of_nat n)"
    using unat_bounds(3) [of w] by (simp_all add: get_as_slice)
qed

lemma fields_inode_parse:
  assumes "inode_parse b = (Ok node :: (inode, 'e) result)"
  shows "wf_inode node \<and> fields_hold (inode_fields node) b"
proof -
  from assms obtain mode block high low atime ctime mtime dtime links sectors flags acl where
    g: "get16 b 0 = (Ok mode :: (u16, 'e) result)" "get_pointers b 40 NBLOCKS = (Ok block :: (nat list, 'e) result)"
    "(if mode AND E_IFMT = E_IFREG then get32n b 108 else Ok 0) = (Ok high :: (nat, 'e) result)"
    "get32n b 4 = (Ok low :: (nat, 'e) result)" "get32 b 8 = (Ok atime :: (u32, 'e) result)"
    "get32 b 12 = (Ok ctime :: (u32, 'e) result)" "get32 b 16 = (Ok mtime :: (u32, 'e) result)"
    "get32 b 20 = (Ok dtime :: (u32, 'e) result)" "get16 b 26 = (Ok links :: (u16, 'e) result)"
    "get32n b 28 = (Ok sectors :: (nat, 'e) result)" "get32 b 32 = (Ok flags :: (u32, 'e) result)"
    "get32n b 104 = (Ok acl :: (nat, 'e) result)"
    and node: "node = \<lparr>i_mode = mode, i_size = low + high * 2 ^ 32, i_atime = atime, i_ctime = ctime, i_mtime = mtime,
         i_dtime = dtime, i_links = unat links, i_sectors = sectors, i_flags = flags, i_block = block, i_file_acl = acl\<rparr>"
    unfolding inode_parse_def by (elim bind_resultE) (rule that, assumption+, simp only: result.inject)
  note low = get32n_slice [OF g(4)] and sec = get32n_slice [OF g(10)] and acl = get32n_slice [OF g(12)]
  note ptr = pointers_get_fields [OF g(2)]
  have kind: "inode_kind node = File \<longleftrightarrow> mode AND E_IFMT = E_IFREG" by (simp add: kind_file node)
  have hi: "high < 2 ^ 32" "inode_kind node = File \<Longrightarrow> 108 + 4 \<le> length b \<and> slice 108 (108 + 4) b = to_le32 (word_of_nat high)"
    "inode_kind node \<noteq> File \<Longrightarrow> high = 0"
    using g(3) get32n_slice [of b 108 high] unfolding kind by (auto split: if_splits)
  have sel: "i_mode node = mode" "i_atime node = atime" "i_ctime node = ctime" "i_mtime node = mtime" "i_dtime node = dtime"
    "i_links node = unat links" "i_sectors node = sectors" "i_flags node = flags" "i_block node = block" "i_file_acl node = acl"
    and size: "i_size node = low + high * 2 ^ 32" by (simp_all add: node)
  have w: "(word_of_nat (i_size node) :: u32) = word_of_nat low"
    unfolding size word_of_nat_eq_iff take_bit_eq_mod by simp
  have d: "i_size node div 2 ^ 32 = high" unfolding size using low(1) by simp
  have "i_size node < 2 ^ 64" unfolding size using low(1) hi(1) by simp
  moreover have "i_size node < 2 ^ 32" if "inode_kind node \<noteq> File" using that hi(3) low(1) by (simp add: size)
  ultimately have "wf_inode node"
    unfolding wf_inode_def sel using ptr sec(1) acl(1) unat_bounds(2) [of links] by simp
  moreover have "fields_hold (inode_fields node) b"
    unfolding inode_fields_def sel w d using g(1,5-9,11) low(2,3) sec(2,3) acl(2,3) ptr hi(2) by (simp add: get_as_slice)
  ultimately show ?thesis ..
qed

lemma pointer_fields_miss:
  "c + m \<le> off \<or> off + 4 * length ps \<le> c \<Longrightarrow> fields_miss (pointer_fields ps off) c m"
proof (induction ps arbitrary: off)
  case (Cons p ps)
  have "c + m \<le> off + 4 \<or> off + 4 + 4 * length ps \<le> c" using Cons.prems by auto
  then show ?case using Cons.IH [of "off + 4"] Cons.prems by auto
qed simp

text \<open>The bytes of an inode the file system does not use: owner and group ids, reserved words.\<close>

definition inode_gap :: "nat \<Rightarrow> nat \<Rightarrow> bool" where
  "inode_gap c m \<longleftrightarrow> (c, m) \<in> set [(2, 2), (24, 2), (36, 4), (100, 4)] \<or> 112 \<le> c"

lemma inode_gap_miss:
  assumes "length (i_block node) = NBLOCKS" and "inode_gap c m"
  shows "fields_miss (inode_fields node) c m"
proof -
  have "fields_miss (pointer_fields (i_block node) 40) c m"
    by (rule pointer_fields_miss) (use assms in \<open>auto simp: inode_gap_def NBLOCKS_def\<close>)
  with assms(2) show ?thesis by (auto simp: inode_gap_def inode_fields_def)
qed

lemma get_pointers_total:
  "off + 4 * n \<le> length b \<Longrightarrow> \<exists>ps. get_pointers b off n = (Ok ps :: (nat list, 'e) result)"
proof (induction n arbitrary: off)
  case (Suc n)
  from Suc.IH [of "off + 4"] get_total(3) [of off b, where 'e = 'e] Suc.prems show ?case by auto
qed simp

text \<open>The target of a fast symbolic link in the pointers.\<close>

lemma inline_slice:
  "get_pointers b off n = (Ok ps :: (nat list, 'e) result) \<Longrightarrow> off + 4 * n \<le> length b \<Longrightarrow>
    concat (map (\<lambda>p. to_le32 (word_of_nat p)) ps) = slice off (off + 4 * n) b"
proof (induction n arbitrary: off ps)
  case (Suc n)
  then obtain w qs where w: "get32 b off = (Ok w :: (u32, 'e) result)" and q: "get_pointers b (off + 4) n = (Ok qs :: (nat list, 'e) result)"
    and ps: "ps = unat w # qs" by (auto simp: get32n_def elim!: bind_resultE)
  have "to_le32 w = take 4 (drop off b)" using w Suc.prems(2) by (auto simp: get_as_slice slice_def)
  moreover have "concat (map (\<lambda>p. to_le32 (word_of_nat p)) qs) = take (4 * n) (drop (off + 4) b)"
    using Suc.IH [OF q] Suc.prems(2) by (simp add: slice_def)
  ultimately show ?case unfolding ps slice_def using take_add [of 4 "4 * n" "drop off b"] by (simp add: add.commute)
qed (simp add: slice_def)

lemma set_inline_exact:
  assumes "length target \<le> inline_capacity"
  shows "\<exists>block. set_inline target node = (Ok (node\<lparr>i_block := block, i_size := length target\<rparr>) :: (inode, 'e) result) \<and>
    inode_inline (node\<lparr>i_block := block, i_size := length target\<rparr>) = target @ replicate (inline_capacity - length target) 0"
proof -
  let ?raw = "target @ replicate (inline_capacity - length target) (0 :: u8)"
  have raw: "put_range 0 (length target) target (replicate (NBLOCKS * 4) 0) = (Ok ?raw :: (bytes, 'e) result)"
    using assms by (simp add: put_range_def splice_def inline_capacity_def)
  have len: "length ?raw = 4 * NBLOCKS" using assms by (simp add: inline_capacity_def)
  obtain block where b: "get_pointers ?raw 0 NBLOCKS = (Ok block :: (nat list, 'e) result)"
    using get_pointers_total [of 0 NBLOCKS ?raw] len by auto
  from inline_slice [OF b] len have "concat (map (\<lambda>p. to_le32 (word_of_nat p)) block) = ?raw" by (simp add: slice_def)
  then show ?thesis using raw b by (auto simp: set_inline_def inode_inline_def)
qed

lemma length_inline: "length (inode_inline node) = 4 * length (i_block node)"
  by (simp add: inode_inline_def length_concat o_def sum_list_triv)

lemma inode_parse_total:
  assumes "112 \<le> length b"
  shows "\<exists>node. inode_parse b = (Ok node :: (inode, 'e) result)"
proof -
  obtain block where "get_pointers b 40 NBLOCKS = (Ok block :: (nat list, 'e) result)"
    using get_pointers_total [of 40 NBLOCKS b] assms by (auto simp: NBLOCKS_def)
  then show ?thesis using assms by (simp add: inode_parse_def get_ok get32n_def)
qed

text \<open>
  C36. The inode on disk and the inode in memory correspond: reading an inode and writing it back changes
  no byte of the table, and every inode whose fields fit their widths is read back as it was written,
  with the owner ids and reserved words between the fields left as they were.
\<close>
theorem inode_round_trip:
  assumes "112 \<le> length b"
  shows "(\<exists>node. inode_parse b = (Ok node :: (inode, ext2_error) result) \<and> wf_inode node \<and> inode_store node b = (Ok b :: (bytes, ext2_error) result)) \<and>
    (\<forall>node. wf_inode node \<longrightarrow> (\<exists>b'. inode_store node b = (Ok b' :: (bytes, ext2_error) result) \<and> length b' = length b \<and>
       inode_parse b' = (Ok node :: (inode, ext2_error) result) \<and>
       (\<forall>c m. inode_gap c m \<and> c + m \<le> length b \<longrightarrow> slice c (c + m) b' = slice c (c + m) b)))"
proof -
  obtain node where "inode_parse b = (Ok node :: (inode, ext2_error) result)" using assms inode_parse_total by blast
  with fields_inode_parse [OF this] have "wf_inode node \<and> inode_store node b = (Ok b :: (bytes, ext2_error) result)"
    by (simp add: inode_store_fields put_all_same)
  moreover have "\<exists>b'. inode_store node b = (Ok b' :: (bytes, ext2_error) result) \<and> length b' = length b \<and>
       inode_parse b' = (Ok node :: (inode, ext2_error) result) \<and>
       (\<forall>c m. inode_gap c m \<and> c + m \<le> length b \<longrightarrow> slice c (c + m) b' = slice c (c + m) b)"
    if wf: "wf_inode node" for node
  proof -
    have fi: "fields_in 0 (inode_fields node) (length b)"
      by (rule inode_fields_in) (use wf assms in \<open>simp_all add: wf_inode_def\<close>)
    have "slice c (c + m) (overlay (inode_fields node) b) = slice c (c + m) b"
      if "inode_gap c m" "c + m \<le> length b" for c m
      by (rule overlay_miss [OF fi inode_gap_miss [OF _ that(1)] that(2)]) (use wf in \<open>simp add: wf_inode_def\<close>)
    then show ?thesis
      by (intro exI [of _ "overlay (inode_fields node) b"])
         (simp add: inode_store_fields put_all_overlay [OF fi] inode_parse_fields [OF wf overlay_hold [OF fi]])
  qed
  ultimately show ?thesis using \<open>inode_parse b = _\<close> by blast
qed

theorem inode_round_trip_witness:
  "\<exists>b'. inode_store (inode_new 0x81A4 7) (replicate 128 1) = (Ok b' :: (bytes, ext2_error) result) \<and>
     inode_parse b' = (Ok (inode_new 0x81A4 7) :: (inode, ext2_error) result)"
proof -
  have "wf_inode (inode_new 0x81A4 7)" by (simp add: wf_inode_def inode_new_def NBLOCKS_def list_all_iff)
  with inode_round_trip [of "replicate 128 1"] show ?thesis by auto
qed

section \<open>Addresses of blocks\<close>

text \<open>The digits of a path in base \<open>p\<close>, and the logical block a slot and path stand for.\<close>

definition path_value :: "nat \<Rightarrow> nat list \<Rightarrow> nat" where
  "path_value p is = foldl (\<lambda>a i. a * p + i) 0 is"

definition logical_block :: "nat \<Rightarrow> nat \<Rightarrow> nat list \<Rightarrow> nat" where
  "logical_block p slot is =
     (if slot < NDIRECT then slot else NDIRECT + (\<Sum>j < slot - NDIRECT. p ^ (j + 1)) + path_value p is)"

lemma map_index_value:
  assumes "0 < p"
  shows "foldl (\<lambda>a i. a * p + i) acc (map_index p rest (p ^ k) (Suc k)) = acc * p ^ Suc k + rest mod p ^ Suc k"
proof (induction k arbitrary: acc)
  case (Suc k)
  have d: "p ^ Suc k div p = p ^ k" using assms by simp
  let ?d = "rest div p ^ Suc k mod p"
  have "foldl (\<lambda>a i. a * p + i) acc (map_index p rest (p ^ Suc k) (Suc (Suc k))) =
      foldl (\<lambda>a i. a * p + i) (acc * p + ?d) (map_index p rest (p ^ k) (Suc k))"
    by (subst map_index.simps(2)) (simp only: foldl.simps d)
  also have "\<dots> = (acc * p + ?d) * p ^ Suc k + rest mod p ^ Suc k" by (rule Suc.IH)
  also have "\<dots> = acc * p ^ Suc (Suc k) + (p ^ Suc k * ?d + rest mod p ^ Suc k)" by (simp add: algebra_simps)
  also have "p ^ Suc k * ?d + rest mod p ^ Suc k = rest mod (p ^ Suc k * p)" by (simp only: mod_mult2_eq)
  finally show ?case by (simp only: power_Suc2 [of p "Suc k"])
qed simp

lemma map_index_digits: "0 < p \<Longrightarrow> length (map_index p rest dv k) = k \<and> list_all (\<lambda>i. i < p) (map_index p rest dv k)"
  by (induction k arbitrary: dv) simp_all

lemma map_level:
  assumes "0 < p" and "rest < p ^ Suc k"
  shows "path_value p (map_index p rest (p ^ Suc k div p) (k + 1)) = rest"
proof -
  have "p ^ Suc k div p = p ^ k" using assms(1) by simp
  then show ?thesis using map_index_value [OF assms(1), of 0 rest k] assms(2) by (simp only: path_value_def Suc_eq_plus1) simp
qed

text \<open>
  C37. The block map addresses every logical block up to the triple indirect limit by exactly one path: a
  slot of the inode and in-range indices, as many as the slot has levels, from which the block
  number is computed back; a block past the limit is refused as too big.
\<close>
theorem map_path_exact:
  assumes "wf_geometry geo" and "p = ptrs geo"
  shows "if n < NDIRECT + p + p ^ 2 + p ^ 3
    then \<exists>slot is. map_path geo n = Ok (slot, is) \<and> slot < NBLOCKS \<and> length is = slot + 1 - NDIRECT \<and>
      list_all (\<lambda>i. i < p) is \<and> logical_block p slot is = n
    else map_path geo n = Err TooBig"
proof -
  have p: "0 < p" using assms by (auto simp: wf_geometry_def ptrs_def)
  have found: ?thesis
    if run: "map_path geo n = Ok (NDIRECT + k, map_index p rest (p ^ Suc k div p) (k + 1))" and "k < 3"
      and rest: "rest < p ^ Suc k" "n = NDIRECT + (\<Sum>j < k. p ^ (j + 1)) + rest" "n < NDIRECT + p + p ^ 2 + p ^ 3" for k rest
  proof -
    define path where "path = map_index p rest (p ^ Suc k div p) (k + 1)"
    have "length path = k + 1" "list_all (\<lambda>i. i < p) path"
      unfolding path_def using map_index_digits [OF p, of rest "p ^ Suc k div p" "k + 1"] by blast+
    moreover have "path_value p path = rest" unfolding path_def by (rule map_level [OF p rest(1)])
    then have "logical_block p (NDIRECT + k) path = n" using rest(2) by (simp add: logical_block_def)
    moreover have "NDIRECT + k < NBLOCKS" using that(2) by (simp add: NDIRECT_def NBLOCKS_def)
    moreover note run [folded path_def]
    ultimately show ?thesis using rest(3) by simp
  qed
  have sq: "p ^ 2 = p * p" "p ^ 3 = p * p * p" by (simp_all add: power2_eq_square power3_eq_cube)
  consider (direct) "n < NDIRECT" | (one) "NDIRECT \<le> n" "n - NDIRECT < p"
    | (two) "NDIRECT + p \<le> n" "n - NDIRECT - p < p * p"
    | (three) "NDIRECT + p + p * p \<le> n" "n - NDIRECT - p - p * p < p * p * p"
    | (big) "NDIRECT + p + p * p + p * p * p \<le> n" by linarith
  then show ?thesis
  proof cases
    case direct
    then show ?thesis by (simp add: map_path_def logical_block_def NDIRECT_def NBLOCKS_def)
  next
    case one
    show ?thesis
      by (rule found [of 0 "n - NDIRECT"])
         (use one in \<open>simp_all add: map_path_def assms(2) [symmetric] IND_def NDIRECT_def sq\<close>)
  next
    case two
    show ?thesis
      by (rule found [of 1 "n - NDIRECT - p"])
         (use two in \<open>simp_all add: map_path_def assms(2) [symmetric] IND_def NDIRECT_def sq\<close>)
  next
    case three
    then have "\<not> n - NDIRECT < p" "\<not> n - NDIRECT - p < p * p" by linarith+
    note facts = this three
    show ?thesis
      by (rule found [of 2 "n - NDIRECT - p - p * p"])
         (use facts in \<open>simp_all add: map_path_def assms(2) [symmetric] IND_def NDIRECT_def sq numeral_2_eq_2\<close>)
  next
    case big
    then have "\<not> n - NDIRECT < p" "\<not> n - NDIRECT - p < p * p" "\<not> n - NDIRECT - p - p * p < p * p * p" by linarith+
    with big show ?thesis by (simp add: map_path_def assms(2) [symmetric] NDIRECT_def sq)
  qed
qed

theorem map_path_exact_witness:
  "\<exists>is. map_path tiny_geo 12345 = Ok (13, is) \<and> logical_block 256 13 is = 12345"
proof -
  have p: "256 = ptrs tiny_geo" by (simp add: ptrs_def tiny_geo_def)
  have "map_path tiny_geo 12345 = Ok (13, [47, 45])"
    by (simp add: map_path_def p [symmetric] NDIRECT_def IND_def)
  with map_path_exact [OF geometry_parse_wf [OF tiny_parse] p, of 12345] show ?thesis by (auto simp: NDIRECT_def)
qed

end
