(* ===== verification/Ext2_Dir.thy ===== *)
theory Ext2_Dir
  imports Ext2_Inode
begin

text \<open>
  Directories of ext2 (\<^verbatim>\<open>modules/ext2/ext2fs/src/dir.rs\<close>): the entries of a directory
  block, and adding, finding, listing and removing a name. A block is seen as the list
  of its names with their inodes (\<open>block_names\<close>): the lemmas on blocks that agree on a
  range show which entries a change leaves alone, and \<open>dir_block_list\<close> that finding,
  adding and removing a name are a lookup, an insertion and a deletion in that list.
\<close>

section \<open>Entries of a block\<close>

definition entry_size :: "nat \<Rightarrow> nat" where
  "entry_size n = (8 + n + 3) div 4 * 4"

record dir_entry =
  e_off :: nat
  e_ino :: nat
  e_rec_len :: nat
  e_name_len :: nat

definition entry_at :: "bytes \<Rightarrow> bool \<Rightarrow> nat \<Rightarrow> dir_entry" where
  "entry_at blk ft off =
     \<lparr>e_off = off, e_ino = unat (from_le32 (slice off (off + 4) blk)),
      e_rec_len = unat (from_le16 (slice (off + 4) (off + 6) blk)),
      e_name_len = (if ft then unat (blk ! (off + 6)) else unat (from_le16 (slice (off + 6) (off + 8) blk)))\<rparr>"

definition entry_ok :: "bytes \<Rightarrow> dir_entry \<Rightarrow> bool" where
  "entry_ok blk e \<longleftrightarrow>
     8 \<le> e_rec_len e \<and> e_rec_len e mod 4 = 0 \<and> e_off e + e_rec_len e \<le> length blk \<and> 8 + e_name_len e \<le> e_rec_len e"

function entries_from :: "bytes \<Rightarrow> bool \<Rightarrow> nat \<Rightarrow> dir_entry list" where
  "entries_from blk ft off =
     (if off + 8 \<le> length blk \<and> entry_ok blk (entry_at blk ft off)
      then entry_at blk ft off # entries_from blk ft (off + e_rec_len (entry_at blk ft off))
      else [])"
  by pat_completeness auto
termination
  by (relation "measure (\<lambda>(blk, ft, off). length blk - off)") (auto simp: entry_ok_def entry_at_def)

declare entries_from.simps [simp del]

definition entries :: "bytes \<Rightarrow> bool \<Rightarrow> dir_entry list" where
  "entries blk ft = entries_from blk ft 0"

definition entry_name :: "bytes \<Rightarrow> dir_entry \<Rightarrow> bytes" where
  "entry_name blk e = slice (e_off e + 8) (e_off e + 8 + e_name_len e) blk"

definition put_byte :: "bytes \<Rightarrow> nat \<Rightarrow> u8 \<Rightarrow> (bytes, 'e) result" where
  "put_byte b i v = (if i < length b then Ok (b[i := v]) else Panic)"

definition put_entry ::
  "bytes \<Rightarrow> nat \<Rightarrow> nat \<Rightarrow> nat \<Rightarrow> bytes \<Rightarrow> u8 \<Rightarrow> bool \<Rightarrow> (bytes, 'e) result" where
  "put_entry blk off ino rec_len name ft ftype =
     bind_result (put32 blk off (word_of_nat ino)) (\<lambda>blk.
     bind_result (put16 blk (off + 4) (word_of_nat rec_len)) (\<lambda>blk.
     bind_result
       (if ftype then
          bind_result (put_byte blk (off + 6) (word_of_nat (length name))) (\<lambda>blk. put_byte blk (off + 7) ft)
        else put16 blk (off + 6) (word_of_nat (length name))) (\<lambda>blk.
     put_range (off + 8) (off + 8 + length name) name blk)))"

section \<open>One block\<close>

definition names_it :: "bytes \<Rightarrow> bytes \<Rightarrow> dir_entry \<Rightarrow> bool" where
  "names_it blk name e \<longleftrightarrow> e_ino e \<noteq> 0 \<and> entry_name blk e = name"

definition used_size :: "dir_entry \<Rightarrow> nat" where
  "used_size e = (if e_ino e = 0 then 0 else entry_size (e_name_len e))"

definition fits :: "nat \<Rightarrow> dir_entry \<Rightarrow> bool" where
  "fits need e \<longleftrightarrow> need \<le> e_rec_len e - used_size e"

definition block_lookup :: "bytes \<Rightarrow> bool \<Rightarrow> bytes \<Rightarrow> (nat \<times> u8) option" where
  "block_lookup blk ft name =
     map_option (\<lambda>e. (e_ino e, if ft then blk ! (e_off e + 7) else 0)) (List.find (names_it blk name) (entries blk ft))"

definition block_add :: "bytes \<Rightarrow> bool \<Rightarrow> bytes \<Rightarrow> nat \<Rightarrow> u8 \<Rightarrow> (bool \<times> bytes, 'e) result" where
  "block_add blk ftype name ino ft =
     (case List.find (fits (entry_size (length name))) (entries blk ftype) of
        None \<Rightarrow> Ok (False, blk)
      | Some e \<Rightarrow>
          bind_result (if e_ino e \<noteq> 0 then put16 blk (e_off e + 4) (word_of_nat (used_size e)) else Ok blk) (\<lambda>blk.
          bind_result (put_entry blk (e_off e + used_size e) ino (e_rec_len e - used_size e) name ft ftype) (\<lambda>blk.
          Ok (True, blk))))"

definition block_remove :: "bytes \<Rightarrow> bool \<Rightarrow> bytes \<Rightarrow> (nat option \<times> bytes, 'e) result" where
  "block_remove blk ftype name =
     (let es = entries blk ftype in
      case position (names_it blk name) es of
        None \<Rightarrow> Ok (None, blk)
      | Some i \<Rightarrow>
          bind_result
            (if i = 0 then put32 blk (e_off (es ! i)) 0
             else put16 blk (e_off (es ! (i - 1)) + 4) (word_of_nat (e_rec_len (es ! (i - 1)) + e_rec_len (es ! i)))) (\<lambda>blk.
          Ok (Some (e_ino (es ! i)), blk)))"

definition block_set_ino :: "bytes \<Rightarrow> bool \<Rightarrow> bytes \<Rightarrow> nat \<Rightarrow> (bool \<times> bytes, 'e) result" where
  "block_set_ino blk ftype name ino =
     (case List.find (names_it blk name) (entries blk ftype) of
        None \<Rightarrow> Ok (False, blk)
      | Some e \<Rightarrow> bind_result (put32 blk (e_off e) (word_of_nat ino)) (\<lambda>blk. Ok (True, blk)))"

section \<open>Directories\<close>

definition dir_blocks :: "inode \<Rightarrow> ('d, nat list) fs_action" where
  "dir_blocks dir =
     act_bind (act_gets (\<lambda>s. div_ceil (i_size dir) (block_size (f_geo s)))) (\<lambda>n.
     act_fold (\<lambda>i out.
       act_bind (bmap_of dir i) (\<lambda>b. act_return (if b \<noteq> 0 then out @ [b] else out))) [0..<n] [])"

text \<open>
  \<^verbatim>\<open>for_each_entry\<close> with a callback that keeps a value \<open>acc\<close> of its own and says
  whether to go on.
\<close>

fun visit :: "(bytes \<Rightarrow> nat \<Rightarrow> 'a \<Rightarrow> bool \<times> 'a) \<Rightarrow> (bytes \<times> nat) list \<Rightarrow> 'a \<Rightarrow> bool \<times> 'a" where
  "visit f [] acc = (True, acc)"
| "visit f ((name, ino) # es) acc =
     (case f name ino acc of (True, acc) \<Rightarrow> visit f es acc | (False, acc) \<Rightarrow> (False, acc))"

definition block_names :: "bytes \<Rightarrow> bool \<Rightarrow> (bytes \<times> nat) list" where
  "block_names blk ft = map (\<lambda>e. (entry_name blk e, e_ino e)) (filter (\<lambda>e. e_ino e \<noteq> 0) (entries blk ft))"

primrec visit_blocks :: "(bytes \<Rightarrow> nat \<Rightarrow> 'a \<Rightarrow> bool \<times> 'a) \<Rightarrow> bool \<Rightarrow> nat list \<Rightarrow> 'a \<Rightarrow> ('d, 'a) fs_action" where
  "visit_blocks f ft [] acc = act_return acc"
| "visit_blocks f ft (b # bs) acc =
     act_bind (in_cache (cache_read b (\<lambda>blk. Ok (visit f (block_names blk ft) acc)))) (\<lambda>(go_on, acc).
     if go_on then visit_blocks f ft bs acc else act_return acc)"

definition for_each_entry :: "inode \<Rightarrow> (bytes \<Rightarrow> nat \<Rightarrow> 'a \<Rightarrow> bool \<times> 'a) \<Rightarrow> 'a \<Rightarrow> ('d, 'a) fs_action" where
  "for_each_entry dir f acc =
     act_bind (act_gets (\<lambda>s. filetype (f_geo s))) (\<lambda>ft.
     act_bind (dir_blocks dir) (\<lambda>bs. visit_blocks f ft bs acc))"

primrec lookup_in :: "bool \<Rightarrow> bytes \<Rightarrow> nat list \<Rightarrow> ('d, (nat \<times> u8) option) fs_action" where
  "lookup_in ft name [] = act_return None"
| "lookup_in ft name (b # bs) =
     act_bind (in_cache (cache_read b (\<lambda>blk. Ok (block_lookup blk ft name)))) (\<lambda>hit.
     if hit \<noteq> None then act_return hit else lookup_in ft name bs)"

definition dir_lookup :: "inode \<Rightarrow> bytes \<Rightarrow> ('d, (nat \<times> u8) option) fs_action" where
  "dir_lookup dir name =
     act_bind (act_gets (\<lambda>s. filetype (f_geo s))) (\<lambda>ft.
     act_bind (dir_blocks dir) (\<lambda>bs. lookup_in ft name bs))"

primrec add_in :: "bool \<Rightarrow> bytes \<Rightarrow> nat \<Rightarrow> u8 \<Rightarrow> nat list \<Rightarrow> ('d, bool) fs_action" where
  "add_in ftype name ino ft [] = act_return False"
| "add_in ftype name ino ft (b # bs) =
     act_bind (in_cache (cache_read b (\<lambda>blk. Ok (list_ex (fits (entry_size (length name))) (entries blk ftype))))) (\<lambda>room.
     if \<not> room then add_in ftype name ino ft bs
     else
       act_bind (in_cache (cache_modify b (\<lambda>blk. block_add blk ftype name ino ft))) (\<lambda>placed.
       if placed then act_return True else add_in ftype name ino ft bs))"

definition dir_add :: "nat \<Rightarrow> bytes \<Rightarrow> nat \<Rightarrow> u8 \<Rightarrow> ('d, unit) fs_action" where
  "dir_add dir_ino name ino file_type =
     act_bind (act_gets f_geo) (\<lambda>geo.
     let ftype = filetype geo; ft = (if ftype then file_type else 0); bs = block_size geo in
     act_bind (read_inode dir_ino) (\<lambda>dir.
     act_bind (dir_blocks dir) (\<lambda>blocks.
     act_bind (add_in ftype name ino ft blocks) (\<lambda>placed.
     if placed then
       (if i_flags dir AND INDEX_FL \<noteq> 0
        then write_inode dir_ino (dir\<lparr>i_flags := i_flags dir AND NOT INDEX_FL\<rparr>)
        else act_return ())
     else
       let n = i_size dir div bs in
       act_bind (with_node dir (bmap n True)) (\<lambda>(r, dir).
       act_bind (act_lift r) (\<lambda>b.
       act_bind (in_cache (cache_modify b (\<lambda>blk.
         bind_result (put_entry blk 0 ino bs name ft ftype) (\<lambda>blk. Ok ((), blk))))) (\<lambda>_.
       act_bind fs_now (\<lambda>now.
       write_inode dir_ino (dir\<lparr>i_size := (n + 1) * bs, i_flags := i_flags dir AND NOT INDEX_FL, i_mtime := now\<rparr>)))))))))"

primrec remove_in :: "bool \<Rightarrow> bytes \<Rightarrow> nat list \<Rightarrow> ('d, nat option) fs_action" where
  "remove_in ftype name [] = act_return None"
| "remove_in ftype name (b # bs) =
     act_bind (in_cache (cache_read b (\<lambda>blk. Ok (list_ex (names_it blk name) (entries blk ftype))))) (\<lambda>here.
     if \<not> here then remove_in ftype name bs
     else
       act_bind (in_cache (cache_modify b (\<lambda>blk. block_remove blk ftype name))) (\<lambda>removed.
       if removed \<noteq> None then act_return removed else remove_in ftype name bs))"

definition dir_remove :: "nat \<Rightarrow> bytes \<Rightarrow> ('d, nat) fs_action" where
  "dir_remove dir_ino name =
     act_bind (act_gets (\<lambda>s. filetype (f_geo s))) (\<lambda>ftype.
     act_bind (read_inode dir_ino) (\<lambda>dir.
     act_bind (dir_blocks dir) (\<lambda>blocks.
     act_bind (remove_in ftype name blocks) (\<lambda>removed.
     case removed of
       None \<Rightarrow> act_fail NotFound
     | Some ino \<Rightarrow>
         act_bind fs_now (\<lambda>now.
         act_bind (write_inode dir_ino (dir\<lparr>i_flags := i_flags dir AND NOT INDEX_FL, i_mtime := now\<rparr>)) (\<lambda>_.
         act_return ino))))))"

definition dir_init :: "nat \<Rightarrow> nat \<Rightarrow> ('d, unit) fs_action" where
  "dir_init ino parent =
     act_bind (act_gets f_geo) (\<lambda>geo.
     let ftype = filetype geo; ft = (if ftype then FT_DIR else 0); bs = block_size geo in
     act_bind (read_inode ino) (\<lambda>node.
     act_bind (with_node node (bmap 0 True)) (\<lambda>(r, node).
     act_bind (act_lift r) (\<lambda>b.
     act_bind (in_cache (cache_modify b (\<lambda>blk.
       bind_result (put_entry blk 0 ino 12 [0x2E] ft ftype) (\<lambda>blk.
       bind_result (usize_sub bs 12) (\<lambda>len.
       bind_result (put_entry blk 12 parent len [0x2E, 0x2E] ft ftype) (\<lambda>blk. Ok ((), blk))))))) (\<lambda>_.
     write_inode ino (node\<lparr>i_size := bs, i_links := 2\<rparr>))))))"

primrec set_parent_in :: "bool \<Rightarrow> nat \<Rightarrow> nat list \<Rightarrow> ('d, unit) fs_action" where
  "set_parent_in ftype parent [] = act_fail Invalid"
| "set_parent_in ftype parent (b # bs) =
     act_bind (in_cache (cache_modify b (\<lambda>blk. block_set_ino blk ftype [0x2E, 0x2E] parent))) (\<lambda>done.
     if done then act_return () else set_parent_in ftype parent bs)"

definition dir_set_parent :: "nat \<Rightarrow> nat \<Rightarrow> ('d, unit) fs_action" where
  "dir_set_parent ino parent =
     act_bind (act_gets (\<lambda>s. filetype (f_geo s))) (\<lambda>ftype.
     act_bind (read_inode ino) (\<lambda>node.
     act_bind (dir_blocks node) (\<lambda>blocks. set_parent_in ftype parent blocks)))"

definition dir_is_empty :: "inode \<Rightarrow> ('d, bool) fs_action" where
  "dir_is_empty dir =
     for_each_entry dir (\<lambda>name _ _. let dot = (name = [0x2E] \<or> name = [0x2E, 0x2E]) in (dot, dot)) True"

section \<open>Blocks that agree\<close>

definition agree :: "nat \<Rightarrow> nat \<Rightarrow> bytes \<Rightarrow> bytes \<Rightarrow> bool" where
  "agree a b x y \<longleftrightarrow> length x = length y \<and> (\<forall>i. a \<le> i \<and> i < b \<and> i < length y \<longrightarrow> x ! i = y ! i)"

lemma agree_sub: "agree a b x y \<Longrightarrow> a \<le> a' \<Longrightarrow> b' \<le> b \<Longrightarrow> agree a' b' x y"
  by (auto simp: agree_def)

lemma agree_sym: "agree a b x y \<Longrightarrow> agree a b y x"
  by (auto simp: agree_def)

lemma agree_slice: "agree a b x y \<Longrightarrow> a \<le> c \<Longrightarrow> d \<le> b \<Longrightarrow> d \<le> length y \<Longrightarrow> c \<le> d \<Longrightarrow> slice c d x = slice c d y"
  using slice_eqI [of x y c "d - c"] by (auto simp: agree_def)

lemma entry_at_agree:
  assumes "agree a b blk' blk" and "a \<le> off" and "off + 8 \<le> b" and "off + 8 \<le> length blk"
  shows "entry_at blk' ft off = entry_at blk ft off"
proof -
  have "slice off (off + 4) blk' = slice off (off + 4) blk" "slice (off + 4) (off + 6) blk' = slice (off + 4) (off + 6) blk"
    "slice (off + 6) (off + 8) blk' = slice (off + 6) (off + 8) blk"
    by (rule agree_slice [OF assms(1)]; use assms(2-) in simp)+
  moreover have "blk' ! (off + 6) = blk ! (off + 6)" using assms by (auto simp: agree_def)
  ultimately show ?thesis by (simp add: entry_at_def)
qed

lemma entries_from_Cons:
  "entries_from blk ft off = e # es \<longleftrightarrow>
     off + 8 \<le> length blk \<and> e = entry_at blk ft off \<and> entry_ok blk e \<and> es = entries_from blk ft (off + e_rec_len e)"
  by (subst entries_from.simps) auto

lemma e_off_at [simp]: "e_off (entry_at blk ft off) = off"
  by (simp add: entry_at_def)

lemma entry_ok_agree: "length blk' = length blk \<Longrightarrow> entry_ok blk' e = entry_ok blk e"
  by (simp add: entry_ok_def)

lemma entries_from_agree:
  assumes "agree a (length blk) blk' blk" and "a \<le> off"
  shows "entries_from blk' ft off = entries_from blk ft off"
  using assms
proof (induction blk ft off rule: entries_from.induct)
  case (1 blk ft off)
  have len: "length blk' = length blk" using 1(2) by (simp add: agree_def)
  show ?case
  proof (cases "off + 8 \<le> length blk \<and> entry_ok blk (entry_at blk ft off)")
    case True
    then have at: "entry_at blk' ft off = entry_at blk ft off" using entry_at_agree [OF 1(2,3)] by simp
    have "entries_from blk' ft (off + e_rec_len (entry_at blk ft off)) = entries_from blk ft (off + e_rec_len (entry_at blk ft off))"
      by (rule 1(1) [OF True 1(2)]) (use 1(3) in simp)
    then show ?thesis
      by (subst (1 2) entries_from.simps) (simp add: True at len entry_ok_agree [OF len])
  next
    case False
    then have "\<not> (off + 8 \<le> length blk' \<and> entry_ok blk' (entry_at blk' ft off))"
      using entry_at_agree [OF 1(2,3), of ft] by (auto simp: len entry_ok_agree [OF len])
    then show ?thesis using False by (subst (1 2) entries_from.simps) auto
  qed
qed

text \<open>An entry of a block, the ones before it and the ones after it.\<close>

definition entry_split :: "bytes \<Rightarrow> bool \<Rightarrow> nat \<Rightarrow> dir_entry list \<Rightarrow> dir_entry \<Rightarrow> dir_entry list \<Rightarrow> bool" where
  "entry_split blk ft off es1 e es2 \<longleftrightarrow>
     e = entry_at blk ft (e_off e) \<and> e_off e + 8 \<le> length blk \<and> entry_ok blk e \<and> off \<le> e_off e \<and>
     es2 = entries_from blk ft (e_off e + e_rec_len e) \<and>
     (\<forall>x \<in> set es1. off \<le> e_off x \<and> e_off x + e_rec_len x \<le> e_off e \<and> entry_ok blk x \<and> x = entry_at blk ft (e_off x)) \<and>
     e_off e = (if es1 = [] then off else e_off (last es1) + e_rec_len (last es1))"

lemma entries_split: "entries_from blk ft off = es1 @ e # es2 \<Longrightarrow> entry_split blk ft off es1 e es2"
proof (induction es1 arbitrary: off)
  case Nil
  then show ?case by (auto simp: entry_split_def entries_from_Cons)
next
  case (Cons x es1)
  then have x: "off + 8 \<le> length blk" "x = entry_at blk ft off" "entry_ok blk x"
    and rest: "entries_from blk ft (off + e_rec_len x) = es1 @ e # es2" by (auto simp: entries_from_Cons)
  have o: "e_off x = off" by (simp add: x(2))
  note IH = Cons.IH [OF rest, unfolded entry_split_def]
  have first: "es1 = [] \<Longrightarrow> e_off e = off + e_rec_len x"
    using rest by (auto simp: entries_from_Cons)
  have "off + e_rec_len x \<le> e_off e" using IH by blast
  then show ?case using IH x o first unfolding entry_split_def by auto
qed

text \<open>The entries before a place are the same in a block that agrees up to there.\<close>

lemma entries_prefix:
  assumes "entries_from blk ft off = es1 @ rest" and "agree off stop blk' blk"
    and "\<forall>x \<in> set es1. e_off x + e_rec_len x \<le> stop"
    and "nxt = (if es1 = [] then off else e_off (last es1) + e_rec_len (last es1))"
  shows "entries_from blk' ft off = es1 @ entries_from blk' ft nxt"
  using assms
proof (induction es1 arbitrary: off)
  case (Cons x es1)
  then have x: "off + 8 \<le> length blk" "x = entry_at blk ft off" "entry_ok blk x"
    and rest: "entries_from blk ft (off + e_rec_len x) = es1 @ rest" by (auto simp: entries_from_Cons)
  have o: "e_off x = off" by (simp add: x(2))
  have len: "length blk' = length blk" using Cons.prems(2) by (simp add: agree_def)
  have stop: "off + e_rec_len x \<le> stop" "8 \<le> e_rec_len x" using Cons.prems(3) o x(3) by (auto simp: entry_ok_def)
  have at: "entry_at blk' ft off = x" unfolding x(2)
    by (rule entry_at_agree [OF Cons.prems(2)]) (use stop x(1) in auto)
  have "entries_from blk' ft (off + e_rec_len x) = es1 @ entries_from blk' ft nxt"
  proof (rule Cons.IH [OF rest])
    show "agree (off + e_rec_len x) stop blk' blk" by (rule agree_sub [OF Cons.prems(2)]) auto
    show "nxt = (if es1 = [] then off + e_rec_len x else e_off (last es1) + e_rec_len (last es1))"
      using Cons.prems(4) o by simp
  qed (use Cons.prems(3) in simp)
  then have "entries_from blk' ft off = x # (es1 @ entries_from blk' ft nxt)"
    unfolding entries_from_Cons using x at len by (simp add: entry_ok_agree [OF len])
  then show ?case by simp
qed simp

section \<open>The fields of an entry\<close>

lemma put_byte_range: "put_byte b i v = put_range i (i + 1) [v] b"
  by (auto simp: put_byte_def put_range_def splice_def upd_conv_take_nth_drop)

lemma overlay_nth:
  "fields_in lo fs hi \<Longrightarrow> hi \<le> length b \<Longrightarrow> i < length b \<Longrightarrow> i < lo \<or> hi \<le> i \<Longrightarrow> overlay fs b ! i = b ! i"
proof (induction fs b arbitrary: lo rule: overlay.induct)
  case (2 off d fs b)
  have f: "fields_in (off + length d) fs hi" "lo \<le> off" using 2(2) by simp_all
  have le: "off + length d \<le> hi" using fields_in_le [OF f(1)] .
  then have len: "length (splice off d b) = length b" using 2(3) by simp
  have "overlay fs (splice off d b) ! i = splice off d b ! i"
    by (rule 2(1) [OF f(1)]) (use 2(3-) len f(2) in auto)
  also have "\<dots> = b ! i" using 2(3-) le f(2) by (subst nth_splice) auto
  finally show ?case by simp
qed simp

lemma overlay_agree:
  assumes "fields_in lo fs hi" and "hi \<le> length b"
  shows "agree 0 lo (overlay fs b) b" "agree hi (length b) (overlay fs b) b" "put_all fs b = (Ok (overlay fs b) :: (bytes, 'e) result)"
    "length (overlay fs b) = length b" "fields_hold fs (overlay fs b)"
proof -
  have "fields_in lo fs hi \<Longrightarrow> fields_in lo fs (length b)"
    using assms(2) by (induction lo fs hi rule: fields_in.induct) auto
  then have f: "fields_in lo fs (length b)" using assms(1) by blast
  note o = put_all_overlay [OF f, where 'a = 'e]
  show "put_all fs b = (Ok (overlay fs b) :: (bytes, 'e) result)" "length (overlay fs b) = length b" using o by simp_all
  show "fields_hold fs (overlay fs b)" by (rule overlay_hold [OF f])
  show "agree 0 lo (overlay fs b) b" "agree hi (length b) (overlay fs b) b"
    using o overlay_nth [OF assms] by (auto simp: agree_def)
qed

definition entry_fields :: "nat \<Rightarrow> nat \<Rightarrow> nat \<Rightarrow> bytes \<Rightarrow> u8 \<Rightarrow> bool \<Rightarrow> fields" where
  "entry_fields off ino len name ft ftype =
     [(off, to_le32 (word_of_nat ino)), (off + 4, to_le16 (word_of_nat len))] @
     (if ftype then [(off + 6, [word_of_nat (length name)]), (off + 7, [ft])] else [(off + 6, to_le16 (word_of_nat (length name)))]) @
     [(off + 8, name)]"

lemma put_entry_fields: "put_entry blk off ino len name ft ftype = put_all (entry_fields off ino len name ft ftype) blk"
  unfolding put_entry_def entry_fields_def put32_def put16_def put_byte_range
  by (simp add: put_all_fun bind_result_assoc bind_result_Ok_id)

lemma entry_fields_at:
  assumes "fields_hold (entry_fields off ino len name ft ftype) blk" and "ino < 2 ^ 32" and "len < 65536"
    and "length name < (if ftype then 256 else 65536)"
  shows "entry_at blk ftype off = \<lparr>e_off = off, e_ino = ino, e_rec_len = len, e_name_len = length name\<rparr>"
    "slice (off + 8) (off + 8 + length name) blk = name" "off + 8 + length name \<le> length blk"
proof -
  have h: "slice off (off + 4) blk = to_le32 (word_of_nat ino)" "slice (off + 4) (off + 6) blk = to_le16 (word_of_nat len)"
    "ftype \<Longrightarrow> slice (off + 6) (off + 7) blk = [word_of_nat (length name)]"
    "\<not> ftype \<Longrightarrow> slice (off + 6) (off + 8) blk = to_le16 (word_of_nat (length name))"
    using assms(1) by (auto simp: entry_fields_def ac_simps)
  show "slice (off + 8) (off + 8 + length name) blk = name" "off + 8 + length name \<le> length blk"
    using assms(1) by (auto simp: entry_fields_def)
  then have "ftype \<Longrightarrow> blk ! (off + 6) = word_of_nat (length name)"
    using h(3) nth_slice [of 0 "off + 7" "off + 6" blk] by simp
  then show "entry_at blk ftype off = \<lparr>e_off = off, e_ino = ino, e_rec_len = len, e_name_len = length name\<rparr>"
    unfolding entry_at_def h(1,2) using h(4) assms(2-4) by (cases ftype) (simp_all add: unat_of_nat)
qed

lemma entry_fields_in: "off + 8 + length name \<le> hi \<Longrightarrow> fields_in off (entry_fields off ino len name ft ftype) hi"
  by (auto simp: entry_fields_def)

lemma entry_size_bounds: "8 + n \<le> entry_size n" "entry_size n mod 4 = 0" "8 + n \<le> m \<Longrightarrow> m mod 4 = 0 \<Longrightarrow> entry_size n \<le> m"
  unfolding entry_size_def by presburger+

lemma entry_ok_used: "entry_ok blk e \<Longrightarrow> used_size e \<le> e_rec_len e"
  using entry_size_bounds(3) [of "e_name_len e" "e_rec_len e"] by (auto simp: entry_ok_def used_size_def)

definition names_of :: "bytes \<Rightarrow> dir_entry list \<Rightarrow> (bytes \<times> nat) list" where
  "names_of blk es = map (\<lambda>e. (entry_name blk e, e_ino e)) (filter (\<lambda>e. e_ino e \<noteq> 0) es)"

lemma names_of_simps [simp]:
  "names_of blk [] = []"
  "names_of blk (e # es) = (if e_ino e = 0 then names_of blk es else (entry_name blk e, e_ino e) # names_of blk es)"
  "names_of blk (es @ fs) = names_of blk es @ names_of blk fs"
  by (simp_all add: names_of_def)

lemma block_names_of: "block_names blk ft = names_of blk (entries blk ft)"
  by (simp add: block_names_def names_of_def)

lemma names_of_agree:
  assumes "agree a b blk' blk" and "\<forall>e \<in> set es. a \<le> e_off e \<and> e_off e + e_rec_len e \<le> b \<and> entry_ok blk e"
  shows "names_of blk' es = names_of blk es"
proof -
  have "entry_name blk' e = entry_name blk e" if "e \<in> set es" for e
    unfolding entry_name_def by (rule agree_slice [OF assms(1)]) (use assms(2) that in \<open>auto simp: entry_ok_def\<close>)
  then show ?thesis by (simp add: names_of_def)
qed

lemma entries_all_ok:
  "\<forall>e \<in> set (entries_from blk ft off). entry_ok blk e \<and> off \<le> e_off e \<and> e_off e + e_rec_len e \<le> length blk"
proof
  fix e assume "e \<in> set (entries_from blk ft off)"
  then obtain es1 es2 where "entries_from blk ft off = es1 @ e # es2" by (meson split_list)
  from entries_split [OF this] show "entry_ok blk e \<and> off \<le> e_off e \<and> e_off e + e_rec_len e \<le> length blk"
    by (auto simp: entry_split_def entry_ok_def)
qed

section \<open>A block as a list of names\<close>

text \<open>An entry in the place of \<open>e\<close>, with what follows up to the end of \<open>e\<close>, the rest as it was.\<close>

lemma entries_replace:
  assumes split: "entries_from blk ft 0 = es1 @ e # rest" and len: "length blk' = length blk"
    and lo: "agree 0 (e_off e) blk' blk" and hi: "agree h (length blk) blk' blk"
    and mid: "entries_from blk' ft (e_off e) = new @ entries_from blk' ft h"
  shows "entries blk' ft = es1 @ new @ entries_from blk ft h" "names_of blk' es1 = names_of blk es1"
    "names_of blk' (entries_from blk ft h) = names_of blk (entries_from blk ft h)"
proof -
  note sp = entries_split [OF split, unfolded entry_split_def]
  have "entries_from blk' ft 0 = es1 @ entries_from blk' ft (e_off e)"
    by (rule entries_prefix [OF split lo]) (use sp in blast)+
  then show "entries blk' ft = es1 @ new @ entries_from blk ft h"
    using mid entries_from_agree [OF hi order_refl] by (simp add: entries_def)
  show "names_of blk' es1 = names_of blk es1"
    by (rule names_of_agree [OF lo]) (use sp in auto)
  show "names_of blk' (entries_from blk ft h) = names_of blk (entries_from blk ft h)"
    by (rule names_of_agree [OF hi]) (use entries_all_ok [of blk ft h] in auto)
qed

text \<open>Changing a field of the header of the entry \<open>e\<close>.\<close>

lemma put_header:
  assumes at: "e = entry_at blk ft (e_off e)" and room: "e_off e + 8 \<le> length blk"
  shows "put32 blk (e_off e) 0 = (Ok b :: (bytes, 'e) result) \<Longrightarrow> length b = length blk \<and> entry_at b ft (e_off e) = e\<lparr>e_ino := 0\<rparr> \<and>
      agree 0 (e_off e) b blk \<and> agree (e_off e + 4) (length blk) b blk"
    and "put16 blk (e_off e + 4) (word_of_nat n) = (Ok c :: (bytes, 'e) result) \<Longrightarrow> n < 65536 \<Longrightarrow>
      length c = length blk \<and> entry_at c ft (e_off e) = e\<lparr>e_rec_len := n\<rparr> \<and>
      agree 0 (e_off e + 4) c blk \<and> agree (e_off e + 6) (length blk) c blk"
proof -
  let ?o = "e_off e"
  note sel = arg_cong [OF at, of e_ino] arg_cong [OF at, of e_rec_len] arg_cong [OF at, of e_name_len]
  {
    assume "put32 blk ?o 0 = (Ok b :: (bytes, 'e) result)"
    then have b: "b = splice ?o (to_le32 0) blk" using room by (simp add: put_ok)
    then have len: "length b = length blk" using room by simp
    have ag: "agree 0 ?o b blk" "agree (?o + 4) (length blk) b blk"
      using room by (auto simp: agree_def b nth_splice)
    have same: "slice (?o + 4) (?o + 6) b = slice (?o + 4) (?o + 6) blk" "slice (?o + 6) (?o + 8) b = slice (?o + 6) (?o + 8) blk"
      by (rule agree_slice [OF ag(2)]; use room in simp)+
    have same6: "b ! (?o + 6) = blk ! (?o + 6)" using ag(2) room by (auto simp: agree_def)
    have ino: "slice ?o (?o + 4) b = to_le32 0" using room slice_splice_same [of ?o "to_le32 0" blk] by (simp add: b)
    have "entry_at b ft ?o = e\<lparr>e_ino := 0\<rparr>"
      by (rule dir_entry.equality) (use sel(2,3) same same6 ino in \<open>simp_all add: entry_at_def\<close>)
    then show "length b = length blk \<and> entry_at b ft ?o = e\<lparr>e_ino := 0\<rparr> \<and> agree 0 ?o b blk \<and> agree (?o + 4) (length blk) b blk"
      using len ag by simp
  next
    assume "put16 blk (?o + 4) (word_of_nat n) = (Ok c :: (bytes, 'e) result)" and n: "n < 65536"
    then have c: "c = splice (?o + 4) (to_le16 (word_of_nat n)) blk" using room by (simp add: put_ok)
    then have len: "length c = length blk" using room by simp
    have ag: "agree 0 (?o + 4) c blk" "agree (?o + 6) (length blk) c blk"
      using room by (auto simp: agree_def c nth_splice)
    have same: "slice ?o (?o + 4) c = slice ?o (?o + 4) blk" by (rule agree_slice [OF ag(1)]) (use room in auto)
    have same': "slice (?o + 6) (?o + 8) c = slice (?o + 6) (?o + 8) blk" by (rule agree_slice [OF ag(2)]) (use room in auto)
    have same6: "c ! (?o + 6) = blk ! (?o + 6)" using ag(2) room by (auto simp: agree_def)
    have rec: "slice (?o + 4) (?o + 6) c = to_le16 (word_of_nat n)"
      using room slice_splice_same [of "?o + 4" "to_le16 (word_of_nat n)" blk] by (simp add: c ac_simps)
    have "entry_at c ft ?o = e\<lparr>e_rec_len := n\<rparr>"
      by (rule dir_entry.equality) (use sel(1,3) same same' same6 rec n in \<open>simp_all add: entry_at_def unat_of_nat\<close>)
    then show "length c = length blk \<and> entry_at c ft ?o = e\<lparr>e_rec_len := n\<rparr> \<and>
        agree 0 (?o + 4) c blk \<and> agree (?o + 6) (length blk) c blk"
      using len ag by simp
  }
qed

lemma block_add_found:
  assumes len: "length blk < 65536" and ino: "0 < ino" "ino < 2 ^ 32" and name: "length name < 256"
    and split: "entries blk ftype = es1 @ e # es2" and fits: "fits (entry_size (length name)) e"
    and find: "List.find (fits (entry_size (length name))) (entries blk ftype) = Some e"
  shows "\<exists>blk'. block_add blk ftype name ino ft = (Ok (True, blk') :: (bool \<times> bytes, 'e) result) \<and> length blk' = length blk \<and>
    block_names blk ftype = names_of blk (es1 @ [e]) @ names_of blk es2 \<and>
    block_names blk' ftype = names_of blk (es1 @ [e]) @ (name, ino) # names_of blk es2"
proof -
  let ?o = "e_off e" and ?u = "used_size e" and ?r = "e_rec_len e"
  note sp = entries_split [OF split [unfolded entries_def], unfolded entry_split_def]
  have ok: "entry_ok blk e" and at: "e = entry_at blk ftype ?o" and o8: "?o + 8 \<le> length blk" using sp by blast+
  have r: "8 \<le> ?r" "?r mod 4 = 0" "?o + ?r \<le> length blk" "8 + e_name_len e \<le> ?r" using ok by (simp_all add: entry_ok_def)
  have u: "?u \<le> ?r" "?u mod 4 = 0" using entry_ok_used [OF ok] entry_size_bounds(2) by (auto simp: used_size_def)
  have room: "entry_size (length name) \<le> ?r - ?u" using fits by (simp add: fits_def)
  then have new: "8 + length name \<le> ?r - ?u" using entry_size_bounds(1) [of "length name"] by linarith
  define blk1 where "blk1 = (if e_ino e \<noteq> 0 then splice (?o + 4) (to_le16 (word_of_nat ?u)) blk else blk)"
  have put1: "(if e_ino e \<noteq> 0 then put16 blk (?o + 4) (word_of_nat ?u) else Ok blk) = (Ok blk1 :: (bytes, 'e) result)"
    using o8 by (simp add: blk1_def put_ok)
  have len1: "length blk1 = length blk" using o8 by (simp add: blk1_def)
  have blk1: "blk1 ! i = blk ! i" if "i < ?o + 4 \<or> ?o + 6 \<le> i" "i < length blk" for i
    using that o8 by (auto simp: blk1_def nth_splice)
  let ?fs = "entry_fields (?o + ?u) ino (?r - ?u) name ft ftype"
  have fin: "fields_in (?o + ?u) ?fs (?o + ?r)" by (rule entry_fields_in) (use new in simp)
  have hi: "?o + ?r \<le> length blk1" using r(3) len1 by simp
  define blk2 where "blk2 = overlay ?fs blk1"
  note ov = overlay_agree [OF fin hi, folded blk2_def]
  have run: "block_add blk ftype name ino ft = (Ok (True, blk2) :: (bool \<times> bytes, 'e) result)"
    using find put1 ov(3) by (simp add: block_add_def put_entry_fields)
  have len2: "length blk2 = length blk" using ov(4) len1 by simp
  have at2: "entry_at blk2 ftype (?o + ?u) = \<lparr>e_off = ?o + ?u, e_ino = ino, e_rec_len = ?r - ?u, e_name_len = length name\<rparr>"
    "slice (?o + ?u + 8) (?o + ?u + 8 + length name) blk2 = name"
    by (rule entry_fields_at [OF ov(5) ino(2)]; use len r(3) name in auto)+
  define n where "n = \<lparr>e_off = ?o + ?u, e_ino = ino, e_rec_len = ?r - ?u, e_name_len = length name\<rparr>"
  have nok: "entry_ok blk2 n" using new r u len2 by (auto simp: entry_ok_def n_def mod_eq_0_iff_dvd)
  have tail: "entries_from blk2 ftype (?o + ?u) = n # entries_from blk2 ftype (?o + ?r)"
    unfolding entries_from_Cons using nok at2(1) new r(3) u(1) len2 by (auto simp: n_def)
  have b2: "blk2 ! i = blk ! i" if "i < ?o + ?u \<and> (i < ?o + 4 \<or> ?o + 6 \<le> i) \<or> ?o + ?r \<le> i" "i < length blk" for i
    using that ov(1,2) blk1 [of i] len1 r(1) by (auto simp: agree_def)
  have lo2: "agree 0 ?o blk2 blk" and hi2: "agree (?o + ?r) (length blk) blk2 blk"
    using b2 len2 r(1) by (auto simp: agree_def)
  have name2: "entry_name blk2 n = name" using at2(2) by (simp add: entry_name_def n_def)
  have es2: "entries_from blk ftype (?o + ?r) = es2" using sp by blast
  note repl = entries_replace [OF split [unfolded entries_def] len2 lo2 hi2, unfolded es2]
  have before: "block_names blk ftype = names_of blk (es1 @ [e]) @ names_of blk es2" by (simp add: block_names_of split)
  show ?thesis
  proof (cases "e_ino e = 0")
    case True
    then have "?u = 0" by (simp add: used_size_def)
    with tail have "entries_from blk2 ftype ?o = [n] @ entries_from blk2 ftype (?o + ?r)" by simp
    note R = repl [OF this]
    have "block_names blk2 ftype = names_of blk (es1 @ [e]) @ (name, ino) # names_of blk es2"
      unfolding block_names_of R(1) using R(2,3) True name2 ino(1) by (simp add: n_def)
    then show ?thesis using run len2 before by blast
  next
    case False
    then have used: "?u = entry_size (e_name_len e)" by (simp add: used_size_def)
    have u8: "8 + e_name_len e \<le> ?u" using entry_size_bounds(1) used by simp
    define e' where "e' = e\<lparr>e_rec_len := ?u\<rparr>"
    have at': "entry_at blk2 ftype ?o = e'"
    proof -
      have "put16 blk (?o + 4) (word_of_nat ?u) = (Ok blk1 :: (bytes, unit) result)" using False o8 by (simp add: blk1_def put_ok)
      from put_header(2) [OF at o8 this] have "entry_at blk1 ftype ?o = e'" using u(1) r(3) len by (simp add: e'_def)
      then show ?thesis using entry_at_agree [OF ov(1), of ?o ftype] u8 o8 len1 by simp
    qed
    have "entry_ok blk2 e'" using u u8 r len2 by (simp add: entry_ok_def e'_def)
    then have "entries_from blk2 ftype ?o = e' # entries_from blk2 ftype (?o + ?u)"
      unfolding entries_from_Cons using at' o8 len2 by (simp add: e'_def)
    then have "entries_from blk2 ftype ?o = [e', n] @ entries_from blk2 ftype (?o + ?r)" using tail by simp
    note R = repl [OF this]
    have "entry_name blk2 e' = entry_name blk e"
      unfolding entry_name_def e'_def by simp (rule slice_eqI; use b2 len2 u8 r(3,4) in auto)
    then have "block_names blk2 ftype = names_of blk (es1 @ [e]) @ (name, ino) # names_of blk es2"
      unfolding block_names_of R(1) using R(2,3) False name2 ino(1) by (simp add: n_def e'_def)
    then show ?thesis using run len2 before by blast
  qed
qed

lemma block_remove_found:
  assumes len: "length blk < 65536" and split: "entries blk ft = es1 @ e # es2" and e: "names_it blk name e"
    and first: "\<forall>x \<in> set es1. \<not> names_it blk name x"
  shows "\<exists>blk'. block_remove blk ft name = (Ok (Some (e_ino e), blk') :: (nat option \<times> bytes, 'e) result) \<and> length blk' = length blk \<and>
    block_names blk' ft = names_of blk es1 @ names_of blk es2"
proof -
  let ?o = "e_off e" and ?r = "e_rec_len e"
  have pos: "position (names_it blk name) (entries blk ft) = Some (length es1)"
    unfolding split by (rule position_first) (use e first in auto)
  note sp = entries_split [OF split [unfolded entries_def], unfolded entry_split_def]
  have ok: "entry_ok blk e" and at: "e = entry_at blk ft ?o" and o8: "?o + 8 \<le> length blk"
    and es2: "entries_from blk ft (?o + ?r) = es2" using sp by blast+
  have r: "8 \<le> ?r" "?r mod 4 = 0" "?o + ?r \<le> length blk" "8 + e_name_len e \<le> ?r" using ok by (simp_all add: entry_ok_def)
  show ?thesis
  proof (cases es1 rule: rev_cases)
    case Nil
    obtain b where b: "put32 blk ?o 0 = (Ok b :: (bytes, 'e) result)" using o8 by (simp add: put_ok)
    note h = put_header(1) [OF at o8 b]
    have "entries_from b ft ?o = [e\<lparr>e_ino := 0\<rparr>] @ entries_from b ft (?o + ?r)"
      using h ok o8 by (simp add: entries_from_Cons entry_ok_def)
    note R = entries_replace [OF split [unfolded entries_def], of b "?o + ?r", unfolded es2, OF _ _ _ this]
    have "block_names b ft = names_of blk es1 @ names_of blk es2"
      using R h r(1) agree_sub [of "?o + 4" "length blk" b blk "?o + ?r" "length blk"] by (simp add: block_names_of Nil)
    moreover have "block_remove blk ft name = (Ok (Some (e_ino e), b) :: (nat option \<times> bytes, 'e) result)"
      using pos b by (simp add: block_remove_def split Nil)
    ultimately show ?thesis using h by blast
  next
    case (snoc es0 p)
    have split': "entries_from blk ft 0 = es0 @ p # e # es2" using split by (simp add: snoc entries_def)
    note sp' = entries_split [OF split', unfolded entry_split_def]
    have okp: "entry_ok blk p" and atp: "p = entry_at blk ft (e_off p)" and p8: "e_off p + 8 \<le> length blk" using sp' by blast+
    have "?o = (if es1 = [] then 0 else e_off (last es1) + e_rec_len (last es1))" using sp by blast
    then have nxt: "e_off p + e_rec_len p = ?o" by (simp add: snoc)
    let ?n = "e_rec_len p + ?r"
    have n: "?n < 65536" "e_off p + ?n = ?o + ?r" using len r(3) nxt by simp_all
    obtain b where b: "put16 blk (e_off p + 4) (word_of_nat ?n) = (Ok b :: (bytes, 'e) result)" using p8 by (simp add: put_ok)
    note h = put_header(2) [OF atp p8 b n(1)]
    have "entry_ok b (p\<lparr>e_rec_len := ?n\<rparr>)" using okp r n h by (auto simp: entry_ok_def mod_eq_0_iff_dvd)
    then have "entries_from b ft (e_off p) = [p\<lparr>e_rec_len := ?n\<rparr>] @ entries_from b ft (?o + ?r)"
      unfolding n(2) [symmetric] using h p8 by (simp add: entries_from_Cons)
    note R = entries_replace [OF split', of b "?o + ?r", unfolded es2, OF _ _ _ this]
    have lo: "agree 0 (e_off p) b blk" by (rule agree_sub [of 0 "e_off p + 4"]) (use h in auto)
    have hi: "agree (?o + ?r) (length blk) b blk"
      by (rule agree_sub [of "e_off p + 6" "length blk"]) (use h nxt okp in \<open>auto simp: entry_ok_def\<close>)
    have "entry_name b (p\<lparr>e_rec_len := ?n\<rparr>) = entry_name blk p"
      unfolding entry_name_def using agree_slice [OF h [THEN conjunct2, THEN conjunct2, THEN conjunct2], of "e_off p + 8" "e_off p + 8 + e_name_len p"] okp
      by (simp add: entry_ok_def)
    then have "block_names b ft = names_of blk es1 @ names_of blk es2"
      using R lo hi h by (simp add: block_names_of snoc)
    moreover have "block_remove blk ft name = (Ok (Some (e_ino e), b) :: (nat option \<times> bytes, 'e) result)"
      using pos b by (simp add: block_remove_def split snoc nth_append)
    ultimately show ?thesis using h by blast
  qed
qed

lemma names_find:
  "map_of (names_of blk es) name = map_option e_ino (List.find (names_it blk name) es)"
  by (induction es) (auto simp: names_it_def)

lemma names_absent: "\<forall>e \<in> set es. \<not> names_it blk name e \<Longrightarrow> name \<notin> fst ` set (names_of blk es)"
  by (auto simp: names_of_def names_it_def)

text \<open>
  C39. The operations on a directory block are those on the list of names in it: a lookup
  finds the first pair with the name; an insertion either puts exactly one pair into
  the list or finds that no entry has the room and leaves the block alone; a removal
  deletes the first pair with the name and nothing else, or leaves the block alone
  when there is none. None of them panics or changes the size of the block.
\<close>

theorem dir_block_list:
  assumes "length blk < 65536"
  shows "map_option fst (block_lookup blk ft name) = map_of (block_names blk ft) name \<and>
    (0 < ino \<and> ino < 2 ^ 32 \<and> length name < 256 \<longrightarrow>
      (case block_add blk ft name ino t :: (bool \<times> bytes, ext2_error) result of
         Ok (placed, blk') \<Rightarrow> length blk' = length blk \<and>
           (if placed then \<exists>xs ys. block_names blk ft = xs @ ys \<and> block_names blk' ft = xs @ (name, ino) # ys
            else blk' = blk \<and> \<not> list_ex (fits (entry_size (length name))) (entries blk ft))
       | _ \<Rightarrow> False)) \<and>
    (case block_remove blk ft name :: (nat option \<times> bytes, ext2_error) result of
       Ok (hit, blk') \<Rightarrow> length blk' = length blk \<and> hit = map_of (block_names blk ft) name \<and>
         (case hit of None \<Rightarrow> blk' = blk
          | Some i \<Rightarrow> \<exists>xs ys. block_names blk ft = xs @ (name, i) # ys \<and> name \<notin> fst ` set xs \<and> block_names blk' ft = xs @ ys)
     | _ \<Rightarrow> False)"
  (is "?look \<and> ?add \<and> ?rem")
proof (intro conjI)
  show look: ?look
    unfolding block_lookup_def block_names_of names_find by (simp add: option.map_comp o_def)
  show ?add
  proof (intro impI, elim conjE)
    assume a: "0 < ino" "ino < 2 ^ 32" "length name < 256"
    show "case block_add blk ft name ino t :: (bool \<times> bytes, ext2_error) result of
         Ok (placed, blk') \<Rightarrow> length blk' = length blk \<and>
           (if placed then \<exists>xs ys. block_names blk ft = xs @ ys \<and> block_names blk' ft = xs @ (name, ino) # ys
            else blk' = blk \<and> \<not> list_ex (fits (entry_size (length name))) (entries blk ft))
       | _ \<Rightarrow> False"
    proof (cases "List.find (fits (entry_size (length name))) (entries blk ft)")
      case None
      then have "\<not> list_ex (fits (entry_size (length name))) (entries blk ft)" by (auto simp: find_None_iff list_ex_iff)
      with None show ?thesis by (simp add: block_add_def)
    next
      case (Some e)
      obtain es1 es2 where s: "entries blk ft = es1 @ e # es2" "fits (entry_size (length name)) e"
        using find_split [OF Some] by blast
      from block_add_found [OF assms a s Some, of t, where 'e = ext2_error] obtain blk' where
        b: "block_add blk ft name ino t = (Ok (True, blk') :: (bool \<times> bytes, ext2_error) result)" "length blk' = length blk"
        and n: "block_names blk ft = names_of blk (es1 @ [e]) @ names_of blk es2"
          "block_names blk' ft = names_of blk (es1 @ [e]) @ (name, ino) # names_of blk es2" by blast
      show ?thesis unfolding b(1) result.case prod.case if_True using b(2) n by blast
    qed
  qed
  show ?rem
  proof (cases "List.find (names_it blk name) (entries blk ft)")
    case None
    then have "position (names_it blk name) (entries blk ft) = None" by (simp add: position_None find_None_iff)
    moreover have "map_of (block_names blk ft) name = None" using None by (simp only: block_names_of names_find) simp
    ultimately show ?thesis by (simp add: block_remove_def)
  next
    case (Some e)
    obtain es1 es2 where s: "entries blk ft = es1 @ e # es2" "names_it blk name e" "\<forall>x \<in> set es1. \<not> names_it blk name x"
      using find_split [OF Some] by blast
    from block_remove_found [OF assms s, where 'e = ext2_error] obtain blk' where
      b: "block_remove blk ft name = (Ok (Some (e_ino e), blk') :: (nat option \<times> bytes, ext2_error) result)" "length blk' = length blk"
        "block_names blk' ft = names_of blk es1 @ names_of blk es2" by blast
    have m: "map_of (block_names blk ft) name = Some (e_ino e)" using Some by (simp only: block_names_of names_find) simp
    have n: "block_names blk ft = names_of blk es1 @ (name, e_ino e) # names_of blk es2"
      using s(2) by (simp add: block_names_of s(1) names_it_def)
    show ?thesis unfolding b(1) result.case prod.case m option.case using b(2,3) n names_absent [OF s(3)] by blast
  qed
qed

text \<open>A block with the entries \<^verbatim>\<open>a\<close> and \<^verbatim>\<open>b\<close>.\<close>

definition tiny_dir :: bytes where
  "tiny_dir = [2, 0, 0, 0, 12, 0, 1, 2, 97, 0, 0, 0, 5, 0, 0, 0, 20, 0, 1, 1, 98, 0, 0, 0, 0, 0, 0, 0, 0, 0, 0, 0]"

theorem dir_block_list_witness:
  "map_of (block_names tiny_dir True) [98] = Some 5 \<and>
   (\<exists>blk'. block_remove tiny_dir True [98] = (Ok (Some 5, blk') :: (nat option \<times> bytes, ext2_error) result) \<and>
      block_names blk' True = [([97], 2)])"
proof -
  have names: "block_names tiny_dir True = [([97], 2), ([98], 5)]" by code_simp
  have "length tiny_dir < 65536" by (simp add: tiny_dir_def)
  note ops = dir_block_list [OF this, of True "[98]", THEN conjunct2, THEN conjunct2, unfolded names]
  obtain hit blk' where run: "block_remove tiny_dir True [98] = (Ok (hit, blk') :: (nat option \<times> bytes, ext2_error) result)"
    using ops by (auto split: result.splits)
  with ops have "hit = Some 5" by simp
  with ops run obtain xs ys where "[([97], 2), ([98], 5)] = xs @ ([98], 5) # ys" "block_names blk' True = xs @ ys" by auto
  then have "block_names blk' True = [([97], 2)]" by (auto simp: Cons_eq_append_conv)
  then show ?thesis using run \<open>hit = Some 5\<close> names by simp
qed

end
