(* ===== verification/Ext2_Fs.thy ===== *)
theory Ext2_Fs
  imports Ext2_Dir Rust_Text
begin

text \<open>
  The path walk and the public operations of ext2 (\<^verbatim>\<open>modules/ext2/ext2fs/src/fs.rs\<close>),
  each with the flush the code puts around it. The lemmas show that a short symbolic
  link is read back as it was stored, and for which inodes \<^verbatim>\<open>readlink\<close> panics.
\<close>

section \<open>Paths\<close>

definition RESOLVED_MAX :: nat where "RESOLVED_MAX = 1024"

primrec walk_from :: "nat \<Rightarrow> bytes list \<Rightarrow> ('d, nat) fs_action" where
  "walk_from ino [] = act_return ino"
| "walk_from ino (name # rest) =
     act_bind (read_inode ino) (\<lambda>dir.
     if \<not> inode_is_dir dir then act_fail NotDir
     else
       act_bind (dir_lookup dir name) (\<lambda>hit.
       case hit of None \<Rightarrow> act_fail NotFound | Some (ino, _) \<Rightarrow> walk_from ino rest))"

definition path_names :: "string \<Rightarrow> string list" where
  "path_names path = filter (\<lambda>c. c \<noteq> [] \<and> c \<noteq> ''.'') (split_char CHR ''/'' path)"

definition walk :: "string \<Rightarrow> ('d, nat) fs_action" where
  "walk path = walk_from ROOT_INO (map bytes_of (path_names path))"

definition resolve_path :: "string \<Rightarrow> ('d, nat) fs_action" where
  "resolve_path path =
     act_bind (act_gets (\<lambda>s. bt_get path (f_resolved s))) (\<lambda>hit.
     case hit of
       Some ino \<Rightarrow> act_return ino
     | None \<Rightarrow>
         act_bind (walk path) (\<lambda>ino.
         act_bind (act_update (\<lambda>s. if RESOLVED_MAX \<le> length (f_resolved s) then s\<lparr>f_resolved := []\<rparr> else s)) (\<lambda>_.
         act_bind (act_update (\<lambda>s. s\<lparr>f_resolved := (path, ino) # bt_remove path (f_resolved s)\<rparr>)) (\<lambda>_.
         act_return ino))))"

definition inode_at_path :: "string \<Rightarrow> ('d, inode) fs_action" where
  "inode_at_path path = act_bind (resolve_path path) read_inode"

text \<open>What is before and after the last \<^verbatim>\<open>/\<close>.\<close>

definition split_last :: "string \<Rightarrow> string \<times> string" where
  "split_last path =
     (case position (\<lambda>c. c = CHR ''/'') (rev path) of
        Some i \<Rightarrow> (take (length path - i - 1) path, drop (length path - i) path)
      | None \<Rightarrow> ([], path))"

definition parent :: "string \<Rightarrow> ('d, nat \<times> inode \<times> string) fs_action" where
  "parent path =
     (let (dir, name) = split_last (trim_end_char CHR ''/'' path) in
      if name = [] \<or> name = ''.'' \<or> name = ''..'' \<or> 255 < length name then act_fail Invalid
      else
        act_bind (resolve_path dir) (\<lambda>ino.
        act_bind (read_inode ino) (\<lambda>node.
        if \<not> inode_is_dir node then act_fail NotDir
        else act_return (ino, node, name))))"

section \<open>Making and unmaking inodes\<close>

definition fs_make :: "nat \<Rightarrow> string \<Rightarrow> u16 \<Rightarrow> ('d, nat \<times> inode) fs_action" where
  "fs_make dir_ino name mode =
     (let is_dir = (mode AND E_IFMT = E_IFDIR) in
      act_bind (alloc_inode dir_ino is_dir) (\<lambda>ino.
      act_bind fs_now (\<lambda>now.
      let node = inode_new mode now in
      act_bind (write_new_inode ino node) (\<lambda>_.
      act_bind (act_try (dir_add dir_ino (bytes_of name) ino (inode_file_type node))) (\<lambda>r.
      case r of
        Err e \<Rightarrow> act_bind (free_inode ino is_dir) (\<lambda>_. act_fail e)
      | Panic \<Rightarrow> act_panic
      | Ok _ \<Rightarrow> act_return (ino, node))))))"

text \<open>\<open>with_node\<close> where the error is returned.\<close>

definition on_node :: "inode \<Rightarrow> ('d, 'a) node_action \<Rightarrow> ('d, 'a \<times> inode) fs_action" where
  "on_node node m =
     act_bind (with_node node m) (\<lambda>(r, node). act_bind (act_lift r) (\<lambda>a. act_return (a, node)))"

definition unmake :: "nat \<Rightarrow> string \<Rightarrow> nat \<Rightarrow> inode \<Rightarrow> ('d, unit) fs_action" where
  "unmake dir_ino name ino node =
     act_bind (dir_remove dir_ino (bytes_of name)) (\<lambda>_.
     act_bind (on_node node free_data) (\<lambda>(_, node).
     act_bind fs_now (\<lambda>now.
     let node = node\<lparr>i_links := 0, i_dtime := max now 1\<rparr> in
     act_bind (write_inode ino node) (\<lambda>_.
     free_inode ino (inode_is_dir node)))))"

definition drop_link :: "nat \<Rightarrow> ('d, unit) fs_action" where
  "drop_link ino =
     act_bind (read_inode ino) (\<lambda>node.
     let node = node\<lparr>i_links := i_links node - 1\<rparr> in
     if i_links node = 0 then
       act_bind (on_node node free_data) (\<lambda>(_, node).
       act_bind fs_now (\<lambda>now.
       act_bind (write_inode ino (node\<lparr>i_dtime := max now 1\<rparr>)) (\<lambda>_.
       free_inode ino False)))
     else write_inode ino node)"

text \<open>The link count of directory \<open>ino\<close> up or down by one, with the checked arithmetic of a \<^verbatim>\<open>u16\<close>.\<close>

definition link_up :: "nat \<Rightarrow> ('d, unit) fs_action" where
  "link_up ino =
     act_bind (read_inode ino) (\<lambda>dir.
     if i_links dir = 65535 then act_panic
     else write_inode ino (dir\<lparr>i_links := i_links dir + 1\<rparr>))"

definition link_down :: "nat \<Rightarrow> ('d, unit) fs_action" where
  "link_down ino =
     act_bind (read_inode ino) (\<lambda>dir.
     if i_links dir = 0 then act_panic
     else write_inode ino (dir\<lparr>i_links := i_links dir - 1\<rparr>))"

text \<open>The entry \<open>name\<close> of \<open>dir\<close>, which must be there.\<close>

definition must_lookup :: "inode \<Rightarrow> string \<Rightarrow> ext2_error \<Rightarrow> ('d, nat \<times> u8) fs_action" where
  "must_lookup dir name e =
     act_bind (dir_lookup dir (bytes_of name)) (\<lambda>hit. act_lift (ok_or e hit))"

section \<open>Attributes\<close>

record ext2_stat =
  st_kind :: ext2_kind
  st_mode :: u16
  st_size :: nat
  st_ino :: nat
  st_links :: nat
  st_mtime :: u32
  st_atime :: u32

definition stat_of :: "nat \<Rightarrow> inode \<Rightarrow> ext2_stat" where
  "stat_of ino n =
     \<lparr>st_kind = inode_kind n, st_mode = i_mode n, st_size = i_size n, st_ino = ino, st_links = i_links n,
      st_mtime = i_mtime n, st_atime = i_atime n\<rparr>"

definition fs_stat :: "string \<Rightarrow> ('d, ext2_stat) fs_action" where
  "fs_stat path =
     act_bind (resolve_path path) (\<lambda>ino. act_bind (read_inode ino) (\<lambda>n. act_return (stat_of ino n)))"

definition fs_stat_ino :: "nat \<Rightarrow> ('d, ext2_stat) fs_action" where
  "fs_stat_ino ino = act_bind (read_inode ino) (\<lambda>n. act_return (stat_of ino n))"

definition retime :: "nat \<Rightarrow> u32 option \<Rightarrow> u32 option \<Rightarrow> ('d, unit) fs_action" where
  "retime ino atime mtime =
     act_bind (read_inode ino) (\<lambda>node.
     let node = (case atime of Some t \<Rightarrow> node\<lparr>i_atime := t\<rparr> | None \<Rightarrow> node);
         node = (case mtime of Some t \<Rightarrow> node\<lparr>i_mtime := t\<rparr> | None \<Rightarrow> node)
     in write_inode ino node)"

definition fs_set_times :: "string \<Rightarrow> u32 option \<Rightarrow> u32 option \<Rightarrow> ('d, unit) fs_action" where
  "fs_set_times path atime mtime = fs_op (act_bind (resolve_path path) (\<lambda>ino. retime ino atime mtime))"

definition fs_set_times_ino :: "nat \<Rightarrow> u32 option \<Rightarrow> u32 option \<Rightarrow> ('d, unit) fs_action" where
  "fs_set_times_ino ino atime mtime = fs_op (retime ino atime mtime)"

definition fs_file_id :: "string \<Rightarrow> ('d, nat) fs_action" where
  "fs_file_id path = resolve_path path"

definition is_dot :: "bytes \<Rightarrow> bool" where
  "is_dot name \<longleftrightarrow> name = [0x2E] \<or> name = [0x2E, 0x2E]"

definition fs_list :: "string \<Rightarrow> (bytes \<Rightarrow> 'a \<Rightarrow> bool \<times> 'a) \<Rightarrow> 'a \<Rightarrow> ('d, 'a) fs_action" where
  "fs_list path f acc =
     act_bind (inode_at_path path) (\<lambda>dir.
     if \<not> inode_is_dir dir then act_fail NotDir
     else for_each_entry dir (\<lambda>name _ acc. if is_dot name then (True, acc) else f name acc) acc)"

section \<open>File data\<close>

definition read_kind :: "inode \<Rightarrow> nat \<Rightarrow> bytes \<Rightarrow> ('d, nat \<times> bytes) fs_action" where
  "read_kind node pos out =
     (case inode_kind node of Dir \<Rightarrow> act_fail IsDir | File \<Rightarrow> read_data node pos out | _ \<Rightarrow> act_fail Invalid)"

definition fs_read :: "string \<Rightarrow> nat \<Rightarrow> bytes \<Rightarrow> ('d, nat \<times> bytes) fs_action" where
  "fs_read path pos out = act_bind (inode_at_path path) (\<lambda>node. read_kind node pos out)"

definition fs_read_ino :: "nat \<Rightarrow> nat \<Rightarrow> bytes \<Rightarrow> ('d, nat \<times> bytes) fs_action" where
  "fs_read_ino ino pos out = act_bind (read_inode ino) (\<lambda>node. read_kind node pos out)"

definition write_at :: "nat \<Rightarrow> nat \<Rightarrow> bytes \<Rightarrow> ('d, nat) fs_action" where
  "write_at ino pos buf =
     act_bind (read_inode ino) (\<lambda>node.
     case inode_kind node of
       Dir \<Rightarrow> act_fail IsDir
     | File \<Rightarrow>
         act_bind (on_node node (write_data pos buf)) (\<lambda>(n, node).
         act_bind fs_now (\<lambda>now.
         act_bind (write_inode ino (node\<lparr>i_mtime := now\<rparr>)) (\<lambda>_. act_return n)))
     | _ \<Rightarrow> act_fail Invalid)"

definition fs_write :: "string \<Rightarrow> nat \<Rightarrow> bytes \<Rightarrow> ('d, nat) fs_action" where
  "fs_write path pos buf = act_bind (resolve_path path) (\<lambda>ino. write_at ino pos buf)"

definition fs_write_ino :: "nat \<Rightarrow> nat \<Rightarrow> bytes \<Rightarrow> ('d, nat) fs_action" where
  "fs_write_ino ino pos buf = write_at ino pos buf"

definition fs_truncate :: "string \<Rightarrow> ('d, unit) fs_action" where
  "fs_truncate path =
     fs_op (
       act_bind (resolve_path path) (\<lambda>ino.
       act_bind (read_inode ino) (\<lambda>node.
       if inode_kind node \<noteq> File then act_fail Invalid
       else
         act_bind (on_node node free_data) (\<lambda>(_, node).
         act_bind fs_now (\<lambda>now.
         write_inode ino (node\<lparr>i_mtime := now\<rparr>))))))"

definition fs_resize :: "nat \<Rightarrow> nat \<Rightarrow> ('d, unit) fs_action" where
  "fs_resize ino sz =
     act_bind (read_inode ino) (\<lambda>node.
     case inode_kind node of
       File \<Rightarrow>
         act_bind (on_node node (resize_data sz)) (\<lambda>(_, node).
         act_bind fs_now (\<lambda>now.
         write_inode ino (node\<lparr>i_mtime := now\<rparr>)))
     | Dir \<Rightarrow> act_fail IsDir
     | _ \<Rightarrow> act_fail Invalid)"

definition fs_set_size :: "string \<Rightarrow> nat \<Rightarrow> ('d, unit) fs_action" where
  "fs_set_size path sz = fs_op (act_bind (resolve_path path) (\<lambda>ino. fs_resize ino sz))"

definition fs_set_size_ino :: "nat \<Rightarrow> nat \<Rightarrow> ('d, unit) fs_action" where
  "fs_set_size_ino ino sz = fs_op (fs_resize ino sz)"

section \<open>Names\<close>

definition fs_create :: "string \<Rightarrow> ('d, unit) fs_action" where
  "fs_create path =
     fs_op (
       act_bind (parent path) (\<lambda>(dir_ino, dir, name).
       act_bind (dir_lookup dir (bytes_of name)) (\<lambda>hit.
       case hit of
         Some (ino, _) \<Rightarrow>
           act_bind (read_inode ino) (\<lambda>node.
           case inode_kind node of File \<Rightarrow> act_return () | Dir \<Rightarrow> act_fail IsDir | _ \<Rightarrow> act_fail Exists)
       | None \<Rightarrow> act_bind (fs_make dir_ino name (E_IFREG OR 0x1ED)) (\<lambda>_. act_return ()))))"

definition fs_mkdir :: "string \<Rightarrow> ('d, unit) fs_action" where
  "fs_mkdir path =
     fs_op (
       act_bind (parent path) (\<lambda>(dir_ino, dir, name).
       act_bind (dir_lookup dir (bytes_of name)) (\<lambda>hit.
       if hit \<noteq> None then act_fail Exists
       else
         act_bind (fs_make dir_ino name (E_IFDIR OR 0x1ED)) (\<lambda>(ino, node).
         act_bind (act_try (dir_init ino dir_ino)) (\<lambda>r.
         case r of
           Err e \<Rightarrow> act_bind (unmake dir_ino name ino node) (\<lambda>_. act_fail e)
         | Panic \<Rightarrow> act_panic
         | Ok _ \<Rightarrow> link_up dir_ino)))))"

text \<open>What \<^verbatim>\<open>rmdir\<close> and a directory replaced by \<^verbatim>\<open>rename\<close> leave of directory \<open>ino\<close>.\<close>

definition free_dir :: "nat \<Rightarrow> inode \<Rightarrow> ('d, unit) fs_action" where
  "free_dir ino node =
     act_bind (on_node node free_data) (\<lambda>(_, node).
     act_bind fs_now (\<lambda>now.
     act_bind (write_inode ino (node\<lparr>i_links := 0, i_dtime := max now 1\<rparr>)) (\<lambda>_.
     free_inode ino True)))"

definition fs_rmdir :: "string \<Rightarrow> ('d, unit) fs_action" where
  "fs_rmdir path =
     fs_op (
       act_bind (parent path) (\<lambda>(dir_ino, dir, name).
       act_bind (must_lookup dir name NotFound) (\<lambda>(ino, _).
       act_bind (read_inode ino) (\<lambda>node.
       if \<not> inode_is_dir node then act_fail NotDir
       else
         act_bind (dir_is_empty node) (\<lambda>empty.
         if \<not> empty then act_fail NotEmpty
         else
           act_bind (dir_remove dir_ino (bytes_of name)) (\<lambda>_.
           act_bind (free_dir ino node) (\<lambda>_.
           link_down dir_ino)))))))"

definition fs_unlink :: "string \<Rightarrow> ('d, unit) fs_action" where
  "fs_unlink path =
     fs_op (
       act_bind (parent path) (\<lambda>(dir_ino, dir, name).
       act_bind (must_lookup dir name NotFound) (\<lambda>(ino, _).
       act_bind (read_inode ino) (\<lambda>node.
       if inode_is_dir node then act_fail IsDir
       else
         act_bind (dir_remove dir_ino (bytes_of name)) (\<lambda>_.
         drop_link ino)))))"

definition fs_unlink_keep :: "string \<Rightarrow> ('d, nat) fs_action" where
  "fs_unlink_keep path =
     fs_op (
       act_bind (parent path) (\<lambda>(dir_ino, dir, name).
       act_bind (must_lookup dir name NotFound) (\<lambda>(ino, _).
       act_bind (read_inode ino) (\<lambda>node.
       if inode_is_dir node then act_fail IsDir
       else
         act_bind (dir_remove dir_ino (bytes_of name)) (\<lambda>_.
         act_bind (write_inode ino (node\<lparr>i_links := i_links node - 1\<rparr>)) (\<lambda>_.
         act_return ino))))))"

definition fs_forget :: "nat \<Rightarrow> ('d, unit) fs_action" where
  "fs_forget ino =
     fs_op (
       act_bind (read_inode ino) (\<lambda>node.
       if 0 < i_links node \<or> inode_is_dir node then act_return ()
       else
         act_bind (on_node node free_data) (\<lambda>(_, node).
         act_bind fs_now (\<lambda>now.
         act_bind (write_inode ino (node\<lparr>i_dtime := max now 1\<rparr>)) (\<lambda>_.
         free_inode ino False)))))"

text \<open>\<^verbatim>\<open>is_within\<close>, at most 4096 steps up.\<close>

primrec is_within_steps :: "nat \<Rightarrow> nat \<Rightarrow> nat \<Rightarrow> ('d, bool) fs_action" where
  "is_within_steps 0 dir ancestor = act_fail Invalid"
| "is_within_steps (Suc n) dir ancestor =
     (if dir = ancestor then act_return True
      else if dir = ROOT_INO then act_return False
      else
        act_bind (read_inode dir) (\<lambda>node.
        act_bind (must_lookup node ''..'' Invalid) (\<lambda>(up, _).
        is_within_steps n up ancestor)))"

definition is_within :: "nat \<Rightarrow> nat \<Rightarrow> ('d, bool) fs_action" where
  "is_within dir ancestor = is_within_steps 4096 dir ancestor"

text \<open>What \<^verbatim>\<open>rename\<close> does to what the new name names; false: the same file, all done.\<close>

definition rename_replace :: "nat \<Rightarrow> bool \<Rightarrow> nat \<Rightarrow> inode \<Rightarrow> string \<Rightarrow> ('d, bool) fs_action" where
  "rename_replace ino is_dir new_dir ndir new_name =
     act_bind (dir_lookup ndir (bytes_of new_name)) (\<lambda>hit.
     case hit of
       None \<Rightarrow> act_return True
     | Some (target, _) \<Rightarrow>
         if target = ino then act_return False
         else
           act_bind (read_inode target) (\<lambda>t.
           if \<not> is_dir \<and> inode_is_dir t then act_fail IsDir
           else if is_dir \<and> \<not> inode_is_dir t then act_fail NotDir
           else
             act_bind (if is_dir then dir_is_empty t else act_return True) (\<lambda>empty.
             if \<not> empty then act_fail NotEmpty
             else
               act_bind (dir_remove new_dir (bytes_of new_name)) (\<lambda>_.
               act_bind
                 (if inode_is_dir t then act_bind (free_dir target t) (\<lambda>_. link_down new_dir)
                  else drop_link target) (\<lambda>_.
               act_return True)))))"

definition fs_rename :: "string \<Rightarrow> string \<Rightarrow> ('d, unit) fs_action" where
  "fs_rename old new =
     fs_op (
       act_bind (parent old) (\<lambda>(old_dir, odir, old_name).
       act_bind (must_lookup odir old_name NotFound) (\<lambda>(ino, ft).
       act_bind (parent new) (\<lambda>(new_dir, ndir, new_name).
       act_bind (read_inode ino) (\<lambda>node.
       let is_dir = inode_is_dir node in
       act_bind (if is_dir then is_within new_dir ino else act_return False) (\<lambda>within.
       if within then act_fail Invalid
       else
         act_bind (rename_replace ino is_dir new_dir ndir new_name) (\<lambda>go_on.
         if \<not> go_on then act_return ()
         else
           act_bind (dir_add new_dir (bytes_of new_name) ino ft) (\<lambda>_.
           act_bind (dir_remove old_dir (bytes_of old_name)) (\<lambda>_.
           act_when (is_dir \<and> old_dir \<noteq> new_dir) (
             act_bind (dir_set_parent ino new_dir) (\<lambda>_.
             act_bind (link_down old_dir) (\<lambda>_.
             link_up new_dir))))))))))))"

section \<open>Symbolic links\<close>

definition fs_symlink :: "string \<Rightarrow> string \<Rightarrow> ('d, unit) fs_action" where
  "fs_symlink target link =
     fs_op (
       act_bind (act_gets (\<lambda>s. block_size (f_geo s))) (\<lambda>bs.
       if target = [] \<or> bs \<le> length target then act_fail Invalid
       else
         act_bind (parent link) (\<lambda>(dir_ino, dir, name).
         act_bind (dir_lookup dir (bytes_of name)) (\<lambda>hit.
         if hit \<noteq> None then act_fail Exists
         else
           act_bind (fs_make dir_ino name (E_IFLNK OR 0x1FF)) (\<lambda>(ino, node).
           if length target < inline_capacity then
             act_bind (act_lift (set_inline (bytes_of target) node)) (\<lambda>node. write_inode ino node)
           else
             act_bind (with_node node (write_data 0 (bytes_of target))) (\<lambda>(r, node).
             case r of
               Err e \<Rightarrow> act_bind (unmake dir_ino name ino node) (\<lambda>_. act_fail e)
             | Panic \<Rightarrow> act_panic
             | Ok _ \<Rightarrow> write_inode ino node))))))"

text \<open>The length of the target and the buffer with it.\<close>

definition readlink_of :: "inode \<Rightarrow> nat \<Rightarrow> bytes \<Rightarrow> ('d, nat \<times> bytes) fs_action" where
  "readlink_of node bs buf =
     (if inode_kind node \<noteq> Symlink then act_fail Invalid
      else
        let len = min (i_size node) (length buf) in
        if is_fast_symlink node bs then
          act_bind (act_lift (get_range 0 len (inode_inline node))) (\<lambda>target.
          act_bind (act_lift (put_range 0 len target buf)) (\<lambda>buf.
          act_return (len, buf)))
        else
          act_bind (read_data node 0 (take len buf)) (\<lambda>(n, head).
          act_return (n, head @ drop len buf)))"

definition fs_readlink :: "string \<Rightarrow> bytes \<Rightarrow> ('d, nat \<times> bytes) fs_action" where
  "fs_readlink path buf =
     act_bind (inode_at_path path) (\<lambda>node.
     act_bind (act_gets (\<lambda>s. block_size (f_geo s))) (\<lambda>bs.
     readlink_of node bs buf))"

section \<open>Symbolic links in the inode\<close>

lemma readlink_fast:
  assumes "is_fast_symlink node bs"
  shows "readlink_of node bs buf s =
    (let len = min (i_size node) (length buf) in
     if len \<le> length (inode_inline node) then (Ok (len, take len (inode_inline node) @ drop len buf), s) else (Panic, s))"
  using assms
  by (simp add: readlink_of_def is_fast_symlink_def Let_def act_bind_def act_lift_def act_return_def get_range_def put_range_def
      slice_def splice_def)

text \<open>
  C40. A fast symbolic link is exact: a target that fits the inode is stored in the block
  pointers and read back, cut to the buffer, and nothing else changes. Reading the
  link panics exactly when the inode claims a target longer than the pointers hold
  and the buffer is longer too.
\<close>

theorem fast_link_exact:
  assumes "is_fast_symlink node bs" and "length (i_block node) = NBLOCKS"
  shows "(length target \<le> inline_capacity \<longrightarrow>
      (case set_inline target node :: (inode, ext2_error) result of
         Ok node' \<Rightarrow> readlink_of node' bs buf s =
           (Ok (min (length target) (length buf), take (length buf) target @ drop (length target) buf), s)
       | _ \<Rightarrow> False)) \<and>
    (inline_capacity < min (i_size node) (length buf) \<longleftrightarrow> readlink_of node bs buf s = (Panic, s))"
proof (intro conjI impI)
  assume "length target \<le> inline_capacity"
  from set_inline_exact [OF this, of node, where 'e = ext2_error] obtain block where
    b: "set_inline target node = (Ok (node\<lparr>i_block := block, i_size := length target\<rparr>) :: (inode, ext2_error) result)"
      "inode_inline (node\<lparr>i_block := block, i_size := length target\<rparr>) = target @ replicate (inline_capacity - length target) 0" by blast
  have fast: "is_fast_symlink (node\<lparr>i_block := block, i_size := length target\<rparr>) bs"
    using assms(1) by (simp add: is_fast_symlink_def inode_kind_def)
  show "case set_inline target node :: (inode, ext2_error) result of
         Ok node' \<Rightarrow> readlink_of node' bs buf s =
           (Ok (min (length target) (length buf), take (length buf) target @ drop (length target) buf), s)
       | _ \<Rightarrow> False"
    unfolding b(1) result.case readlink_fast [OF fast] b(2) by (simp add: Let_def min_def)
next
  show "inline_capacity < min (i_size node) (length buf) \<longleftrightarrow> readlink_of node bs buf s = (Panic, s)"
    unfolding readlink_fast [OF assms(1)] by (auto simp: Let_def length_inline assms(2) inline_capacity_def)
qed

text \<open>A link whose size lies: 61 bytes, where the inode has room for 60.\<close>

definition long_link :: inode where
  "long_link = (inode_new E_IFLNK 0)\<lparr>i_size := 61\<rparr>"

theorem fast_link_exact_witness:
  "(case set_inline [47, 97] long_link :: (inode, ext2_error) result of
      Ok node \<Rightarrow> readlink_of node 1024 [1, 2, 3] tiny_fs = (Ok (2, [47, 97, 3]), tiny_fs) | _ \<Rightarrow> False) \<and>
   readlink_of long_link 1024 (replicate 64 0) tiny_fs = (Panic, tiny_fs)"
proof
  have fast: "is_fast_symlink long_link 1024" "length (i_block long_link) = NBLOCKS"
    by (simp_all add: long_link_def inode_new_def is_fast_symlink_def inode_kind_def mode_kind_def E_IFLNK_def E_IFMT_def E_IFREG_def E_IFDIR_def)
  have cap: "inline_capacity = 60" by (simp add: inline_capacity_def NBLOCKS_def)
  show "case set_inline [47, 97] long_link :: (inode, ext2_error) result of
      Ok node \<Rightarrow> readlink_of node 1024 [1, 2, 3] tiny_fs = (Ok (2, [47, 97, 3]), tiny_fs) | _ \<Rightarrow> False"
    using fast_link_exact [OF fast, of "[47, 97]" "[1, 2, 3]" tiny_fs] by (simp add: cap split: result.splits)
  show "readlink_of long_link 1024 (replicate 64 0) tiny_fs = (Panic, tiny_fs)"
    using fast_link_exact [OF fast, of "[]" "replicate 64 0" tiny_fs] by (simp add: cap long_link_def)
qed

end
