(* ===== verification/Ext2_Mkfs.thy ===== *)
theory Ext2_Mkfs
  imports Ext2_Dir
begin

text \<open>
  Formatting a device as ext2 (\<^verbatim>\<open>modules/ext2/ext2fs/src/mkfs.rs\<close>). The lemmas show that the
  geometry \<^verbatim>\<open>mkfs\<close> chooses is well formed, that its groups hold their metadata, that no step of
  it panics, and that the disk it writes can be mounted with that geometry.
\<close>

section \<open>The layout\<close>

definition SMALL :: nat where "SMALL = 512 * 1024 * 1024"
definition INODE_SIZE :: nat where "INODE_SIZE = 128"
definition LOST_FOUND_INO :: nat where "LOST_FOUND_INO = 11"
definition MIN_LAST_GROUP_DATA :: nat where "MIN_LAST_GROUP_DATA = 50"

record mkfs_plan =
  pl_geo :: geometry
  pl_itable :: nat
  pl_gdt_blocks :: nat

text \<open>Blocks of metadata in group \<open>g\<close>.\<close>

definition plan_meta :: "nat \<Rightarrow> nat \<Rightarrow> nat \<Rightarrow> nat" where
  "plan_meta gdtb itable g = (if has_super g True then 1 + gdtb else 0) + 2 + itable"

definition mkfs_layout :: "nat \<Rightarrow> (mkfs_plan, ext2_error) result" where
  "mkfs_layout bytes =
     (let (bs, ratio) = (if bytes < SMALL then (1024, 4096) else (4096, 16384));
          first_data = (if bs = 1024 then 1 else 0);
          bpg = bs * 8;
          blocks = min (bytes div bs) u32_MAX
      in if blocks < first_data + 64 then Err NoSpace
      else
        let n = div_ceil (blocks - first_data) bpg;
            per_block = bs div INODE_SIZE;
            want = div_ceil (blocks * bs div ratio) n;
            ipg = min (div_ceil (max want 16) per_block * per_block) bpg;
            itable = ipg div per_block;
            gdtb = div_ceil (n * GD_SIZE) bs;
            meta = plan_meta gdtb itable (n - 1);
            last_len = blocks - first_data - (n - 1) * bpg;
            geo = (\<lambda>n blocks. \<lparr>block_size = bs, first_data_block = first_data, blocks_count = blocks,
              inodes_count = n * ipg, blocks_per_group = bpg, inodes_per_group = ipg, inode_size = INODE_SIZE,
              first_ino = GOOD_OLD_FIRST_INO, groups = n, filetype = True, large_file = True\<rparr>)
        in if 1 < n \<and> last_len < meta + MIN_LAST_GROUP_DATA then
             Ok \<lparr>pl_geo = geo (n - 1) (first_data + (n - 1) * bpg), pl_itable = itable, pl_gdt_blocks = gdtb\<rparr>
           else if last_len < meta + 2 then Err NoSpace
           else Ok \<lparr>pl_geo = geo n blocks, pl_itable = itable, pl_gdt_blocks = gdtb\<rparr>)"

section \<open>Writing it\<close>

type_synonym ('d, 'a) dev_action = "('d device, 'a, ext2_error) action"

definition dev_put :: "nat \<Rightarrow> bytes \<Rightarrow> ('d, unit) dev_action" where
  "dev_put off data dev = (case dev_write off data dev of (ok, dev) \<Rightarrow> (if ok then Ok () else Err Io, dev))"

definition dev_get :: "nat \<Rightarrow> bytes \<Rightarrow> ('d, bytes) dev_action" where
  "dev_get off buf dev = (case dev_read off buf dev of (ok, buf, dev) \<Rightarrow> (if ok then Ok buf else Err Io, dev))"

definition dev_time :: "('d, u32) dev_action" where
  "dev_time dev = (case dev_now dev of (t, dev) \<Rightarrow> (Ok t, dev))"

definition put_block :: "nat \<Rightarrow> nat \<Rightarrow> bytes \<Rightarrow> ('d, unit) dev_action" where
  "put_block bs block data = dev_put (block * bs) data"

definition set_bits :: "nat list \<Rightarrow> bytes \<Rightarrow> bytes" where
  "set_bits is bm = foldl (\<lambda>bm i. bm[i div 8 := bm ! (i div 8) OR bit_mask i]) bm is"

text \<open>The state of the loop over the groups: the descriptors and the free counts.\<close>

type_synonym group_totals = "bytes \<times> nat \<times> nat"

definition mkfs_group :: "mkfs_plan \<Rightarrow> nat \<Rightarrow> group_totals \<Rightarrow> ('d, group_totals) dev_action" where
  "mkfs_group plan g = (\<lambda>(gdt, free_blocks, free_inodes).
     let geo = pl_geo plan; bs = block_size geo; bpg = blocks_per_group geo; ipg = inodes_per_group geo;
         first = group_first geo g; len = group_blocks geo g;
         bb = first + (if has_super g True then 1 + pl_gdt_blocks plan else 0); ib = bb + 1; it = bb + 2;
         used_blocks = plan_meta (pl_gdt_blocks plan) (pl_itable plan) g + (if g = 0 then 2 else 0);
         used_inodes = (if g = 0 then LOST_FOUND_INO else 0);
         dirs = (if g = 0 then 2 else 0);
         off = g * GD_SIZE
     in
     act_bind (put_block bs bb (set_bits ([0..<used_blocks] @ [len..<bpg]) (replicate bs 0))) (\<lambda>_.
     act_bind (put_block bs ib (set_bits ([0..<used_inodes] @ [ipg..<bs * 8]) (replicate bs 0))) (\<lambda>_.
     act_bind (act_fold (\<lambda>b _. put_block bs b (replicate bs 0)) [it..<it + pl_itable plan] ()) (\<lambda>_.
     act_lift (
       bind_result (put32 gdt (off + G_BLOCK_BITMAP) (word_of_nat bb)) (\<lambda>gdt.
       bind_result (put32 gdt (off + G_INODE_BITMAP) (word_of_nat ib)) (\<lambda>gdt.
       bind_result (put32 gdt (off + G_INODE_TABLE) (word_of_nat it)) (\<lambda>gdt.
       bind_result (usize_sub len used_blocks) (\<lambda>fb.
       bind_result (usize_sub ipg used_inodes) (\<lambda>fi.
       bind_result (put16 gdt (off + G_FREE_BLOCKS) (word_of_nat fb)) (\<lambda>gdt.
       bind_result (put16 gdt (off + G_FREE_INODES) (word_of_nat fi)) (\<lambda>gdt.
       bind_result (put16 gdt (off + G_USED_DIRS) dirs) (\<lambda>gdt.
       Ok (gdt, free_blocks + fb, free_inodes + fi))))))))))))))"

definition dirent :: "bytes \<Rightarrow> nat \<Rightarrow> nat \<Rightarrow> nat \<Rightarrow> string \<Rightarrow> (bytes, 'e) result" where
  "dirent blk off ino len name =
     bind_result (put32 blk off (word_of_nat ino)) (\<lambda>blk.
     bind_result (put16 blk (off + 4) (word_of_nat len)) (\<lambda>blk.
     bind_result (put_byte blk (off + 6) (word_of_nat (length name))) (\<lambda>blk.
     bind_result (put_byte blk (off + 7) FT_DIR) (\<lambda>blk.
     put_range (off + 8) (off + 8 + length name) (map of_char name) blk))))"

definition mkfs_root :: "nat \<Rightarrow> (bytes, 'e) result" where
  "mkfs_root bs =
     bind_result (dirent (replicate bs 0) 0 ROOT_INO 12 ''.'') (\<lambda>blk.
     bind_result (dirent blk 12 ROOT_INO 12 ''..'') (\<lambda>blk.
     dirent blk 24 LOST_FOUND_INO (bs - 24) ''lost+found''))"

definition mkfs_lost_found :: "nat \<Rightarrow> (bytes, 'e) result" where
  "mkfs_lost_found bs =
     bind_result (dirent (replicate bs 0) 0 LOST_FOUND_INO 12 ''.'') (\<lambda>blk.
     dirent blk 12 ROOT_INO (bs - 12) ''..'')"

text \<open>The inode of one of the two directories, written over its slot of the table.\<close>

definition mkfs_inode :: "nat \<Rightarrow> nat \<Rightarrow> u32 \<Rightarrow> nat \<times> u16 \<times> u16 \<times> nat \<Rightarrow> bytes \<Rightarrow> ('d, bytes) dev_action" where
  "mkfs_inode bs table0 now = (\<lambda>(ino, mode, links, blk) itable0.
     let off = (ino - 1) * INODE_SIZE; block = table0 + off div bs; at = off mod bs in
     act_bind (dev_get (block * bs) itable0) (\<lambda>itable0.
     act_bind (act_lift (
       bind_result (get_range at (at + INODE_SIZE) itable0) (\<lambda>n.
       bind_result (put16 n 0 mode) (\<lambda>n.
       bind_result (put32 n 4 (word_of_nat bs)) (\<lambda>n.
       bind_result (put32 n 8 now) (\<lambda>n.
       bind_result (put32 n 12 now) (\<lambda>n.
       bind_result (put32 n 16 now) (\<lambda>n.
       bind_result (put16 n 26 links) (\<lambda>n.
       bind_result (put32 n 28 (word_of_nat (bs div 512))) (\<lambda>n.
       bind_result (put32 n 40 (word_of_nat blk)) (\<lambda>n.
       put_range at (at + INODE_SIZE) n itable0))))))))))) (\<lambda>itable0.
     act_bind (put_block bs block itable0) (\<lambda>_. act_return itable0))))"

text \<open>\<^verbatim>\<open>bs.trailing_zeros() - 10\<close> of the two block sizes.\<close>

definition block_log :: "nat \<Rightarrow> nat" where
  "block_log bs = (if bs = 1024 then 0 else 2)"

text \<open>The fields of the superblock and their values, in the order they are written.\<close>

fun put_fields :: "(nat \<times> u32) list \<Rightarrow> bytes \<Rightarrow> (bytes, 'e) result" where
  "put_fields [] b = Ok b"
| "put_fields ((off, v) # fs) b = bind_result (put32 b off v) (\<lambda>b. put_fields fs b)"

definition volume_uuid :: "nat \<Rightarrow> u32 \<Rightarrow> bytes" where
  "volume_uuid bytes now =
     (let seed = to_le64 (word_of_nat bytes XOR push_bit 32 (ucast now) XOR 0x6d796f7365787432)
      in map (\<lambda>i. seed ! (i mod 8) * 31 + word_of_nat i * 17) [0..<16])"

definition mkfs_super :: "geometry \<Rightarrow> nat \<Rightarrow> u32 \<Rightarrow> nat \<Rightarrow> nat \<Rightarrow> (bytes, 'e) result" where
  "mkfs_super geo bytes now free_blocks free_inodes =
     (let log = word_of_nat (block_log (block_size geo)); bpg = word_of_nat (blocks_per_group geo) in
      bind_result (put_fields
        [(S_INODES_COUNT, word_of_nat (inodes_count geo)), (S_BLOCKS_COUNT, word_of_nat (blocks_count geo)),
         (S_FREE_BLOCKS, word_of_nat free_blocks), (S_FREE_INODES, word_of_nat free_inodes),
         (S_FIRST_DATA_BLOCK, word_of_nat (first_data_block geo)), (S_LOG_BLOCK_SIZE, log), (28, log),
         (S_BLOCKS_PER_GROUP, bpg), (36, bpg), (S_INODES_PER_GROUP, word_of_nat (inodes_per_group geo)),
         (44, now), (S_WTIME, now)] (replicate SB_SIZE 0)) (\<lambda>sb.
      bind_result (put16 sb 54 0xFFFF) (\<lambda>sb.
      bind_result (put16 sb S_MAGIC MAGIC) (\<lambda>sb.
      bind_result (put16 sb S_STATE 1) (\<lambda>sb.
      bind_result (put16 sb 60 1) (\<lambda>sb.
      bind_result (put_fields [(64, now), (S_REV_LEVEL, 1), (S_FIRST_INO, word_of_nat GOOD_OLD_FIRST_INO)] sb) (\<lambda>sb.
      bind_result (put16 sb S_INODE_SIZE (word_of_nat INODE_SIZE)) (\<lambda>sb.
      bind_result (put_fields [(S_FEATURE_INCOMPAT, INCOMPAT_FILETYPE),
        (S_FEATURE_RO_COMPAT, RO_COMPAT_SPARSE_SUPER OR RO_COMPAT_LARGE_FILE)] sb) (\<lambda>sb.
      bind_result (put_range 104 120 (volume_uuid bytes now) sb) (\<lambda>sb.
      put_range 120 124 (map of_char ''myos'') sb))))))))))"

definition mkfs_backup :: "mkfs_plan \<Rightarrow> bytes \<Rightarrow> nat \<Rightarrow> bytes \<Rightarrow> ('d, bytes) dev_action" where
  "mkfs_backup plan gdt g sb =
     (let geo = pl_geo plan; bs = block_size geo; first = group_first geo g in
      if has_super g True then
        act_bind (act_lift (put16 sb S_BLOCK_GROUP_NR (word_of_nat g))) (\<lambda>sb.
        act_bind (dev_put (if g = 0 then SB_OFFSET else first * bs) sb) (\<lambda>_.
        act_bind (dev_put ((first + 1) * bs) gdt) (\<lambda>_.
        act_return sb)))
      else act_return sb)"

text \<open>Group 0's first two data blocks: the root directory and \<^verbatim>\<open>lost+found\<close>.\<close>

definition root_blk :: "mkfs_plan \<Rightarrow> nat" where
  "root_blk plan = group_first (pl_geo plan) 0 + plan_meta (pl_gdt_blocks plan) (pl_itable plan) 0"

definition mkfs_dirs :: "mkfs_plan \<Rightarrow> u32 \<Rightarrow> bytes \<Rightarrow> ('d, bytes) dev_action" where
  "mkfs_dirs plan now gdt =
     (let bs = block_size (pl_geo plan); lf_blk = root_blk plan + 1 in
      act_bind (act_lift (mkfs_root bs)) (\<lambda>root.
      act_bind (put_block bs (root_blk plan) root) (\<lambda>_.
      act_bind (act_lift (mkfs_lost_found bs)) (\<lambda>lf.
      act_bind (put_block bs lf_blk lf) (\<lambda>_.
      act_bind (act_lift (get32n gdt G_INODE_TABLE)) (\<lambda>table0.
      act_fold (mkfs_inode bs table0 now)
        [(ROOT_INO, E_IFDIR OR 0x1ED, 3, root_blk plan), (LOST_FOUND_INO, E_IFDIR OR 0x1C0, 2, lf_blk)] (replicate bs 0)))))))"

definition mkfs_supers :: "mkfs_plan \<Rightarrow> nat \<Rightarrow> u32 \<Rightarrow> group_totals \<Rightarrow> ('d, unit) dev_action" where
  "mkfs_supers plan bytes now = (\<lambda>(gdt, free_blocks, free_inodes).
     act_bind (act_lift (mkfs_super (pl_geo plan) bytes now free_blocks free_inodes)) (\<lambda>sb.
     act_bind (act_fold (mkfs_backup plan gdt) [0..<groups (pl_geo plan)] sb) (\<lambda>_.
     act_return ())))"

definition mkfs :: "nat \<Rightarrow> ('d, unit) dev_action" where
  "mkfs bytes =
     act_bind (act_lift (mkfs_layout bytes)) (\<lambda>plan.
     act_bind dev_time (\<lambda>now.
     act_bind (act_fold (mkfs_group plan) [0..<groups (pl_geo plan)]
       (replicate (pl_gdt_blocks plan * block_size (pl_geo plan)) 0, 0, 0)) (\<lambda>totals.
     act_bind (mkfs_dirs plan now (fst totals)) (\<lambda>_.
     mkfs_supers plan bytes now totals))))"

section \<open>What the layout guarantees\<close>

text \<open>The choices of \<^verbatim>\<open>mkfs\<close> for \<open>blocks\<close> blocks of \<open>bs\<close> bytes.\<close>

definition plan_groups :: "nat \<Rightarrow> nat \<Rightarrow> nat \<Rightarrow> nat" where
  "plan_groups bs fd blocks = div_ceil (blocks - fd) (bs * 8)"

definition plan_ipg :: "nat \<Rightarrow> nat \<Rightarrow> nat \<Rightarrow> nat" where
  "plan_ipg bs blocks n =
     (let per = bs div INODE_SIZE in
      min (div_ceil (max (div_ceil (blocks * bs div (bs * 4)) n) 16) per * per) (bs * 8))"

definition plan_of :: "nat \<Rightarrow> nat \<Rightarrow> nat \<Rightarrow> nat \<Rightarrow> nat \<Rightarrow> nat \<Rightarrow> mkfs_plan" where
  "plan_of bs fd blocks n k c =
     (let ipg = plan_ipg bs blocks n in
     \<lparr>pl_geo = \<lparr>block_size = bs, first_data_block = fd, blocks_count = c,
              inodes_count = k * ipg, blocks_per_group = bs * 8, inodes_per_group = ipg, inode_size = INODE_SIZE,
              first_ino = GOOD_OLD_FIRST_INO, groups = k, filetype = True, large_file = True\<rparr>,
      pl_itable = ipg div (bs div INODE_SIZE), pl_gdt_blocks = div_ceil (n * GD_SIZE) bs\<rparr>)"

lemma mkfs_layout_eq:
  assumes bs: "bs = (if bytes < SMALL then 1024 else 4096)" and fd: "fd = (if bs = 1024 then 1 else 0)"
    and blocks: "blocks = min (bytes div bs) u32_MAX" and n: "n = plan_groups bs fd blocks"
    and last_len: "last_len = blocks - fd - (n - 1) * (bs * 8)"
    and meta: "meta = plan_meta (div_ceil (n * GD_SIZE) bs) (plan_ipg bs blocks n div (bs div INODE_SIZE)) (n - 1)"
  shows "mkfs_layout bytes = (if blocks < fd + 64 then Err NoSpace
      else if 1 < n \<and> last_len < meta + MIN_LAST_GROUP_DATA then Ok (plan_of bs fd blocks n (n - 1) (fd + (n - 1) * (bs * 8)))
      else if last_len < meta + 2 then Err NoSpace else Ok (plan_of bs fd blocks n n blocks))"
proof -
  have ratio: "(if bytes < SMALL then (1024, 4096) else (4096, 16384)) = (bs, bs * 4)" by (simp add: bs)
  show ?thesis
    unfolding mkfs_layout_def ratio
    by (simp only: prod.case Let_def fd [symmetric] blocks [symmetric] plan_groups_def [symmetric] n [symmetric]
        plan_ipg_def [unfolded Let_def, symmetric] plan_of_def meta [symmetric] last_len [symmetric])
qed

definition plan_sizes :: "nat \<Rightarrow> nat \<Rightarrow> nat \<Rightarrow> bool" where
  "plan_sizes bs fd blocks \<longleftrightarrow>
     (bs = 1024 \<and> fd = 1 \<and> blocks < 524288 \<or> bs = 4096 \<and> fd = 0 \<and> blocks \<le> u32_MAX) \<and> fd + 64 \<le> blocks"

lemma plan_groups_bounds:
  assumes "plan_sizes bs fd blocks" and n: "n = plan_groups bs fd blocks"
  shows "0 < n" "(n - 1) * (bs * 8) < blocks - fd" "blocks - fd \<le> n * (bs * 8)" "bs = 1024 \<Longrightarrow> n \<le> 64" "n \<le> 131072"
proof -
  have bs: "0 < bs * 8" and b: "0 < blocks - fd" using assms(1) by (auto simp: plan_sizes_def)
  have iff: "n \<le> m \<longleftrightarrow> blocks - fd \<le> m * (bs * 8)" for m
    unfolding n plan_groups_def by (rule div_ceil_le_iff [OF bs])
  show "0 < n" using iff [of 0] b by simp
  then have "\<not> n \<le> n - 1" by simp
  then show "(n - 1) * (bs * 8) < blocks - fd" unfolding iff by simp
  show "blocks - fd \<le> n * (bs * 8)" using iff [of n] by simp
  show "bs = 1024 \<Longrightarrow> n \<le> 64" "n \<le> 131072" using assms(1) unfolding iff by (auto simp: plan_sizes_def u32_MAX_def)
qed

lemma plan_ipg_bounds:
  assumes sizes: "plan_sizes bs fd blocks" and n: "n = plan_groups bs fd blocks"
  shows "0 < plan_ipg bs blocks n" "plan_ipg bs blocks n \<le> bs * 8" "plan_ipg bs blocks n \<le> 8192"
proof -
  define want where "want = div_ceil (blocks * bs div (bs * 4)) n"
  define per where "per = bs div INODE_SIZE"
  have per: "0 < per" "bs = 1024 \<or> per = 32" using sizes by (auto simp: per_def plan_sizes_def INODE_SIZE_def)
  have ipg: "plan_ipg bs blocks n = min (div_ceil (max want 16) per * per) (bs * 8)"
    by (simp add: plan_ipg_def Let_def want_def per_def)
  note nb = plan_groups_bounds [OF sizes n]
  have "\<not> div_ceil (max want 16) per \<le> 0" unfolding div_ceil_le_iff [OF per(1)] by simp
  then show "0 < plan_ipg bs blocks n" using per(1) sizes by (auto simp: ipg plan_sizes_def)
  show le: "plan_ipg bs blocks n \<le> bs * 8" by (simp add: ipg)
  show "plan_ipg bs blocks n \<le> 8192"
  proof (cases "bs = 1024")
    case False
    then have bs: "bs = 4096" "fd = 0" "per = 32" using sizes per by (auto simp: plan_sizes_def)
    have "blocks * bs div (bs * 4) = blocks div 4" using bs by (simp add: div_mult2_eq)
    also have "\<dots> \<le> 8192 * n" using nb(3) bs by simp
    finally have "want \<le> 8192" unfolding want_def div_ceil_le_iff [OF nb(1)] .
    then have "div_ceil (max want 16) per \<le> 256" unfolding div_ceil_le_iff [OF per(1)] by (simp add: bs)
    then have "div_ceil (max want 16) per * per \<le> 256 * 32" using bs(3) by (intro mult_le_mono) simp_all
    then show ?thesis unfolding ipg by linarith
  qed (use le in simp)
qed

lemma plan_meta_bound:
  assumes sizes: "plan_sizes bs fd blocks" and n: "n = plan_groups bs fd blocks"
  shows "plan_meta (div_ceil (n * GD_SIZE) bs) (plan_ipg bs blocks n div (bs div INODE_SIZE)) g + 2 \<le> bs * 8"
proof -
  have bs: "0 < bs" using sizes by (auto simp: plan_sizes_def)
  have "div_ceil (n * GD_SIZE) bs \<le> 1024"
    unfolding div_ceil_le_iff [OF bs] using plan_groups_bounds(4,5) [OF sizes n] sizes
    by (auto simp: plan_sizes_def GD_SIZE_def)
  moreover have "plan_ipg bs blocks n div (bs div INODE_SIZE) \<le> 1024"
  proof -
    have "plan_ipg bs blocks n div (bs div INODE_SIZE) \<le> 8 * bs div (bs div INODE_SIZE)"
      using plan_ipg_bounds(2) [OF sizes n] by (intro div_le_mono) simp
    also have "\<dots> \<le> 1024" using sizes by (auto simp: plan_sizes_def INODE_SIZE_def)
    finally show ?thesis .
  qed
  ultimately show ?thesis using sizes by (auto simp: plan_meta_def plan_sizes_def)
qed

lemma mkfs_layoutE:
  assumes "mkfs_layout bytes = Ok plan"
  obtains bs fd blocks n k c where "plan_sizes bs fd blocks" and "n = plan_groups bs fd blocks"
    and "plan = plan_of bs fd blocks n k c" and "0 < k" and "k \<le> n" and "c \<le> blocks"
    and "k = plan_groups bs fd c"
    and "\<And>g. g < k \<Longrightarrow> plan_meta (pl_gdt_blocks plan) (pl_itable plan) g + (if g = 0 then 2 else 0) \<le> group_blocks (pl_geo plan) g"
proof -
  define bs :: nat where "bs = (if bytes < SMALL then 1024 else 4096)"
  define fd :: nat where "fd = (if bs = 1024 then 1 else 0)"
  define blocks where "blocks = min (bytes div bs) u32_MAX"
  define n where "n = plan_groups bs fd blocks"
  define meta where "meta = plan_meta (div_ceil (n * GD_SIZE) bs) (plan_ipg bs blocks n div (bs div INODE_SIZE))"
  note run = mkfs_layout_eq [OF bs_def fd_def blocks_def n_def refl, of "meta (n - 1)", unfolded meta_def, OF refl, folded meta_def]
  have ge: "fd + 64 \<le> blocks" using assms unfolding run by (simp split: if_splits)
  have sizes: "plan_sizes bs fd blocks"
  proof -
    have "blocks < 524288" if "bs = 1024"
    proof -
      have "bytes < 524288 * 1024" using that by (simp add: bs_def SMALL_def split: if_splits)
      then have "bytes div 1024 < 524288" by (rule less_mult_imp_div_less)
      then show ?thesis by (simp add: blocks_def that)
    qed
    moreover have "blocks \<le> u32_MAX" by (simp add: blocks_def)
    ultimately show ?thesis using ge by (auto simp: plan_sizes_def bs_def fd_def)
  qed
  note nb = plan_groups_bounds [OF sizes n_def]
  have full: "meta g + 2 \<le> bs * 8" for g unfolding meta_def by (rule plan_meta_bound [OF sizes n_def])
  have bs: "0 < bs * 8" using sizes by (auto simp: plan_sizes_def)
  have sel: "pl_gdt_blocks (plan_of bs fd blocks n k c) = div_ceil (n * GD_SIZE) bs"
    "pl_itable (plan_of bs fd blocks n k c) = plan_ipg bs blocks n div (bs div INODE_SIZE)"
    "group_blocks (pl_geo (plan_of bs fd blocks n k c)) g = min (c - (fd + g * (bs * 8))) (bs * 8)" for k c g
    by (simp_all add: plan_of_def Let_def group_blocks_def group_first_def)
  consider (shrunk) "1 < n" "plan = plan_of bs fd blocks n (n - 1) (fd + (n - 1) * (bs * 8))"
    | (whole) "plan = plan_of bs fd blocks n n blocks" "meta (n - 1) + 2 \<le> blocks - fd - (n - 1) * (bs * 8)"
    using assms unfolding run by (auto split: if_splits)
  then show ?thesis
  proof cases
    case shrunk
    have k: "n - 1 = plan_groups bs fd (fd + (n - 1) * (bs * 8))"
      using bs by (simp add: plan_groups_def div_ceil_def)
    have fits: "meta g + (if g = 0 then 2 else 0) \<le> min (fd + (n - 1) * (bs * 8) - (fd + g * (bs * 8))) (bs * 8)" if "g < n - 1" for g
    proof -
      have "(g + 1) * (bs * 8) \<le> (n - 1) * (bs * 8)" using that by (intro mult_le_mono1) simp
      then show ?thesis using full [of g] by (cases "g = 0") simp_all
    qed
    have c: "0 < n - 1" "n - 1 \<le> n" "fd + (n - 1) * (bs * 8) \<le> blocks" using shrunk(1) nb(2) by simp_all
    show ?thesis
    proof (rule that [OF sizes n_def shrunk(2) c k])
      fix g assume "g < n - 1"
      from fits [OF this] show "plan_meta (pl_gdt_blocks plan) (pl_itable plan) g + (if g = 0 then 2 else 0) \<le> group_blocks (pl_geo plan) g"
        unfolding shrunk(2) sel meta_def .
    qed
  next
    case whole
    have fits: "meta g + (if g = 0 then 2 else 0) \<le> min (blocks - (fd + g * (bs * 8))) (bs * 8)" if "g < n" for g
    proof (cases "g = n - 1")
      case True
      then show ?thesis using full [of g] whole(2) by (cases "g = 0") simp_all
    next
      case False
      then have "(g + 1) * (bs * 8) \<le> (n - 1) * (bs * 8)" using that by (intro mult_le_mono1) simp
      then have "(g + 1) * (bs * 8) < blocks - fd" using nb(2) by linarith
      then show ?thesis using full [of g] by (cases "g = 0") simp_all
    qed
    show ?thesis
    proof (rule that [OF sizes n_def whole(1) nb(1) order_refl order_refl n_def])
      fix g assume "g < n"
      from fits [OF this] show "plan_meta (pl_gdt_blocks plan) (pl_itable plan) g + (if g = 0 then 2 else 0) \<le> group_blocks (pl_geo plan) g"
        unfolding whole(1) sel meta_def .
    qed
  qed
qed

section \<open>The superblock\<close>

definition super_fields :: "geometry \<Rightarrow> nat \<Rightarrow> u32 \<Rightarrow> nat \<Rightarrow> nat \<Rightarrow> fields" where
  "super_fields geo bytes now free_blocks free_inodes =
     (let w = (\<lambda>n. to_le32 (word_of_nat n)); log = w (block_log (block_size geo)); bpg = w (blocks_per_group geo) in
      [(S_INODES_COUNT, w (inodes_count geo)), (S_BLOCKS_COUNT, w (blocks_count geo)), (S_FREE_BLOCKS, w free_blocks),
       (S_FREE_INODES, w free_inodes), (S_FIRST_DATA_BLOCK, w (first_data_block geo)), (S_LOG_BLOCK_SIZE, log), (28, log),
       (S_BLOCKS_PER_GROUP, bpg), (36, bpg), (S_INODES_PER_GROUP, w (inodes_per_group geo)), (44, to_le32 now),
       (S_WTIME, to_le32 now), (54, to_le16 0xFFFF), (S_MAGIC, to_le16 MAGIC), (S_STATE, to_le16 1), (60, to_le16 1),
       (64, to_le32 now), (S_REV_LEVEL, to_le32 1), (S_FIRST_INO, w GOOD_OLD_FIRST_INO),
       (S_INODE_SIZE, to_le16 (word_of_nat INODE_SIZE)), (S_FEATURE_INCOMPAT, to_le32 INCOMPAT_FILETYPE),
       (S_FEATURE_RO_COMPAT, to_le32 (RO_COMPAT_SPARSE_SUPER OR RO_COMPAT_LARGE_FILE)),
       (104, volume_uuid bytes now), (120, map of_char ''myos'')])"

lemma put_fields_all: "put_fields fs b = (put_all (map (\<lambda>(off, v). (off, to_le32 v)) fs) b :: (bytes, 'e) result)"
proof (induction fs arbitrary: b)
  case (Cons f fs)
  have "put_fields fs = (put_all (map (\<lambda>(off, v). (off, to_le32 v)) fs) :: bytes \<Rightarrow> (bytes, 'e) result)"
    by (rule ext) (rule Cons.IH)
  then show ?case by (cases f) (simp add: put32_def)
qed simp

lemma mkfs_super_all:
  "mkfs_super geo bytes now fb fi = put_all (super_fields geo bytes now fb fi) (replicate SB_SIZE 0)"
proof -
  have u: "length (volume_uuid bytes now) = 16" by (simp add: volume_uuid_def Let_def)
  show ?thesis
    unfolding mkfs_super_def super_fields_def Let_def put_fields_all put16_def
    by (simp add: bind_result_assoc u cong: bind_result_cong)
qed

lemma super_fields_in: "fields_in 0 (super_fields geo bytes now fb fi) SB_SIZE"
  by (simp add: super_fields_def Let_def sb_fields SB_SIZE_def volume_uuid_def)

lemma geometry_parse_super:
  assumes hold: "fields_hold (super_fields geo bytes now fb fi) sb"
    and geo: "wf_geometry geo" "block_size geo = 1024 \<or> block_size geo = 4096" "inode_size geo = INODE_SIZE"
      "first_ino geo = GOOD_OLD_FIRST_INO" "filetype geo" "large_file geo"
  shows "geometry_parse sb = Ok geo"
proof -
  have w: "unat (word_of_nat n :: u32) = n" if "n \<le> u32_MAX" for n
    using that by (simp add: unat_of_nat u32_MAX_def)
  have le: "blocks_count geo \<le> u32_MAX" "inodes_count geo \<le> u32_MAX" "first_data_block geo \<le> u32_MAX"
    "blocks_per_group geo \<le> u32_MAX" "inodes_per_group geo \<le> u32_MAX"
    using geo(1) by (auto simp: wf_geometry_def geometry_ok_def u32_MAX_def)
  have g: "get16 sb S_MAGIC = (Ok MAGIC :: (u16, ext2_error) result)"
    "get32 sb S_LOG_BLOCK_SIZE = (Ok (word_of_nat (block_log (block_size geo))) :: (u32, ext2_error) result)"
    "get32 sb S_REV_LEVEL = (Ok 1 :: (u32, ext2_error) result)"
    "get32 sb S_FEATURE_INCOMPAT = (Ok INCOMPAT_FILETYPE :: (u32, ext2_error) result)"
    "get32 sb S_FEATURE_RO_COMPAT = (Ok (RO_COMPAT_SPARSE_SUPER OR RO_COMPAT_LARGE_FILE) :: (u32, ext2_error) result)"
    "get16 sb S_INODE_SIZE = (Ok (word_of_nat INODE_SIZE) :: (u16, ext2_error) result)"
    "get32 sb S_FIRST_INO = (Ok (word_of_nat GOOD_OLD_FIRST_INO) :: (u32, ext2_error) result)"
    "get32 sb S_FIRST_DATA_BLOCK = (Ok (word_of_nat (first_data_block geo)) :: (u32, ext2_error) result)"
    "get32 sb S_BLOCKS_COUNT = (Ok (word_of_nat (blocks_count geo)) :: (u32, ext2_error) result)"
    "get32 sb S_INODES_COUNT = (Ok (word_of_nat (inodes_count geo)) :: (u32, ext2_error) result)"
    "get32 sb S_BLOCKS_PER_GROUP = (Ok (word_of_nat (blocks_per_group geo)) :: (u32, ext2_error) result)"
    "get32 sb S_INODES_PER_GROUP = (Ok (word_of_nat (inodes_per_group geo)) :: (u32, ext2_error) result)"
    using hold by (simp_all add: super_fields_def Let_def get_as_slice)
  have sz: "\<not> 2 < (word_of_nat (block_log (block_size geo)) :: u32)"
    "1024 * 2 ^ unat (word_of_nat (block_log (block_size geo)) :: u32) = block_size geo"
    using geo(2) by (auto simp: block_log_def)
  have flags: "INCOMPAT_FILETYPE AND NOT INCOMPAT_FILETYPE = 0"
    "(RO_COMPAT_SPARSE_SUPER OR RO_COMPAT_LARGE_FILE) AND NOT (RO_COMPAT_SPARSE_SUPER OR RO_COMPAT_LARGE_FILE) = 0"
    "INCOMPAT_FILETYPE AND INCOMPAT_FILETYPE \<noteq> 0" "(RO_COMPAT_SPARSE_SUPER OR RO_COMPAT_LARGE_FILE) AND RO_COMPAT_LARGE_FILE \<noteq> 0"
    by (simp_all add: INCOMPAT_FILETYPE_def RO_COMPAT_SPARSE_SUPER_def RO_COMPAT_LARGE_FILE_def)
  have ino: "unat (word_of_nat INODE_SIZE :: u16) = INODE_SIZE" "unat (word_of_nat GOOD_OLD_FIRST_INO :: u32) = GOOD_OLD_FIRST_INO"
    by (simp_all add: INODE_SIZE_def GOOD_OLD_FIRST_INO_def)
  have check: "geometry_check (geo\<lparr>groups := 0\<rparr>) = Ok geo"
  proof -
    have "groups geo = div_ceil (blocks_count geo - first_data_block geo) (blocks_per_group geo)"
      "groups geo * inodes_per_group geo = inodes_count geo" "geometry_ok geo"
      using geo(1) by (auto simp: wf_geometry_def)
    then show ?thesis by (simp add: geometry_check_def geometry_ok_def Let_def)
  qed
  have rec: "\<lparr>block_size = block_size geo, first_data_block = first_data_block geo, blocks_count = blocks_count geo,
      inodes_count = inodes_count geo, blocks_per_group = blocks_per_group geo, inodes_per_group = inodes_per_group geo,
      inode_size = INODE_SIZE, first_ino = GOOD_OLD_FIRST_INO, groups = 0, filetype = True, large_file = True\<rparr> = geo\<lparr>groups := 0\<rparr>"
    using geo(3-) by simp
  show ?thesis
    unfolding geometry_parse_def g bind_result.simps using sz flags ino w [OF le(1)] w [OF le(2)] w [OF le(3)] w [OF le(4)] w [OF le(5)]
    by (simp add: rec check)
qed

lemma plan_wf:
  assumes "mkfs_layout bytes = Ok plan"
  shows "wf_geometry (pl_geo plan)" "block_size (pl_geo plan) = 1024 \<or> block_size (pl_geo plan) = 4096"
    "inode_size (pl_geo plan) = INODE_SIZE" "first_ino (pl_geo plan) = GOOD_OLD_FIRST_INO"
    "filetype (pl_geo plan)" "large_file (pl_geo plan)" "0 < pl_itable plan"
    "gdt_blocks (pl_geo plan) \<le> pl_gdt_blocks plan" "groups (pl_geo plan) \<le> 131072"
    "block_size (pl_geo plan) = 1024 \<and> first_data_block (pl_geo plan) = 1 \<or> block_size (pl_geo plan) = 4096 \<and> first_data_block (pl_geo plan) = 0"
    "blocks_per_group (pl_geo plan) = block_size (pl_geo plan) * 8"
proof -
  from assms obtain bs fd blocks n k c where sizes: "plan_sizes bs fd blocks" and n: "n = plan_groups bs fd blocks"
    and plan: "plan = plan_of bs fd blocks n k c" and k: "0 < k" "k \<le> n" and c: "c \<le> blocks" "k = plan_groups bs fd c"
    by (rule mkfs_layoutE)
  let ?ipg = "plan_ipg bs blocks n"
  note nb = plan_groups_bounds [OF sizes n] and ib = plan_ipg_bounds [OF sizes n]
  have bs: "bs = 1024 \<and> fd = 1 \<or> bs = 4096 \<and> fd = 0" "blocks \<le> u32_MAX" "0 < bs * 8" "0 < bs"
    using sizes by (auto simp: plan_sizes_def u32_MAX_def)
  have "k * ?ipg \<le> 131072 * 8192" using k(2) nb(5) ib(3) by (intro mult_le_mono) simp_all
  then have ino: "k * ?ipg \<le> u32_MAX" by (simp add: u32_MAX_def)
  have "fd < c"
  proof (rule ccontr)
    assume "\<not> fd < c"
    then have "plan_groups bs fd c \<le> 0" unfolding plan_groups_def div_ceil_le_iff [OF bs(3)] by simp
    with k(1) c(2) show False by simp
  qed
  moreover have "is_power_of_two 128" unfolding is_power_of_two_def by (rule image_eqI [of _ _ 7]) simp_all
  ultimately show "wf_geometry (pl_geo plan)"
    using bs ino ib(1,2) c k(1) by (auto simp: wf_geometry_def geometry_ok_def plan plan_of_def Let_def INODE_SIZE_def GOOD_OLD_FIRST_INO_def ROOT_INO_def plan_groups_def)
  show "block_size (pl_geo plan) = 1024 \<or> block_size (pl_geo plan) = 4096"
    "inode_size (pl_geo plan) = INODE_SIZE" "first_ino (pl_geo plan) = GOOD_OLD_FIRST_INO"
    "filetype (pl_geo plan)" "large_file (pl_geo plan)" "groups (pl_geo plan) \<le> 131072"
    "block_size (pl_geo plan) = 1024 \<and> first_data_block (pl_geo plan) = 1 \<or> block_size (pl_geo plan) = 4096 \<and> first_data_block (pl_geo plan) = 0"
    "blocks_per_group (pl_geo plan) = block_size (pl_geo plan) * 8"
    using bs(1) k(2) nb(5) by (auto simp: plan plan_of_def Let_def)
  have per: "0 < bs div INODE_SIZE" "bs div INODE_SIZE \<le> bs * 8" using bs(1) by (auto simp: INODE_SIZE_def)
  have "bs div INODE_SIZE \<le> ?ipg"
  proof -
    let ?m = "max (div_ceil (blocks * bs div (bs * 4)) n) 16"
    have "\<not> div_ceil ?m (bs div INODE_SIZE) \<le> 0" unfolding div_ceil_le_iff [OF per(1)] by simp
    then have "bs div INODE_SIZE \<le> div_ceil ?m (bs div INODE_SIZE) * (bs div INODE_SIZE)" by simp
    then show ?thesis using per(2) by (simp add: plan_ipg_def Let_def)
  qed
  then show "0 < pl_itable plan" using per(1) by (simp add: plan plan_of_def Let_def div_greater_zero_iff)
  have "k * GD_SIZE \<le> div_ceil (n * GD_SIZE) bs * bs"
    using mult_le_mono1 [OF k(2), of GD_SIZE] div_ceil_mult_ge [OF bs(4), of "n * GD_SIZE"] by linarith
  then show "gdt_blocks (pl_geo plan) \<le> pl_gdt_blocks plan"
    by (simp add: plan plan_of_def Let_def gdt_blocks_def div_ceil_le_iff [OF bs(4)])
qed

text \<open>Where group \<open>g\<close> has its block bitmap.\<close>

definition plan_bitmap :: "mkfs_plan \<Rightarrow> nat \<Rightarrow> nat" where
  "plan_bitmap plan g = group_first (pl_geo plan) g + (if has_super g True then 1 + pl_gdt_blocks plan else 0)"

lemma plan_bitmap_bounds:
  assumes "mkfs_layout bytes = Ok plan" and "g < groups (pl_geo plan)"
  shows "first_data_block (pl_geo plan) \<le> plan_bitmap plan g" "plan_bitmap plan g + 2 < blocks_count (pl_geo plan)"
    "blocks_count (pl_geo plan) \<le> u32_MAX"
    "plan_meta (pl_gdt_blocks plan) (pl_itable plan) g + (if g = 0 then 2 else 0) \<le> group_blocks (pl_geo plan) g"
proof -
  have "plan_meta (pl_gdt_blocks plan) (pl_itable plan) g + (if g = 0 then 2 else 0) \<le> group_blocks (pl_geo plan) g"
    using assms(2) by (rule_tac mkfs_layoutE [OF assms(1)]) (auto simp: plan_of_def Let_def)
  then show m: "plan_meta (pl_gdt_blocks plan) (pl_itable plan) g + (if g = 0 then 2 else 0) \<le> group_blocks (pl_geo plan) g" .
  show "first_data_block (pl_geo plan) \<le> plan_bitmap plan g" by (simp add: plan_bitmap_def group_first_def)
  show "plan_bitmap plan g + 2 < blocks_count (pl_geo plan)"
    using m plan_wf(7) [OF assms(1)] by (auto simp: plan_bitmap_def plan_meta_def group_blocks_def split: if_splits)
  show "blocks_count (pl_geo plan) \<le> u32_MAX" using plan_wf(1) [OF assms(1)] by (auto simp: wf_geometry_def)
qed

definition desc_fields :: "mkfs_plan \<Rightarrow> nat \<Rightarrow> fields" where
  "desc_fields plan g =
     [(g * GD_SIZE + G_BLOCK_BITMAP, to_le32 (word_of_nat (plan_bitmap plan g))),
      (g * GD_SIZE + G_INODE_BITMAP, to_le32 (word_of_nat (plan_bitmap plan g + 1))),
      (g * GD_SIZE + G_INODE_TABLE, to_le32 (word_of_nat (plan_bitmap plan g + 2)))]"

definition desc_counts :: "nat \<Rightarrow> u16 \<Rightarrow> u16 \<Rightarrow> u16 \<Rightarrow> fields" where
  "desc_counts g fb fi dirs =
     [(g * GD_SIZE + G_FREE_BLOCKS, to_le16 fb), (g * GD_SIZE + G_FREE_INODES, to_le16 fi), (g * GD_SIZE + G_USED_DIRS, to_le16 dirs)]"

lemma mkfs_group_fields:
  assumes "mkfs_group plan g (gdt, x, y) d = (Ok (gdt', x', y'), d')"
  shows "\<exists>fb fi dirs. put_all (desc_fields plan g @ desc_counts g fb fi dirs) gdt = (Ok gdt' :: (bytes, ext2_error) result)"
proof -
  let ?off = "g * GD_SIZE" and ?geo = "pl_geo plan"
  define bb where "bb = plan_bitmap plan g"
  have chain: ?thesis
    if "bind_result (put32 gdt (?off + G_BLOCK_BITMAP) (word_of_nat bb)) (\<lambda>gdt.
       bind_result (put32 gdt (?off + G_INODE_BITMAP) (word_of_nat (bb + 1))) (\<lambda>gdt.
       bind_result (put32 gdt (?off + G_INODE_TABLE) (word_of_nat (bb + 2))) (\<lambda>gdt.
       bind_result fb (\<lambda>fb. bind_result fi (\<lambda>fi.
       bind_result (put16 gdt (?off + G_FREE_BLOCKS) (word_of_nat fb)) (\<lambda>gdt.
       bind_result (put16 gdt (?off + G_FREE_INODES) (word_of_nat fi)) (\<lambda>gdt.
       bind_result (put16 gdt (?off + G_USED_DIRS) dirs) (\<lambda>gdt. Ok (gdt, x + fb, y + fi))))))))) =
       (Ok (gdt', x', y') :: (group_totals, ext2_error) result)" for fb fi dirs
  proof -
    from that obtain nb ni where "fb = Ok nb" "fi = Ok ni" by (auto elim!: bind_resultE)
    with that have "put_all (desc_fields plan g @ desc_counts g (word_of_nat nb) (word_of_nat ni) dirs) gdt = (Ok gdt' :: (bytes, ext2_error) result)"
      by (auto simp: desc_fields_def desc_counts_def bb_def [symmetric] put32_def put16_def)
    then show ?thesis by blast
  qed
  show ?thesis
    using assms unfolding mkfs_group_def Let_def prod.case act_bind_eq_Ok act_run bb_def [symmetric]
      plan_bitmap_def [symmetric] unfolding prod.inject
    by (elim exE conjE) (rule chain)
qed

lemma mkfs_group_desc:
  assumes run: "mkfs_group plan g (gdt, x, y) d = (Ok (gdt', x', y'), d')" and len: "(g + 1) * GD_SIZE \<le> length gdt"
  shows "length gdt' = length gdt" "fields_hold (desc_fields plan g) gdt'"
    "h \<noteq> g \<Longrightarrow> fields_hold (desc_fields plan h) gdt \<Longrightarrow> fields_hold (desc_fields plan h) gdt'"
proof -
  obtain fb fi dirs where p: "put_all (desc_fields plan g @ desc_counts g fb fi dirs) gdt = (Ok gdt' :: (bytes, ext2_error) result)"
    using mkfs_group_fields [OF run] by blast
  let ?fs = "desc_fields plan g @ desc_counts g fb fi dirs"
  have fi: "fields_in (g * GD_SIZE) ?fs (length gdt)" using len by (simp add: desc_fields_def desc_counts_def gd_fields)
  note ov = put_all_overlay [OF fi, where 'a = ext2_error]
  then have gdt': "gdt' = overlay ?fs gdt" using p by simp
  show "length gdt' = length gdt" using ov gdt' by simp
  then show "fields_hold (desc_fields plan g) gdt'" using overlay_hold [OF fi] gdt' by simp
  assume h: "h \<noteq> g" "fields_hold (desc_fields plan h) gdt"
  have far: "(h + 1) * GD_SIZE \<le> g * GD_SIZE \<or> (g + 1) * GD_SIZE \<le> h * GD_SIZE"
    using h(1) by (cases "h < g") (auto intro!: mult_le_mono1 simp del: mult_Suc)
  have same: "slice c (c + 4) gdt' = slice c (c + 4) gdt"
    if "h * GD_SIZE \<le> c" "c + 4 \<le> (h + 1) * GD_SIZE" "c + 4 \<le> length gdt" for c
    unfolding gdt' by (rule overlay_miss [OF fi _ that(3)])
      (use that(1,2) far in \<open>auto simp: desc_fields_def desc_counts_def gd_fields\<close>)
  show "fields_hold (desc_fields plan h) gdt'"
    using same [of "h * GD_SIZE + G_BLOCK_BITMAP"] same [of "h * GD_SIZE + G_INODE_BITMAP"]
      same [of "h * GD_SIZE + G_INODE_TABLE"] h(2) \<open>length gdt' = length gdt\<close> by (simp add: desc_fields_def gd_fields)
qed

section \<open>Formatting a device\<close>

definition dev_bytes :: "('d \<Rightarrow> bytes) \<Rightarrow> 'd device \<Rightarrow> bytes" where
  "dev_bytes content dev = content (d_state dev)"

lemma dev_put_ends:
  assumes "disk_like dev content"
  shows "act_ends {Io} (dev_put off data) (\<lambda>_ dev'. disk_like dev' content \<and>
      length (dev_bytes content dev') = length (dev_bytes content dev) \<and>
      off + length data \<le> length (dev_bytes content dev) \<and> slice off (off + length data) (dev_bytes content dev') = data \<and>
      (\<forall>c m. c + m \<le> length (dev_bytes content dev) \<and> (c + m \<le> off \<or> off + length data \<le> c) \<longrightarrow>
         slice c (c + m) (dev_bytes content dev') = slice c (c + m) (dev_bytes content dev))) dev"
proof -
  obtain ok dev' where w: "dev_write off data dev = (ok, dev')" by fastforce
  note law = dev_write_law [OF assms w]
  have "slice c (c + m) (dev_bytes content dev') = slice c (c + m) (dev_bytes content dev)"
    if "c + m \<le> length (dev_bytes content dev)" "c + m \<le> off \<or> off + length data \<le> c" for c m
    by (rule slice_eqI) (use law(2,3) that in \<open>auto simp: dev_bytes_def\<close>)
  then show ?thesis using law(1,2,4) by (auto simp: act_ends_def dev_put_def w dev_bytes_def)
qed

lemma put_block_ends:
  assumes "disk_like dev content"
  shows "act_ends {Io} (put_block bs b data) (\<lambda>_ dev'. disk_like dev' content) dev"
  unfolding put_block_def by (rule act_ends_mono [OF dev_put_ends [OF assms]]) simp

lemma dev_get_ends:
  assumes "disk_like dev content"
  shows "act_ends {Io} (dev_get off buf) (\<lambda>buf' dev'. disk_like dev' content \<and> length buf' = length buf) dev"
proof -
  obtain ok buf' dev' where r: "dev_read off buf dev = (ok, buf', dev')" by (metis prod_cases3)
  then show ?thesis using dev_read_law(1,3) [OF assms r] by (simp add: act_ends_def dev_get_def)
qed

lemma dev_time_ends: "disk_like dev content \<Longrightarrow> act_ends E dev_time (\<lambda>_ dev'. disk_like dev' content) dev"
  by (auto simp: act_ends_def dev_time_def dev_now_def Let_def disk_like_def split: prod.splits)

lemma plan_inodes:
  assumes "mkfs_layout bytes = Ok plan"
  shows "16 \<le> inodes_per_group (pl_geo plan)"
proof -
  from assms obtain bs fd blocks n k c where sizes: "plan_sizes bs fd blocks" and plan: "plan = plan_of bs fd blocks n k c"
    by (rule mkfs_layoutE)
  let ?m = "max (div_ceil (blocks * bs div (bs * 4)) n) 16" and ?per = "bs div INODE_SIZE"
  have "0 < ?per" "16 \<le> bs * 8" using sizes by (auto simp: plan_sizes_def INODE_SIZE_def)
  moreover from div_ceil_mult_ge [OF this(1), of ?m] have "16 \<le> div_ceil ?m ?per * ?per" by linarith
  ultimately show ?thesis by (simp add: plan plan_of_def plan_ipg_def Let_def)
qed

lemma mkfs_group_ends:
  assumes plan: "mkfs_layout bytes = Ok plan" and dev: "disk_like dev content" and g: "g < groups (pl_geo plan)"
    and len: "(g + 1) * GD_SIZE \<le> length gdt"
  shows "act_ends {Io} (mkfs_group plan g (gdt, x, y)) (\<lambda>_ dev'. disk_like dev' content) dev"
proof -
  let ?geo = "pl_geo plan" and ?off = "g * GD_SIZE"
  have used: "plan_meta (pl_gdt_blocks plan) (pl_itable plan) g + (if g = 0 then 2 else 0) \<le> group_blocks ?geo g"
    by (rule plan_bitmap_bounds(4) [OF plan g])
  have inodes: "(if g = 0 then LOST_FOUND_INO else 0) \<le> inodes_per_group ?geo"
    using plan_inodes [OF plan] by (simp add: LOST_FOUND_INO_def)
  define bb where "bb = plan_bitmap plan g"
  define fb where "fb = group_blocks ?geo g - (plan_meta (pl_gdt_blocks plan) (pl_itable plan) g + (if g = 0 then 2 else 0))"
  define fi where "fi = inodes_per_group ?geo - (if g = 0 then LOST_FOUND_INO else 0)"
  have fs: "fields_in ?off (desc_fields plan g @ desc_counts g (word_of_nat fb) (word_of_nat fi) (if g = 0 then 2 else 0)) (length gdt)"
    using len by (simp add: desc_fields_def desc_counts_def gd_fields)
  have lift: "bind_result (put32 gdt (?off + G_BLOCK_BITMAP) (word_of_nat bb)) (\<lambda>gdt.
       bind_result (put32 gdt (?off + G_INODE_BITMAP) (word_of_nat (bb + 1))) (\<lambda>gdt.
       bind_result (put32 gdt (?off + G_INODE_TABLE) (word_of_nat (bb + 2))) (\<lambda>gdt.
       bind_result (usize_sub (group_blocks ?geo g) (plan_meta (pl_gdt_blocks plan) (pl_itable plan) g + (if g = 0 then 2 else 0))) (\<lambda>fb.
       bind_result (usize_sub (inodes_per_group ?geo) (if g = 0 then LOST_FOUND_INO else 0)) (\<lambda>fi.
       bind_result (put16 gdt (?off + G_FREE_BLOCKS) (word_of_nat fb)) (\<lambda>gdt.
       bind_result (put16 gdt (?off + G_FREE_INODES) (word_of_nat fi)) (\<lambda>gdt.
       bind_result (put16 gdt (?off + G_USED_DIRS) (if g = 0 then 2 else 0)) (\<lambda>gdt. Ok (gdt, x + fb, y + fi)))))))))
     = (Ok (overlay (desc_fields plan g @ desc_counts g (word_of_nat fb) (word_of_nat fi) (if g = 0 then 2 else 0)) gdt, x + fb, y + fi)
        :: (group_totals, ext2_error) result)"
  proof -
    have sub: "usize_sub (group_blocks ?geo g) (plan_meta (pl_gdt_blocks plan) (pl_itable plan) g + (if g = 0 then 2 else 0)) = (Ok fb :: (nat, ext2_error) result)"
      "usize_sub (inodes_per_group ?geo) (if g = 0 then LOST_FOUND_INO else 0) = (Ok fi :: (nat, ext2_error) result)"
      using used inodes by (simp_all only: usize_sub_def fb_def fi_def if_True)
    show ?thesis
      using put_all_overlay [OF fs, where 'a = ext2_error, THEN conjunct1]
      unfolding sub bind_result.simps desc_fields_def desc_counts_def bb_def [symmetric] append.simps put_all.simps
      by (auto simp: put32_def put16_def elim!: bind_resultE)
  qed
  show ?thesis
    unfolding mkfs_group_def Let_def prod.case plan_bitmap_def [symmetric] bb_def [symmetric] lift
    apply (rule act_ends_bind [OF put_block_ends [OF dev]])
    apply (rule act_ends_bind [OF put_block_ends], assumption)
    apply (rule act_ends_bind [OF act_ends_fold [where P = "\<lambda>_ _ dev'. disk_like dev' content"]], assumption)
     apply (rule put_block_ends, assumption)
    apply (rule act_ends_run(2) [OF _ refl], simp)
    done
qed

lemma dirent_total:
  assumes "off + 8 + length name \<le> length blk"
  shows "\<exists>b'. dirent blk off ino len name = (Ok b' :: (bytes, 'e) result) \<and> length b' = length blk"
proof -
  let ?fs = "[(off, to_le32 (word_of_nat ino)), (off + 4, to_le16 (word_of_nat len)), (off + 6, [word_of_nat (length name)]),
    (off + 7, [FT_DIR]), (off + 8, map of_char name)]"
  have "fields_in off ?fs (length blk)" using assms by simp
  from put_all_overlay [OF this, where 'a = 'e]
  have p: "put_all ?fs blk = (Ok (overlay ?fs blk) :: (bytes, 'e) result)" "length (overlay ?fs blk) = length blk" by blast+
  have d: "dirent blk off ino len name = (put_all ?fs blk :: (bytes, 'e) result)"
    unfolding dirent_def put32_def put16_def put_byte_range
    by (simp add: put_all_fun bind_result_Ok_id)
  show ?thesis using p(2) by (intro exI conjI) (rule trans [OF d p(1)])
qed

lemma mkfs_dirs_total:
  assumes "1024 \<le> bs"
  shows "\<exists>b. mkfs_root bs = (Ok b :: (bytes, 'e) result)" "\<exists>b. mkfs_lost_found bs = (Ok b :: (bytes, 'e) result)"
proof -
  obtain b1 where 1: "dirent (replicate bs 0) 0 ROOT_INO 12 ''.'' = (Ok b1 :: (bytes, 'e) result)" "length b1 = bs"
    using dirent_total [of 0 "''.''" "replicate bs 0" ROOT_INO 12, where 'e = 'e] assms by auto
  obtain b2 where 2: "dirent b1 12 ROOT_INO 12 ''..'' = (Ok b2 :: (bytes, 'e) result)" "length b2 = bs"
    using dirent_total [of 12 "''..''" b1 ROOT_INO 12, where 'e = 'e] assms 1(2) by auto
  obtain b3 where "dirent b2 24 LOST_FOUND_INO (bs - 24) ''lost+found'' = (Ok b3 :: (bytes, 'e) result)"
    using dirent_total [of 24 "''lost+found''" b2 LOST_FOUND_INO "bs - 24", where 'e = 'e] assms 2(2) by auto
  with 1 2 show "\<exists>b. mkfs_root bs = (Ok b :: (bytes, 'e) result)" by (simp add: mkfs_root_def)
  obtain c1 where c: "dirent (replicate bs 0) 0 LOST_FOUND_INO 12 ''.'' = (Ok c1 :: (bytes, 'e) result)" "length c1 = bs"
    using dirent_total [of 0 "''.''" "replicate bs 0" LOST_FOUND_INO 12, where 'e = 'e] assms by auto
  obtain c2 where "dirent c1 12 ROOT_INO (bs - 12) ''..'' = (Ok c2 :: (bytes, 'e) result)"
    using dirent_total [of 12 "''..''" c1 ROOT_INO "bs - 12", where 'e = 'e] assms c(2) by auto
  with c show "\<exists>b. mkfs_lost_found bs = (Ok b :: (bytes, 'e) result)" by (simp add: mkfs_lost_found_def)
qed

lemma mkfs_inode_ends:
  fixes dev :: "'a device"
  assumes dev: "disk_like dev content" and len: "length itable0 = bs" and at: "(ino - 1) * INODE_SIZE mod bs + INODE_SIZE \<le> bs"
  shows "act_ends {Io} (mkfs_inode bs table0 now (ino, mode, links, blk) itable0) (\<lambda>b' dev'. disk_like dev' content \<and> length b' = bs) dev"
proof -
  define pos where "pos = (ino - 1) * INODE_SIZE mod bs"
  let ?fs = "[(0, to_le16 mode), (4, to_le32 (word_of_nat bs)), (8, to_le32 now), (12, to_le32 now), (16, to_le32 now),
    (26, to_le16 links), (28, to_le32 (word_of_nat (bs div 512))), (40, to_le32 (word_of_nat blk))]"
  have lift: "\<exists>b'. bind_result (get_range pos (pos + INODE_SIZE) it) (\<lambda>n.
       bind_result (put16 n 0 mode) (\<lambda>n.
       bind_result (put32 n 4 (word_of_nat bs)) (\<lambda>n.
       bind_result (put32 n 8 now) (\<lambda>n.
       bind_result (put32 n 12 now) (\<lambda>n.
       bind_result (put32 n 16 now) (\<lambda>n.
       bind_result (put16 n 26 links) (\<lambda>n.
       bind_result (put32 n 28 (word_of_nat (bs div 512))) (\<lambda>n.
       bind_result (put32 n 40 (word_of_nat blk)) (\<lambda>n.
       put_range pos (pos + INODE_SIZE) n it))))))))) = (Ok b' :: (bytes, ext2_error) result) \<and> length b' = bs"
    if it: "length it = bs" for it
  proof -
    let ?n = "slice pos (pos + INODE_SIZE) it"
    have l: "length ?n = INODE_SIZE" using at it by (simp add: pos_def)
    have "fields_in 0 ?fs (length ?n)" unfolding l by (simp add: INODE_SIZE_def)
    note ov = put_all_overlay [OF this, where 'a = ext2_error]
    let ?o = "overlay ?fs ?n"
    have g: "get_range pos (pos + INODE_SIZE) it = (Ok ?n :: (bytes, ext2_error) result)"
      using at it by (simp add: get_range_def pos_def)
    have p: "put_range pos (pos + INODE_SIZE) ?o it = (Ok (splice pos ?o it) :: (bytes, ext2_error) result)" "length (splice pos ?o it) = bs"
      using at it ov l by (simp_all add: put_range_def pos_def del: overlay.simps)
    have "bind_result (put16 ?n 0 mode) (\<lambda>n.
       bind_result (put32 n 4 (word_of_nat bs)) (\<lambda>n.
       bind_result (put32 n 8 now) (\<lambda>n.
       bind_result (put32 n 12 now) (\<lambda>n.
       bind_result (put32 n 16 now) (\<lambda>n.
       bind_result (put16 n 26 links) (\<lambda>n.
       bind_result (put32 n 28 (word_of_nat (bs div 512))) (\<lambda>n.
       bind_result (put32 n 40 (word_of_nat blk)) (\<lambda>n.
       put_range pos (pos + INODE_SIZE) n it)))))))) =
      (bind_result (put_all ?fs ?n) (\<lambda>n. put_range pos (pos + INODE_SIZE) n it) :: (bytes, ext2_error) result)"
      by (simp add: put16_def put32_def bind_result_assoc)
    also have "\<dots> = Ok (splice pos ?o it)" using ov p(1) by (simp del: overlay.simps put_all.simps)
    finally show ?thesis unfolding g bind_result.simps using p(2) by (intro exI [of _ "splice pos ?o it"] conjI)
  qed
  show ?thesis
    unfolding mkfs_inode_def Let_def prod.case pos_def [symmetric]
  proof (rule act_ends_bind [OF dev_get_ends [OF dev]], elim conjE)
    fix it :: bytes and t :: "'a device" assume t: "disk_like t content" and "length it = length itable0"
    with len have "length it = bs" by simp
    from lift [OF this] show "act_ends {Io} (act_bind (act_lift (
       bind_result (get_range pos (pos + INODE_SIZE) it) (\<lambda>n.
       bind_result (put16 n 0 mode) (\<lambda>n.
       bind_result (put32 n 4 (word_of_nat bs)) (\<lambda>n.
       bind_result (put32 n 8 now) (\<lambda>n.
       bind_result (put32 n 12 now) (\<lambda>n.
       bind_result (put32 n 16 now) (\<lambda>n.
       bind_result (put16 n 26 links) (\<lambda>n.
       bind_result (put32 n 28 (word_of_nat (bs div 512))) (\<lambda>n.
       bind_result (put32 n 40 (word_of_nat blk)) (\<lambda>n.
       put_range pos (pos + INODE_SIZE) n it))))))))))) (\<lambda>itable0.
      act_bind (put_block bs (table0 + (ino - 1) * INODE_SIZE div bs) itable0) (\<lambda>_. act_return itable0)))
      (\<lambda>b' dev'. disk_like dev' content \<and> length b' = bs) t"
      by (elim exE conjE, elim act_ends_lift, intro act_ends_bind [OF put_block_ends [OF t]] act_ends_run(1)) simp
  qed
qed

text \<open>The superblock with the given fields and the descriptor table are on the disk, in group 0.\<close>

definition formatted :: "('d \<Rightarrow> bytes) \<Rightarrow> geometry \<Rightarrow> fields \<Rightarrow> bytes \<Rightarrow> 'd device \<Rightarrow> bool" where
  "formatted content geo sfs gdt dev \<longleftrightarrow>
     (let disk = dev_bytes content dev; at = (first_data_block geo + 1) * block_size geo in
      SB_OFFSET + SB_SIZE \<le> length disk \<and> fields_hold sfs (slice SB_OFFSET (SB_OFFSET + SB_SIZE) disk) \<and>
      at + length gdt \<le> length disk \<and> slice at (at + length gdt) disk = gdt)"

lemma fields_hold_put16:
  assumes "fields_hold fs b" and "put16 b off v = (Ok b' :: (bytes, 'e) result)" and "fields_miss fs off 2"
  shows "fields_hold fs b'"
proof -
  have b': "b' = splice off (to_le16 v) b" "off + 2 \<le> length b" using assms(2) by (auto simp: put16_def put_range_def split: if_splits)
  have "slice c (c + m) b' = slice c (c + m) b" if "c + m \<le> length b" "c + m \<le> off \<or> off + 2 \<le> c" for c m
    unfolding b'(1) by (rule slice_splice_other) (use that b'(2) in auto)
  moreover have "length b' = length b" using b' by simp
  ultimately show ?thesis using assms(1,3) unfolding fields_hold_def fields_miss_def list_all_iff by fastforce
qed

lemma formatted_far:
  assumes "formatted content geo sfs gdt dev" and "length (dev_bytes content dev') = length (dev_bytes content dev)"
    and "\<forall>c m. c + m \<le> length (dev_bytes content dev) \<and> (c + m \<le> off \<or> off + n \<le> c) \<longrightarrow>
         slice c (c + m) (dev_bytes content dev') = slice c (c + m) (dev_bytes content dev)"
    and "SB_OFFSET + SB_SIZE \<le> off" and "(first_data_block geo + 1) * block_size geo + length gdt \<le> off"
  shows "formatted content geo sfs gdt dev'"
  using assms unfolding formatted_def Let_def by metis

lemma mkfs_backup_ends:
  fixes dev :: "'d device"
  assumes plan: "mkfs_layout bytes = Ok plan" and gdt: "length gdt = pl_gdt_blocks plan * block_size (pl_geo plan)"
    and miss: "fields_miss sfs S_BLOCK_GROUP_NR 2" and g: "g < groups (pl_geo plan)"
    and dev: "disk_like dev content" and sb: "length sb = SB_SIZE" "fields_hold sfs sb"
    and before: "0 < g \<Longrightarrow> formatted content (pl_geo plan) sfs gdt dev"
  shows "act_ends {Io} (mkfs_backup plan gdt g sb) (\<lambda>sb' dev'. disk_like dev' content \<and> length sb' = SB_SIZE \<and>
    fields_hold sfs sb' \<and> formatted content (pl_geo plan) sfs gdt dev') dev"
proof (cases "has_super g True")
  case False
  then have "0 < g" by (intro gr0I) (simp add: has_super_def)
  with before show ?thesis using dev sb False by (simp add: mkfs_backup_def Let_def act_ends_run)
next
  case True
  let ?geo = "pl_geo plan" and ?bs = "block_size (pl_geo plan)"
  let ?first = "group_first (pl_geo plan) g" and ?at = "(first_data_block (pl_geo plan) + 1) * block_size (pl_geo plan)"
  obtain sb' where sb': "put16 sb S_BLOCK_GROUP_NR (word_of_nat g) = (Ok sb' :: (bytes, ext2_error) result)" "length sb' = SB_SIZE"
    using sb(1) by (simp add: put_ok sb_fields SB_SIZE_def)
  have hold: "fields_hold sfs sb'" by (rule fields_hold_put16 [OF sb(2) sb'(1) miss])
  have at: "SB_OFFSET + SB_SIZE \<le> ?at" using plan_wf(10) [OF plan] by (auto simp: SB_OFFSET_def SB_SIZE_def)
  have far: "?at + length gdt \<le> ?first * ?bs" if "0 < g"
  proof -
    have "0 < groups ?geo" using g by simp
    from plan_bitmap_bounds(4) [OF plan this] have "1 + pl_gdt_blocks plan \<le> blocks_per_group ?geo"
      by (simp add: plan_meta_def has_super_def group_blocks_def)
    then have "first_data_block ?geo + 1 + pl_gdt_blocks plan \<le> ?first"
      using that by (cases g) (simp_all add: group_first_def)
    then have "(first_data_block ?geo + 1 + pl_gdt_blocks plan) * ?bs \<le> ?first * ?bs" by (rule mult_le_mono1)
    then show ?thesis unfolding gdt by (simp add: algebra_simps)
  qed
  let ?pos = "if g = 0 then SB_OFFSET else ?first * ?bs"
  let ?Q1 = "\<lambda>t. disk_like t content \<and>
      (if g = 0 then SB_OFFSET + SB_SIZE \<le> length (dev_bytes content t) \<and> slice SB_OFFSET (SB_OFFSET + SB_SIZE) (dev_bytes content t) = sb'
       else formatted content ?geo sfs gdt t)"
  have one: "act_ends {Io} (dev_put ?pos sb') (\<lambda>_. ?Q1) dev"
  proof (rule act_ends_mono [OF dev_put_ends [OF dev]], elim conjE)
    fix t assume t: "disk_like t content" "length (dev_bytes content t) = length (dev_bytes content dev)"
      "?pos + length sb' \<le> length (dev_bytes content dev)" "slice ?pos (?pos + length sb') (dev_bytes content t) = sb'"
      "\<forall>c m. c + m \<le> length (dev_bytes content dev) \<and> (c + m \<le> ?pos \<or> ?pos + length sb' \<le> c) \<longrightarrow>
         slice c (c + m) (dev_bytes content t) = slice c (c + m) (dev_bytes content dev)"
    show "?Q1 t"
    proof (cases "g = 0")
      case False
      then have "formatted content ?geo sfs gdt t"
        using formatted_far [OF before t(2) t(5)] at far by simp
      then show ?thesis using t(1) False by simp
    qed (use t sb'(2) in simp)
  qed
  have two: "act_ends {Io} (dev_put ((?first + 1) * ?bs) gdt) (\<lambda>_ d. disk_like d content \<and> formatted content ?geo sfs gdt d) t"
    if t: "?Q1 t" for t
  proof (rule act_ends_mono [OF dev_put_ends [of t content]], use t in simp, elim conjE)
    fix d assume d: "disk_like d content" "length (dev_bytes content d) = length (dev_bytes content t)"
      "(?first + 1) * ?bs + length gdt \<le> length (dev_bytes content t)"
      "slice ((?first + 1) * ?bs) ((?first + 1) * ?bs + length gdt) (dev_bytes content d) = gdt"
      "\<forall>c m. c + m \<le> length (dev_bytes content t) \<and> (c + m \<le> (?first + 1) * ?bs \<or> (?first + 1) * ?bs + length gdt \<le> c) \<longrightarrow>
         slice c (c + m) (dev_bytes content d) = slice c (c + m) (dev_bytes content t)"
    show "disk_like d content \<and> formatted content ?geo sfs gdt d"
    proof (cases "g = 0")
      case True
      then have f: "?first = first_data_block ?geo" by (simp add: group_first_def)
      have t': "SB_OFFSET + SB_SIZE \<le> length (dev_bytes content t)"
        "slice SB_OFFSET (SB_OFFSET + SB_SIZE) (dev_bytes content t) = sb'" using t True by simp_all
      then have "slice SB_OFFSET (SB_OFFSET + SB_SIZE) (dev_bytes content d) = sb'"
        using d(5) [unfolded f, rule_format, of SB_OFFSET SB_SIZE] at by simp
      then show ?thesis using d(1,2) d(3,4) [unfolded f] t'(1) hold by (simp add: formatted_def Let_def)
    next
      case False
      have "?first * ?bs \<le> (?first + 1) * ?bs" by simp
      then have "formatted content ?geo sfs gdt d"
        using formatted_far [OF _ d(2) d(5)] t False at far by simp
      then show ?thesis using d(1) by simp
    qed
  qed
  show ?thesis
    unfolding mkfs_backup_def Let_def if_P [OF True]
    by (rule act_ends_lift [OF sb'(1)], rule act_ends_bind [OF one], rule act_ends_bind [OF two], assumption,
        rule act_ends_run(1)) (use sb'(2) hold in simp)
qed

text \<open>The descriptors of the first \<open>i\<close> groups are in the table.\<close>

definition described :: "mkfs_plan \<Rightarrow> nat \<Rightarrow> bytes \<Rightarrow> bool" where
  "described plan i gdt \<longleftrightarrow>
     length gdt = pl_gdt_blocks plan * block_size (pl_geo plan) \<and> (\<forall>g < i. fields_hold (desc_fields plan g) gdt)"

lemma plan_room:
  assumes "mkfs_layout bytes = Ok plan" and "g < groups (pl_geo plan)"
  shows "(g + 1) * GD_SIZE \<le> gdt_blocks (pl_geo plan) * block_size (pl_geo plan)"
    "(g + 1) * GD_SIZE \<le> pl_gdt_blocks plan * block_size (pl_geo plan)"
proof -
  let ?geo = "pl_geo plan"
  have "0 < block_size ?geo" using plan_wf(2) [OF assms(1)] by auto
  from div_ceil_mult_ge [OF this, of "groups ?geo * GD_SIZE"]
  have "groups ?geo * GD_SIZE \<le> gdt_blocks ?geo * block_size ?geo" by (simp add: gdt_blocks_def)
  moreover have "(g + 1) * GD_SIZE \<le> groups ?geo * GD_SIZE" using assms(2) by (intro mult_le_mono1) simp
  ultimately show a: "(g + 1) * GD_SIZE \<le> gdt_blocks ?geo * block_size ?geo" by linarith
  have "gdt_blocks ?geo * block_size ?geo \<le> pl_gdt_blocks plan * block_size ?geo"
    by (rule mult_le_mono1) (rule plan_wf(8) [OF assms(1)])
  with a show "(g + 1) * GD_SIZE \<le> pl_gdt_blocks plan * block_size ?geo" by linarith
qed

lemma plan_groups_pos: "mkfs_layout bytes = Ok plan \<Longrightarrow> 0 < groups (pl_geo plan)"
  using plan_wf(1) [of bytes plan] group_of_block_bounds(1) [of "pl_geo plan" "first_data_block (pl_geo plan)"]
  by (auto simp: wf_geometry_def geometry_ok_def)

lemma mkfs_groups_ends:
  fixes dev :: "'d device"
  assumes plan: "mkfs_layout bytes = Ok plan" and dev: "disk_like dev content"
  shows "act_ends {Io} (act_fold (mkfs_group plan) [0..<groups (pl_geo plan)]
      (replicate (pl_gdt_blocks plan * block_size (pl_geo plan)) 0, 0, 0))
    (\<lambda>totals dev'. disk_like dev' content \<and> described plan (groups (pl_geo plan)) (fst totals)) dev"
proof (rule act_ends_upt [where P = "\<lambda>i totals dev'. disk_like dev' content \<and> described plan i (fst totals)"])
  fix i and b :: group_totals and t :: "'d device"
  assume i: "i < groups (pl_geo plan)" and P: "disk_like t content \<and> described plan i (fst b)"
  obtain gd x y where b: "b = (gd, x, y)" by (cases b)
  have room: "(i + 1) * GD_SIZE \<le> length gd" using plan_room(2) [OF plan i] P by (simp add: b described_def)
  show "act_ends {Io} (mkfs_group plan i b) (\<lambda>totals dev'. disk_like dev' content \<and> described plan (Suc i) (fst totals)) t"
    unfolding b
  proof (rule act_ends_mono [OF mkfs_group_ends [OF plan conjunct1 [OF P] i room]])
    fix a :: group_totals and u :: "'d device"
    assume run: "mkfs_group plan i (gd, x, y) t = (Ok a, u)" and u: "disk_like u content"
    obtain gd' x' y' where a: "a = (gd', x', y')" by (cases a)
    note m = mkfs_group_desc [OF run [unfolded a] room]
    show "disk_like u content \<and> described plan (Suc i) (fst a)"
      using m P u by (auto simp: a b described_def less_Suc_eq)
  qed
qed (use dev in \<open>simp add: described_def\<close>)

lemma mkfs_dirs_ends:
  fixes dev :: "'d device"
  assumes plan: "mkfs_layout bytes = Ok plan" and dev: "disk_like dev content" and gdt: "described plan (groups (pl_geo plan)) gdt"
  shows "act_ends {Io} (mkfs_dirs plan now gdt) (\<lambda>_ dev'. disk_like dev' content) dev"
proof -
  let ?bs = "block_size (pl_geo plan)"
  have bs: "?bs = 1024 \<or> ?bs = 4096" by (rule plan_wf(2) [OF plan])
  then have big: "1024 \<le> ?bs" by auto
  obtain root where root: "mkfs_root ?bs = (Ok root :: (bytes, ext2_error) result)" using mkfs_dirs_total(1) [OF big] by blast
  obtain lf where lf: "mkfs_lost_found ?bs = (Ok lf :: (bytes, ext2_error) result)" using mkfs_dirs_total(2) [OF big] by blast
  have "G_INODE_TABLE + 4 \<le> length gdt"
    using plan_room(2) [OF plan plan_groups_pos [OF plan]] gdt by (simp add: described_def gd_fields)
  then obtain table0 where table0: "get32n gdt G_INODE_TABLE = (Ok table0 :: (nat, ext2_error) result)"
    using get_total(3) by blast
  have slots: "(ROOT_INO - 1) * INODE_SIZE mod ?bs + INODE_SIZE \<le> ?bs" "(LOST_FOUND_INO - 1) * INODE_SIZE mod ?bs + INODE_SIZE \<le> ?bs"
    using bs by (auto simp: ROOT_INO_def LOST_FOUND_INO_def INODE_SIZE_def)
  have inodes: "act_ends {Io} (act_fold (mkfs_inode ?bs table0 now) [(ROOT_INO, m1, l1, b1), (LOST_FOUND_INO, m2, l2, b2)] (replicate ?bs 0))
      (\<lambda>_ d. disk_like d content) t" if "disk_like t content" for t :: "'d device" and m1 l1 b1 m2 l2 b2
    unfolding act_fold.simps
    by (rule act_ends_bind [OF mkfs_inode_ends [OF that _ slots(1)]], simp, elim conjE,
        rule act_ends_bind [OF mkfs_inode_ends [OF _ _ slots(2)]], assumption, assumption, elim conjE, rule act_ends_run(1))
  show ?thesis
    unfolding mkfs_dirs_def Let_def
    by (rule act_ends_lift [OF root], rule act_ends_bind [OF put_block_ends [OF dev]],
        rule act_ends_lift [OF lf], rule act_ends_bind [OF put_block_ends], assumption,
        rule act_ends_lift [OF table0], rule inodes)
qed

lemma mkfs_supers_ends:
  fixes dev :: "'d device"
  assumes plan: "mkfs_layout bytes = Ok plan" and dev: "disk_like dev content" and gdt: "described plan (groups (pl_geo plan)) gdt"
  shows "act_ends {Io} (mkfs_supers plan bytes now (gdt, fb, fi)) (\<lambda>_ dev'. disk_like dev' content \<and>
    formatted content (pl_geo plan) (super_fields (pl_geo plan) bytes now fb fi) gdt dev') dev"
proof -
  let ?geo = "pl_geo plan"
  let ?sfs = "super_fields ?geo bytes now fb fi"
  define sb where "sb = overlay ?sfs (replicate SB_SIZE 0)"
  have fi: "fields_in 0 ?sfs (length (replicate SB_SIZE (0 :: u8)))" using super_fields_in by simp
  have super: "mkfs_super ?geo bytes now fb fi = (Ok sb :: (bytes, ext2_error) result)" "length sb = SB_SIZE"
    using put_all_overlay [OF fi, where 'a = ext2_error] by (simp_all add: mkfs_super_all sb_def)
  have hold: "fields_hold ?sfs sb" unfolding sb_def by (rule overlay_hold [OF fi])
  have miss: "fields_miss ?sfs S_BLOCK_GROUP_NR 2"
    by (simp add: super_fields_def Let_def sb_fields volume_uuid_def)
  have len: "length gdt = pl_gdt_blocks plan * block_size ?geo" using gdt by (simp add: described_def)
  have "act_ends {Io} (act_fold (mkfs_backup plan gdt) [0..<groups ?geo] sb)
      (\<lambda>sb' d. disk_like d content \<and> length sb' = SB_SIZE \<and> fields_hold ?sfs sb' \<and> (0 < groups ?geo \<longrightarrow> formatted content ?geo ?sfs gdt d)) dev"
  proof (rule act_ends_upt [where P = "\<lambda>i sb' d. disk_like d content \<and> length sb' = SB_SIZE \<and> fields_hold ?sfs sb' \<and>
      (0 < i \<longrightarrow> formatted content ?geo ?sfs gdt d)"], goal_cases)
    case (2 i b t)
    show ?case
      by (rule act_ends_mono [OF mkfs_backup_ends [OF plan len miss 2(1)]]) (use 2(2) in blast)+
  qed (use dev super hold in simp)
  then show ?thesis
    unfolding mkfs_supers_def prod.case
    by (intro act_ends_lift [OF super(1)], elim act_ends_bind, intro act_ends_run(1)) (use plan_groups_pos [OF plan] in blast)
qed

lemma mkfs_ends:
  fixes dev :: "'d device"
  assumes plan: "mkfs_layout bytes = Ok plan" and dev: "disk_like dev content"
  shows "act_ends {Io} (mkfs bytes) (\<lambda>_ dev'. disk_like dev' content \<and>
    (\<exists>gdt now fb fi. formatted content (pl_geo plan) (super_fields (pl_geo plan) bytes now fb fi) gdt dev' \<and>
       described plan (groups (pl_geo plan)) gdt)) dev"
  unfolding mkfs_def
proof (rule act_ends_lift [OF plan], rule act_ends_bind [OF dev_time_ends [OF dev]],
    rule act_ends_bind [OF mkfs_groups_ends [OF plan]], assumption, elim conjE, rule act_ends_bind [OF mkfs_dirs_ends [OF plan]],
    assumption, assumption, goal_cases)
  case (1 now t totals u a v)
  obtain gdt fb fi where totals: "totals = (gdt, fb, fi)" by (cases totals)
  show ?case
    unfolding totals
    by (rule act_ends_mono [OF mkfs_supers_ends [OF plan 1(7)]]) (use 1 in \<open>auto simp: totals\<close>)
qed

lemma described_on_disk:
  assumes plan: "mkfs_layout bytes = Ok plan" and gdt: "described plan (groups (pl_geo plan)) gdt"
    and g: "g < groups (pl_geo plan)"
    and s: "f_geo s = pl_geo plan" "f_gdt s = take (gdt_blocks (pl_geo plan) * block_size (pl_geo plan)) gdt"
  shows "group_on_disk s g = Ok ()"
proof -
  let ?n = "gdt_blocks (pl_geo plan) * block_size (pl_geo plan)" and ?b = "plan_bitmap plan g"
  note room = plan_room [OF plan g] and bound = plan_bitmap_bounds [OF plan g]
  have hold: "fields_hold (desc_fields plan g) gdt" using gdt g by (simp add: described_def)
  have len: "?n \<le> length gdt" using gdt plan_wf(8) [OF plan] by (simp add: described_def mult_le_mono1)
  have read: "gd32 s g field = Ok (?b + k)"
    if "(g * GD_SIZE + field, to_le32 (word_of_nat (?b + k))) \<in> set (desc_fields plan g)" "field + 4 \<le> GD_SIZE" "k \<le> 2" for field k
  proof -
    let ?c = "g * GD_SIZE + field"
    have c: "?c + 4 \<le> ?n" using room(1) that(2) by simp
    have "slice ?c (?c + 4) gdt = to_le32 (word_of_nat (?b + k))"
      using hold that(1) by (auto simp: fields_hold_def list_all_iff)
    then have "get32 (f_gdt s) ?c = (Ok (word_of_nat (?b + k)) :: (u32, ext2_error) result)"
      using c len by (simp add: get_as_slice s(2) slice_slice_prefix min_def)
    moreover have "unat (word_of_nat (?b + k) :: u32) = ?b + k" using bound(2,3) that(3) by (subst unat_of_nat) (simp add: u32_MAX_def)
    ultimately show ?thesis by (simp add: gd32_def)
  qed
  have "gd32 s g G_BLOCK_BITMAP = Ok (?b + 0)" "gd32 s g G_INODE_BITMAP = Ok (?b + 1)" "gd32 s g G_INODE_TABLE = Ok (?b + 2)"
    by (rule read; simp add: desc_fields_def gd_fields)+
  then show ?thesis using bound(1,2) by (simp add: group_on_disk_def s(1))
qed

lemma mount_formatted:
  assumes plan: "mkfs_layout bytes = Ok plan" and dev: "disk_like dev content"
    and fmt: "formatted content (pl_geo plan) (super_fields (pl_geo plan) bytes now fb fi) gdt dev"
    and gdt: "described plan (groups (pl_geo plan)) gdt"
  shows "mount dev = Err Io \<or> (\<exists>s. mount dev = Ok s \<and> f_geo s = pl_geo plan)"
proof -
  let ?geo = "pl_geo plan" and ?bs = "block_size (pl_geo plan)" and ?disk = "dev_bytes content dev"
  let ?n = "gdt_blocks ?geo" and ?at = "(first_data_block ?geo + 1) * block_size ?geo"
  obtain ok sb dev1 where 1: "dev_read SB_OFFSET (replicate SB_SIZE 0) dev = (ok, sb, dev1)" by (metis prod_cases3)
  note d1 = dev_read_law [OF dev 1]
  show ?thesis
  proof (cases ok)
    case ok: True
    have sb: "sb = slice SB_OFFSET (SB_OFFSET + SB_SIZE) ?disk" using d1(4) [OF ok] by (simp add: dev_bytes_def)
    have "fields_hold (super_fields ?geo bytes now fb fi) sb" using fmt by (simp add: formatted_def Let_def sb)
    from geometry_parse_super [OF this plan_wf(1-6) [OF plan]] have geo: "geometry_parse sb = Ok ?geo" .
    obtain ok2 gdt2 dev2 where 2: "dev_read ?at (replicate (?n * ?bs) 0) dev1 = (ok2, gdt2, dev2)" by (metis prod_cases3)
    note d2 = dev_read_law [OF d1(1) 2]
    show ?thesis
    proof (cases ok2)
      case True
      define s where "s = \<lparr>f_cache = cache_new dev2 ?bs, f_geo = ?geo, f_sb = sb, f_sb_dirty = False,
               f_gdt = gdt2, f_gdt_dirty = replicate ?n False, f_last_alloc = 0, f_resolved = []\<rparr>"
      have "gdt2 = slice ?at (?at + ?n * ?bs) ?disk" using d2(4) [OF True] d1(2) by (simp add: dev_bytes_def)
      moreover have "slice ?at (?at + length gdt) ?disk = gdt" using fmt by (simp add: formatted_def Let_def)
      moreover have "?n * ?bs \<le> length gdt" using gdt plan_wf(8) [OF plan] by (simp add: described_def mult_le_mono1)
      ultimately have gdt2: "gdt2 = take (?n * ?bs) gdt" using slice_prefix by metis
      have "foldl_result (\<lambda>_ g. group_on_disk s g) () [0..<groups ?geo] = Ok ()"
        by (rule foldl_result_const) (rule described_on_disk [OF plan gdt], simp_all add: s_def gdt2)
      then have "mount dev = Ok s" using 1 2 ok True geo by (simp add: mount_def Let_def s_def)
      then show ?thesis by (simp add: s_def)
    next
      case False
      then show ?thesis using 1 2 ok geo by (simp add: mount_def Let_def)
    qed
  next
    case False
    then show ?thesis using 1 by (simp add: mount_def)
  qed
qed

lemma mkfs_layout_result: "mkfs_layout bytes = Err e \<Longrightarrow> e = NoSpace" "mkfs_layout bytes \<noteq> Panic"
proof -
  define bs fd :: nat where "bs = (if bytes < SMALL then 1024 else 4096)" and "fd = (if bs = 1024 then 1 else 0)"
  define blocks where "blocks = min (bytes div bs) u32_MAX"
  define n where "n = plan_groups bs fd blocks"
  define meta where "meta = plan_meta (div_ceil (n * GD_SIZE) bs) (plan_ipg bs blocks n div (bs div INODE_SIZE)) (n - 1)"
  note run = mkfs_layout_eq [OF bs_def fd_def blocks_def n_def refl meta_def]
  show "mkfs_layout bytes = Err e \<Longrightarrow> e = NoSpace" "mkfs_layout bytes \<noteq> Panic"
    unfolding run by (auto split: if_splits)
qed

text \<open>
  C38. \<^verbatim>\<open>mkfs\<close> on a device that behaves like a disk never panics and fails only when the device fails
  or the size leaves no room for a file system. When it succeeds, mounting the device finds the
  geometry that was chosen and gives a file system that satisfies the invariant, unless the
  device then fails.
\<close>
theorem mkfs_then_mount:
  assumes "disk_like dev content"
  shows "case mkfs bytes dev of
      (Ok _, dev') \<Rightarrow> \<exists>plan. mkfs_layout bytes = Ok plan \<and>
        (case mount dev' of Ok s \<Rightarrow> fs_ok content s \<and> f_geo s = pl_geo plan | Err e \<Rightarrow> e = Io | Panic \<Rightarrow> False)
    | (Err e, _) \<Rightarrow> e = Io \<or> mkfs_layout bytes = Err NoSpace
    | (Panic, _) \<Rightarrow> False"
proof (cases "mkfs_layout bytes")
  case (Ok plan)
  note e = mkfs_ends [OF Ok assms, unfolded act_ends_def]
  show ?thesis
  proof (cases "mkfs bytes dev")
    case (Pair r dev')
    show ?thesis
    proof (cases r)
      case (Ok u)
      with e Pair obtain gdt now fb fi where d: "disk_like dev' content"
        "formatted content (pl_geo plan) (super_fields (pl_geo plan) bytes now fb fi) gdt dev'" "described plan (groups (pl_geo plan)) gdt"
        by auto
      have "2 * groups (pl_geo plan) \<le> u32_MAX" using plan_wf(9) [OF \<open>mkfs_layout bytes = Ok plan\<close>] by (simp add: u32_MAX_def)
      with mount_formatted [OF \<open>mkfs_layout bytes = Ok plan\<close> d] mount_inv(1) [OF d(1)]
      show ?thesis using Ok Pair \<open>mkfs_layout bytes = Ok plan\<close> by auto
    qed (use e Pair in simp_all)
  qed
next
  case (Err e)
  then have "mkfs bytes dev = (Err e, dev)" by (simp add: mkfs_def act_simps)
  then show ?thesis using mkfs_layout_result(1) [OF Err] Err by simp
next
  case Panic
  with mkfs_layout_result(2) show ?thesis by blast
qed

theorem mkfs_then_mount_witness:
  "case mkfs 1048576 (ram_disk (replicate 1048576 0)) of
      (Ok _, dev') \<Rightarrow> (case mount dev' of Ok s \<Rightarrow> fs_ok (\<lambda>d. d) s | Err e \<Rightarrow> e = Io | Panic \<Rightarrow> False)
    | (Err e, _) \<Rightarrow> e = Io
    | (Panic, _) \<Rightarrow> False"
proof -
  have "mkfs_layout 1048576 \<noteq> Err NoSpace"
    by (simp add: mkfs_layout_def SMALL_def u32_MAX_def div_ceil_def INODE_SIZE_def GD_SIZE_def plan_meta_def
        has_super_def MIN_LAST_GROUP_DATA_def Let_def)
  then show ?thesis
    using mkfs_then_mount [OF ram_disk_like, of 1048576 "replicate 1048576 0"]
    by (auto split: prod.splits result.splits)
qed

end
